(* ===== verification/Prelude.thy ===== *)
theory Prelude
  imports Main "HOL-Library.Char_ord" "HOL-Library.List_Lexorder"
    "HOL-Library.Monad_Syntax" "HOL-Library.Multiset"
begin

text \<open>
  Shared vocabulary of the development.

  \<^item> Assertions: \<open>KU_ASSERT_UNCONDITIONAL\<close> and \<open>KU_UNREACHABLE\<close> throw an
    \<open>InternalException\<close> (src/src/include/common/assert.h); a function that may throw
    returns an option, with None for the exception. \<open>KU_ASSERT\<close> does so in builds with
    \<open>KUZU_RUNTIME_CHECKS\<close> or without \<open>NDEBUG\<close> and is a no-op in release builds, so the model is that of
    a checked build. Where a theorem shows that the result is Some, no assertion fails on the way and
    the release build computes the same result; where None is shown for a failing \<open>KU_ASSERT\<close>, or Some is
    assumed, the statement is about checked builds, and a release build goes on.
    \<open>ku_assert\<close> also guards accesses out of range, which are undefined in every build.
  \<^item> \<open>std::set\<close> is a strictly ascending list (\<open>oset\<close>), so that a loop over a set is
    a recursion in the iteration order of the container; \<open>std::map\<close> is an association list
    with strictly ascending keys (\<open>omap\<close>).
  \<^item> Loops whose body may throw are \<open>foldM\<close>, with a rule for loop invariants.
\<close>

section \<open>Names and collections\<close>

type_synonym node = string

named_theorems oset_simps \<open>facts about ordered sets\<close>
named_theorems omap_simps \<open>facts about ordered maps\<close>

section \<open>Assertions and loops that may throw\<close>

definition ku_assert :: "bool \<Rightarrow> unit option" where
  "ku_assert b = (if b then Some () else None)"

lemma ku_assert_eq_Some [simp]: "ku_assert b = Some u \<longleftrightarrow> b"
  by (simp add: ku_assert_def)

lemma ku_assert_True [simp]: "b \<Longrightarrow> ku_assert b = Some ()"
  by (simp add: ku_assert_def)

lemma ku_assert_False [simp]: "\<not> b \<Longrightarrow> ku_assert b = None"
  by (simp add: ku_assert_def)

fun foldM :: "('s \<Rightarrow> 'x \<Rightarrow> 's option) \<Rightarrow> 's \<Rightarrow> 'x list \<Rightarrow> 's option" where
  "foldM f s [] = Some s"
| "foldM f s (x # xs) = do { s' \<leftarrow> f s x; foldM f s' xs }"

lemma foldM_append: "foldM f s (xs @ ys) = do { s' \<leftarrow> foldM f s xs; foldM f s' ys }"
  by (induction xs arbitrary: s) (auto split: Option.bind_splits)

lemma foldM_cong [fundef_cong]:
  assumes "s = t" "xs = ys" "\<And>s x. x \<in> set ys \<Longrightarrow> f s x = g s x"
  shows "foldM f s xs = foldM g t ys"
proof -
  have "foldM f t ys = foldM g t ys"
    using assms(3) by (induction ys arbitrary: t) (auto split: Option.bind_splits)
  then show ?thesis using assms(1,2) by simp
qed

text \<open>
  The loop rule: an invariant over the processed prefix, together with the fact that every
  iteration of the body returns, gives that the loop returns and the invariant of the whole
  list.
\<close>

lemma foldM_rule:
  assumes "I [] s"
    and "\<And>done x rest s. xs = done @ x # rest \<Longrightarrow> I done s \<Longrightarrow>
           \<exists>s'. f s x = Some s' \<and> I (done @ [x]) s'"
  shows "\<exists>s'. foldM f s xs = Some s' \<and> I xs s'"
proof -
  have "\<exists>s'. foldM f s ys = Some s' \<and> I (pre @ ys) s'"
    if "xs = pre @ ys" "I pre s" for pre ys s
    using that
  proof (induction ys arbitrary: pre s)
    case Nil
    then show ?case by simp
  next
    case (Cons y ys)
    from assms(2)[OF Cons.prems] obtain s1 where s1: "f s y = Some s1" "I (pre @ [y]) s1"
      by blast
    with Cons.IH[of "pre @ [y]" s1] Cons.prems(1)
    obtain s2 where "foldM f s1 ys = Some s2" "I ((pre @ [y]) @ ys) s2" by auto
    with s1 show ?case by simp
  qed
  from this[of "[]" xs s] assms(1) show ?thesis by simp
qed

lemma foldM_Some: "foldM (\<lambda>s x. Some (f s x)) s xs = Some (foldl f s xs)"
  by (induction xs arbitrary: s) auto

text \<open>The same for counting loops, with an invariant over the counter.\<close>

lemma foldM_upt_rule:
  assumes "m \<le> n" "I m s"
    and "\<And>k s. m \<le> k \<Longrightarrow> k < n \<Longrightarrow> I k s \<Longrightarrow> \<exists>s'. f s k = Some s' \<and> I (Suc k) s'"
  shows "\<exists>s'. foldM f s [m..<n] = Some s' \<and> I n s'"
proof -
  have "\<exists>s'. foldM f s [k..<n] = Some s' \<and> I n s'" if "m \<le> k" "k \<le> n" "I k s" for k s
    using that
  proof (induction "n - k" arbitrary: k s)
    case 0
    then show ?case by simp
  next
    case (Suc d)
    then have "k < n" by simp
    from assms(3)[OF Suc.prems(1) this Suc.prems(3)]
    obtain s1 where s1: "f s k = Some s1" "I (Suc k) s1" by blast
    with Suc.hyps(1)[of "Suc k" s1] Suc.hyps(2) Suc.prems \<open>k < n\<close>
    show ?case by (auto simp: upt_conv_Cons)
  qed
  with assms(1,2) show ?thesis by blast
qed

lemma foldl_upt_rule:
  assumes "m \<le> n" "I m s" and "\<And>k s. m \<le> k \<Longrightarrow> k < n \<Longrightarrow> I k s \<Longrightarrow> I (Suc k) (f s k)"
  shows "I n (foldl f s [m..<n])"
proof -
  have "\<exists>s'. foldM (\<lambda>s k. Some (f s k)) s [m..<n] = Some s' \<and> I n s'"
    using assms by (intro foldM_upt_rule[where I = I]) auto
  then show ?thesis by (simp add: foldM_Some)
qed

lemma foldl_invariant:
  assumes "I s" "\<And>s x. x \<in> set xs \<Longrightarrow> I s \<Longrightarrow> I (f s x)"
  shows "I (foldl f s xs)"
  using assms by (induction xs arbitrary: s) auto

section \<open>Consecutive elements\<close>

definition consec :: "'a list \<Rightarrow> ('a \<times> 'a) set" where
  "consec p = set (zip p (tl p))"

lemma consec_nth: "(x, y) \<in> consec p \<longleftrightarrow> (\<exists>k. Suc k < length p \<and> p ! k = x \<and> p ! Suc k = y)"
  unfolding consec_def set_zip by (cases p) auto

lemma consec_simps [simp]:
  "consec [] = {}" "consec [x] = {}" "consec (x # y # p) = insert (x, y) (consec (y # p))"
  by (simp_all add: consec_def)

lemma consec_append_one: "p \<noteq> [] \<Longrightarrow> consec (p @ [x]) = insert (last p, x) (consec p)"
  by (induction p rule: induct_list012) auto

lemma consec_set: "(x, y) \<in> consec p \<Longrightarrow> x \<in> set p \<and> y \<in> set p"
  by (auto simp: consec_nth)

lemma consec_rev: "consec (rev p) = (consec p)\<inverse>"
proof (induction p rule: induct_list012)
  case (3 x y p)
  have "consec (rev (x # y # p)) = insert (last (rev (y # p)), x) (consec (rev (y # p)))"
    by (simp add: consec_append_one del: rev.simps(2) add: rev.simps(2)[of x])
  with 3 show ?case by auto
qed auto

section \<open>Ordered sets\<close>

text \<open>
  \<open>insert\<close>, \<open>erase\<close> and \<open>contains\<close> of \<open>std::set\<close> over strictly ascending lists.
\<close>

definition oset :: "'a::linorder list \<Rightarrow> bool" where
  "oset xs \<longleftrightarrow> sorted_wrt (<) xs"

definition set_insert :: "'a::linorder \<Rightarrow> 'a list \<Rightarrow> 'a list" where
  "set_insert x xs = insort_insert x xs"

definition set_erase :: "'a::linorder \<Rightarrow> 'a list \<Rightarrow> 'a list" where
  "set_erase x xs = filter (\<lambda>y. y \<noteq> x) xs"

lemma oset_Nil [simp, oset_simps]: "oset []"
  by (simp add: oset_def)

lemma oset_sorted_distinct: "oset xs \<longleftrightarrow> sorted xs \<and> distinct xs"
  by (simp add: oset_def strict_sorted_iff)

lemma oset_distinct: "oset xs \<Longrightarrow> distinct xs"
  by (simp add: oset_sorted_distinct)

lemma oset_Cons: "oset (x # xs) \<longleftrightarrow> (\<forall>y\<in>set xs. x < y) \<and> oset xs"
  by (simp add: oset_def)

lemma oset_eqI: "oset xs \<Longrightarrow> oset ys \<Longrightarrow> set xs = set ys \<Longrightarrow> xs = ys"
  unfolding oset_def by (metis strict_sorted_equal)

lemma oset_set_insert [simp, oset_simps]: "oset xs \<Longrightarrow> oset (set_insert x xs)"
  by (auto simp: oset_sorted_distinct set_insert_def insort_insert_key_def distinct_insort
      sorted_insort)

lemma set_set_insert [simp, oset_simps]: "set (set_insert x xs) = insert x (set xs)"
  by (simp add: set_insert_def set_insort_insert)

lemma oset_set_erase [simp, oset_simps]: "oset xs \<Longrightarrow> oset (set_erase x xs)"
  by (simp add: oset_def set_erase_def sorted_wrt_filter)

lemma set_set_erase [simp, oset_simps]: "set (set_erase x xs) = set xs - {x}"
  by (auto simp: set_erase_def)

lemma oset_filter [simp]: "oset xs \<Longrightarrow> oset (filter P xs)"
  by (simp add: oset_def sorted_wrt_filter)

lemma set_insert_idem: "oset xs \<Longrightarrow> x \<in> set xs \<Longrightarrow> set_insert x xs = xs"
  by (rule oset_eqI) auto

lemma set_erase_idem: "x \<notin> set xs \<Longrightarrow> set_erase x xs = xs"
  by (auto simp: set_erase_def filter_id_conv)

lemma length_oset: "oset xs \<Longrightarrow> length xs = card (set xs)"
  by (simp add: oset_distinct distinct_card)

section \<open>Ordered maps\<close>

text \<open>
  \<open>map_put\<close> is \<open>m[k] = v\<close> of \<open>std::map\<close>, \<open>map_erase\<close> is \<open>m.erase(k)\<close>, and
  \<open>map_of\<close> is \<open>m.find(k)\<close>.
\<close>

fun map_put :: "'k::linorder \<Rightarrow> 'v \<Rightarrow> ('k \<times> 'v) list \<Rightarrow> ('k \<times> 'v) list" where
  "map_put k v [] = [(k, v)]"
| "map_put k v (p # m) =
     (if fst p < k then p # map_put k v m
      else if fst p = k then (k, v) # m
      else (k, v) # p # m)"

definition map_erase :: "'k::linorder \<Rightarrow> ('k \<times> 'v) list \<Rightarrow> ('k \<times> 'v) list" where
  "map_erase k m = filter (\<lambda>p. fst p \<noteq> k) m"

definition omap :: "('k::linorder \<times> 'v) list \<Rightarrow> bool" where
  "omap m \<longleftrightarrow> oset (map fst m)"

lemma omap_Nil [simp, omap_simps]: "omap []"
  by (simp add: omap_def)

lemma omap_Cons: "omap (p # m) \<longleftrightarrow> (\<forall>q\<in>set m. fst p < fst q) \<and> omap m"
  by (simp add: omap_def oset_Cons)

lemma set_keys_map_put [simp, omap_simps]:
  "fst ` set (map_put k v m) = insert k (fst ` set m)"
  by (induction m) auto

lemma omap_map_put [simp, omap_simps]: "omap m \<Longrightarrow> omap (map_put k v m)"
proof (induction m)
  case Nil
  then show ?case by (simp add: omap_Cons)
next
  case (Cons p m)
  have "\<forall>q\<in>set (map_put k v m). fst p < fst q" if "fst p < k"
  proof
    fix q assume "q \<in> set (map_put k v m)"
    then have "fst q \<in> insert k (fst ` set m)"
      by (metis imageI set_keys_map_put)
    with that Cons.prems show "fst p < fst q" by (auto simp: omap_Cons)
  qed
  with Cons show ?case by (auto simp: omap_Cons)
qed

lemma map_of_map_put_apply: "omap m \<Longrightarrow> map_of (map_put k v m) x = (if x = k then Some v else map_of m x)"
  by (induction m) (auto simp: omap_Cons)

lemma map_of_map_put [simp, omap_simps]: "omap m \<Longrightarrow> map_of (map_put k v m) = (map_of m)(k \<mapsto> v)"
  by (rule ext) (simp add: map_of_map_put_apply)

lemma keys_map_put: "omap m \<Longrightarrow> map fst (map_put k v m) = set_insert k (map fst m)"
proof (rule oset_eqI)
  assume m: "omap m"
  show "oset (map fst (map_put k v m))" using omap_map_put[OF m] by (simp only: omap_def)
  show "oset (set_insert k (map fst m))" using m by (simp add: omap_def)
  show "set (map fst (map_put k v m)) = set (set_insert k (map fst m))" by simp
qed

lemma map_fst_map_put_same: "omap m \<Longrightarrow> k \<in> set (map fst m) \<Longrightarrow> map fst (map_put k v m) = map fst m"
  by (simp add: keys_map_put set_insert_idem omap_def)

lemma omap_map_erase [simp, omap_simps]: "omap m \<Longrightarrow> omap (map_erase k m)"
  by (induction m) (auto simp: omap_Cons map_erase_def)

lemma keys_map_erase [simp, omap_simps]: "map fst (map_erase k m) = set_erase k (map fst m)"
  by (simp add: map_erase_def set_erase_def filter_map comp_def)

lemma map_of_map_erase [simp, omap_simps]: "map_of (map_erase k m) = (map_of m)(k := None)"
proof (induction m)
  case Nil
  then show ?case by (simp add: map_erase_def)
next
  case (Cons p m)
  then show ?case by (cases p) (auto simp: fun_eq_iff map_erase_def)
qed

lemma omap_mem_iff: "omap m \<Longrightarrow> (k, v) \<in> set m \<longleftrightarrow> map_of m k = Some v"
  by (simp add: omap_def oset_distinct)

lemma omap_eqI:
  assumes "omap m" "omap n" "map_of m = map_of n"
  shows "m = n"
proof -
  have inj: "inj_on fst (set m \<union> set n)"
  proof (rule inj_onI)
    fix p q assume "p \<in> set m \<union> set n" "q \<in> set m \<union> set n" "fst p = fst q"
    moreover have "map_of n (fst r) = Some (snd r)" if "r \<in> set m \<union> set n" for r
      using that omap_mem_iff[OF assms(1), of "fst r" "snd r"]
        omap_mem_iff[OF assms(2), of "fst r" "snd r"] assms(3) by auto
    ultimately show "p = q" by (metis option.inject prod_eqI)
  qed
  have "dom (map_of m) = dom (map_of n)" using assms(3) by simp
  then have "set (map fst m) = set (map fst n)" by (simp add: dom_map_of_conv_image_fst)
  then have "map fst m = map fst n"
    using assms(1,2) by (intro oset_eqI) (auto simp: omap_def)
  with inj show ?thesis by (rule inj_on_map_eq_map[THEN iffD1])
qed

end
