(* ===== verification/SimpleGraph.thy ===== *)
theory SimpleGraph
  imports Prelude
begin

text \<open>
  The undirected simple graph of the CycleJoin planner: \<open>struct Graph\<close> of
  src/src/include/binder/query/query_graph_simple.hpp. A graph keeps its nodes as a
  \<open>std::set\<close> and its adjacency as a \<open>std::map\<close> from nodes to sets of neighbours;
  both are ordered, and the planner's loops run in that order.

  The invariant \<open>wf_graph\<close> says that the adjacency has an entry for exactly the nodes and is
  symmetric; the lemmas show that every operation keeps it and what it does to the nodes and the
  edges.
\<close>

section \<open>The data\<close>

type_synonym path = "node list"

definition BuildPathLengthLimit :: nat where
  "BuildPathLengthLimit = 3"

record graph =
  nodes :: "node list"
  edges :: "(node \<times> node list) list"

definition empty_graph :: graph where
  "empty_graph = \<lparr>nodes = [], edges = []\<rparr>"

text \<open>
  \<open>edges[u]\<close> read by \<open>operator[]\<close>: a missing key reads as the empty set (and is then
  inserted; every use below either stores to the key or erases it afterwards).
\<close>

definition at_key :: "(node \<times> node list) list \<Rightarrow> node \<Rightarrow> node list" where
  "at_key e u = (case map_of e u of None \<Rightarrow> [] | Some ns \<Rightarrow> ns)"

abbreviation adj :: "graph \<Rightarrow> node \<Rightarrow> node list" where
  "adj g u \<equiv> at_key (edges g) u"

section \<open>The operations\<close>

definition isEmpty :: "graph \<Rightarrow> bool" where
  "isEmpty g \<longleftrightarrow> length (nodes g) = 0"

definition getNeighbors :: "graph \<Rightarrow> node \<Rightarrow> node list option" where
  "getNeighbors g src = map_of (edges g) src"

definition isConnectedAndDifferent :: "graph \<Rightarrow> graph \<Rightarrow> bool" where
  "isConnectedAndDifferent g other =
     (let (is_connected, has_new_node) =
        foldl (\<lambda>(is_connected, has_new_node) v.
                 if v \<notin> set (nodes g) then (is_connected, True) else (True, has_new_node))
          (False, False) (nodes other)
      in is_connected \<and> has_new_node)"

definition addNodeMayExists :: "graph \<Rightarrow> node \<Rightarrow> graph" where
  "addNodeMayExists g new_node =
     (if new_node \<notin> set (nodes g)
      then g\<lparr>nodes := set_insert new_node (nodes g), edges := map_put new_node [] (edges g)\<rparr>
      else g)"

definition addNode :: "graph \<Rightarrow> node \<Rightarrow> graph option" where
  "addNode g new_node =
     do { ku_assert (new_node \<notin> set (nodes g));
          Some (g\<lparr>nodes := set_insert new_node (nodes g), edges := map_put new_node [] (edges g)\<rparr>) }"

text \<open>One half of an edge: \<open>edges[src].insert(dst)\<close> and \<open>edges[src].erase(dst)\<close>.\<close>

definition insert_nbr :: "node \<Rightarrow> node \<Rightarrow> (node \<times> node list) list \<Rightarrow> (node \<times> node list) list" where
  "insert_nbr src dst e = map_put src (set_insert dst (at_key e src)) e"

definition erase_nbr :: "node \<Rightarrow> node \<Rightarrow> (node \<times> node list) list \<Rightarrow> (node \<times> node list) list" where
  "erase_nbr src dst e = map_put src (set_erase dst (at_key e src)) e"

definition addEdgeMayExists :: "graph \<Rightarrow> node \<Rightarrow> node \<Rightarrow> graph" where
  "addEdgeMayExists g src dst =
     (if dst \<notin> set (adj g src)
      then g\<lparr>edges := insert_nbr dst src (insert_nbr src dst (edges g))\<rparr>
      else g)"

definition addEdge :: "graph \<Rightarrow> node \<Rightarrow> node \<Rightarrow> graph option" where
  "addEdge g src dst =
     do { ku_assert (src \<in> set (nodes g));
          ku_assert (dst \<in> set (nodes g));
          Some (g\<lparr>edges := insert_nbr dst src (insert_nbr src dst (edges g))\<rparr>) }"

text \<open>
  \<open>removeNode\<close> walks \<open>edges[node]\<close> by reference while it erases \<open>node\<close> from the
  neighbours' sets; with a self loop it erases the element the iterator stands on, which is
  undefined in C++: None.
\<close>

definition removeNode :: "graph \<Rightarrow> node \<Rightarrow> graph option" where
  "removeNode g nd =
     (if nd \<in> set (adj g nd) then None
      else Some (g\<lparr>nodes := set_erase nd (nodes g),
                   edges := map_erase nd (foldl (\<lambda>e nbr. erase_nbr nbr nd e) (edges g) (adj g nd))\<rparr>))"

definition removeEdge :: "graph \<Rightarrow> node \<Rightarrow> node \<Rightarrow> graph" where
  "removeEdge g src dst = g\<lparr>edges := erase_nbr dst src (erase_nbr src dst (edges g))\<rparr>"

definition removeEdgesFrom :: "graph \<Rightarrow> graph \<Rightarrow> graph option" where
  "removeEdgesFrom g other =
     foldM (\<lambda>g u.
        if u \<in> set (nodes g) then
          do { vs \<leftarrow> getNeighbors other u;
               Some (foldl (\<lambda>g v. if v \<in> set (adj g u) then removeEdge g u v else g) g vs) }
        else Some g)
      g (nodes other)"

definition numOfNode :: "graph \<Rightarrow> nat" where
  "numOfNode g = length (nodes g)"

definition numOfEdge :: "graph \<Rightarrow> nat option" where
  "numOfEdge g =
     (let count = foldl (\<lambda>count (_, neighbors). count + length (edges g)) 0 (edges g)
      in do { ku_assert (count mod 2 = 0); Some (count div 2) })"

definition copy :: "graph \<Rightarrow> graph option" where
  "copy g =
     do { c \<leftarrow> foldM addNode empty_graph (nodes g);
          foldM (\<lambda>c (src, dsts). foldM (\<lambda>c dst. addEdge c src dst) c dsts) c (edges g) }"

definition merge :: "graph \<Rightarrow> graph \<Rightarrow> graph option" where
  "merge g other =
     do { c \<leftarrow> copy g;
          let c = foldl addNodeMayExists c (nodes other);
          foldM (\<lambda>c u. do { vs \<leftarrow> getNeighbors other u; foldM (\<lambda>c v. addEdge c u v) c vs })
            c (nodes other) }"

definition mergeFrom :: "graph \<Rightarrow> path \<Rightarrow> graph" where
  "mergeFrom g p =
     foldl (\<lambda>g k. addEdgeMayExists g (p ! (k - 1)) (p ! k))
       (foldl addNodeMayExists g p) [1..<length p]"

definition graph_eq :: "graph \<Rightarrow> graph \<Rightarrow> bool" where
  "graph_eq g other =
     (if length (nodes g) \<noteq> length (nodes other) then False
      else list_all (\<lambda>(k, ns). map_of (edges other) k = Some ns) (edges g))"

definition toString :: "graph \<Rightarrow> string" where
  "toString g =
     concat (map (\<lambda>nd. ''Node:'' @ nd @ '',Nbr:{''
       @ concat (map (\<lambda>nbr. nbr @ '','') (adj g nd)) @ ''},'') (nodes g))"

definition pathToGraph :: "path \<Rightarrow> graph option" where
  "pathToGraph p =
     (if length p > 0 then
        do { g \<leftarrow> addNode empty_graph (p ! 0);
             foldM (\<lambda>g k. do { g \<leftarrow> addNode g (p ! (k + 1)); addEdge g (p ! k) (p ! (k + 1)) })
               g [0..<length p - 1] }
      else Some empty_graph)"

section \<open>The invariant\<close>

definition wf_graph :: "graph \<Rightarrow> bool" where
  "wf_graph g \<longleftrightarrow>
     oset (nodes g) \<and> map fst (edges g) = nodes g \<and>
     list_all (\<lambda>(u, ns). oset ns \<and> list_all (\<lambda>v. u \<in> set (adj g v)) ns) (edges g)"

definition loopfree :: "graph \<Rightarrow> bool" where
  "loopfree g \<longleftrightarrow> list_all (\<lambda>(u, ns). u \<notin> set ns) (edges g)"


subsection \<open>The adjacency map\<close>

lemma at_key_map_put [simp]: "omap e \<Longrightarrow> at_key (map_put k v e) = (at_key e)(k := v)"
  by (rule ext) (simp add: at_key_def)

lemma at_key_map_erase [simp]: "at_key (map_erase k e) = (at_key e)(k := [])"
  by (rule ext) (simp add: at_key_def)

lemma at_key_absent: "k \<notin> set (map fst e) \<Longrightarrow> at_key e k = []"
  by (simp add: at_key_def map_of_eq_None_iff[THEN iffD2])

lemma map_of_at_key: "k \<in> set (map fst e) \<Longrightarrow> map_of e k = Some (at_key e k)"
  by (metis at_key_def list.set_map map_of_eq_None_iff not_None_eq option.simps(5))

lemma at_key_mem: "omap e \<Longrightarrow> (k, v) \<in> set e \<Longrightarrow> at_key e k = v"
  by (simp add: at_key_def omap_mem_iff)

lemma mem_at_key: "k \<in> set (map fst e) \<Longrightarrow> (k, at_key e k) \<in> set e"
  by (drule map_of_at_key) (rule map_of_SomeD)

lemma omap_insert_nbr [simp]: "omap e \<Longrightarrow> omap (insert_nbr s d e)"
  by (simp add: insert_nbr_def)

lemma omap_erase_nbr [simp]: "omap e \<Longrightarrow> omap (erase_nbr s d e)"
  by (simp add: erase_nbr_def)

lemma at_key_insert_nbr [simp]:
  "omap e \<Longrightarrow> at_key (insert_nbr s d e) = (at_key e)(s := set_insert d (at_key e s))"
  by (simp add: insert_nbr_def)

lemma at_key_erase_nbr [simp]:
  "omap e \<Longrightarrow> at_key (erase_nbr s d e) = (at_key e)(s := set_erase d (at_key e s))"
  by (simp add: erase_nbr_def)

lemma keys_insert_nbr:
  "omap e \<Longrightarrow> s \<in> set (map fst e) \<Longrightarrow> map fst (insert_nbr s d e) = map fst e"
  unfolding insert_nbr_def by (rule map_fst_map_put_same)

lemma keys_erase_nbr:
  "omap e \<Longrightarrow> s \<in> set (map fst e) \<Longrightarrow> map fst (erase_nbr s d e) = map fst e"
  unfolding erase_nbr_def by (rule map_fst_map_put_same)

subsection \<open>The invariant as a property of nodes and neighbours\<close>

lemma wf_graph_omap: "wf_graph g \<Longrightarrow> omap (edges g)"
  by (simp add: wf_graph_def omap_def)

lemma wf_graph_keys: "wf_graph g \<Longrightarrow> map fst (edges g) = nodes g"
  by (simp add: wf_graph_def)

lemma wf_graph_nodes: "wf_graph g \<Longrightarrow> oset (nodes g)"
  by (simp add: wf_graph_def)

lemma wf_graph_iff:
  "wf_graph g \<longleftrightarrow>
     oset (nodes g) \<and> map fst (edges g) = nodes g \<and>
     (\<forall>u. oset (adj g u)) \<and> (\<forall>u v. v \<in> set (adj g u) \<longrightarrow> u \<in> set (adj g v))"
  (is "?L \<longleftrightarrow> ?R")
proof
  assume L: ?L
  have entry: "oset (adj g u) \<and> (\<forall>v\<in>set (adj g u). u \<in> set (adj g v))" for u
  proof (cases "u \<in> set (map fst (edges g))")
    case True
    then have "(u, adj g u) \<in> set (edges g)" by (rule mem_at_key)
    with L show ?thesis by (force simp: wf_graph_def list_all_iff)
  next
    case False
    then show ?thesis by (simp add: at_key_absent)
  qed
  with L show ?R by (auto simp: wf_graph_def)
next
  assume R: ?R
  then have "omap (edges g)" by (simp add: omap_def)
  with R show ?L by (auto simp: wf_graph_def list_all_iff dest!: at_key_mem)
qed

lemma wf_graphI:
  assumes "oset (nodes g)" "map fst (edges g) = nodes g" "\<And>u. oset (adj g u)"
    and "\<And>u v. v \<in> set (adj g u) \<Longrightarrow> u \<in> set (adj g v)"
  shows "wf_graph g"
  using assms by (simp add: wf_graph_iff)

lemma adj_oset [simp]: "wf_graph g \<Longrightarrow> oset (adj g u)"
  by (simp add: wf_graph_iff)

lemma adj_sym: "wf_graph g \<Longrightarrow> v \<in> set (adj g u) \<Longrightarrow> u \<in> set (adj g v)"
  by (simp add: wf_graph_iff)

lemma adj_node: "wf_graph g \<Longrightarrow> v \<in> set (adj g u) \<Longrightarrow> u \<in> set (nodes g)"
  by (metis at_key_absent emptyE list.set(1) wf_graph_keys)

lemma adj_node': "wf_graph g \<Longrightarrow> v \<in> set (adj g u) \<Longrightarrow> v \<in> set (nodes g)"
  by (blast intro: adj_node adj_sym)

lemma adj_outside: "wf_graph g \<Longrightarrow> u \<notin> set (nodes g) \<Longrightarrow> adj g u = []"
  by (simp add: at_key_absent wf_graph_keys[symmetric])

lemma getNeighbors_node: "wf_graph g \<Longrightarrow> u \<in> set (nodes g) \<Longrightarrow> getNeighbors g u = Some (adj g u)"
  unfolding getNeighbors_def by (rule map_of_at_key) (simp add: wf_graph_keys[symmetric])

lemma getNeighbors_eq_Some:
  "wf_graph g \<Longrightarrow> getNeighbors g u = Some ns \<longleftrightarrow> u \<in> set (nodes g) \<and> ns = adj g u"
  by (metis getNeighbors_def getNeighbors_node list.set_map map_of_eq_None_iff option.distinct(1)
      option.inject wf_graph_keys)

lemma loopfree_iff: "wf_graph g \<Longrightarrow> loopfree g \<longleftrightarrow> (\<forall>u. u \<notin> set (adj g u))"
proof -
  assume wf: "wf_graph g"
  have "u \<notin> set (adj g u)" if "loopfree g" for u
  proof (cases "u \<in> set (map fst (edges g))")
    case True
    with that mem_at_key[OF True] show ?thesis by (auto simp: loopfree_def list_all_iff)
  next
    case False
    then show ?thesis by (simp add: at_key_absent)
  qed
  moreover have "loopfree g" if "\<forall>u. u \<notin> set (adj g u)"
    using that wf_graph_omap[OF wf] by (auto simp: loopfree_def list_all_iff dest!: at_key_mem)
  ultimately show ?thesis by blast
qed

text \<open>Two well-formed graphs with the same nodes and neighbours are the same value.\<close>

lemma graph_eqI:
  fixes g h :: graph
  assumes "wf_graph g" "wf_graph h" "set (nodes g) = set (nodes h)"
    and "\<And>u. set (adj g u) = set (adj h u)"
  shows "g = h"
proof -
  have n: "nodes g = nodes h"
    using assms(1-3) by (intro oset_eqI) (auto intro: wf_graph_nodes)
  have a: "adj g u = adj h u" for u
    using assms by (intro oset_eqI) auto
  have "map_of (edges g) u = map_of (edges h) u" for u
  proof (cases "u \<in> set (nodes g)")
    case True
    then show ?thesis
      using assms(1,2) n a by (metis map_of_at_key wf_graph_keys)
  next
    case False
    then show ?thesis
      using assms(1,2) n by (metis list.set_map map_of_eq_None_iff wf_graph_keys)
  qed
  then have "edges g = edges h"
    using assms(1,2) by (intro omap_eqI wf_graph_omap ext)
  with n show ?thesis by simp
qed

subsection \<open>What each operation does to nodes and edges\<close>

lemma wf_empty_graph [simp]: "wf_graph empty_graph"
  by (simp add: wf_graph_def empty_graph_def)

lemma empty_graph_sel [simp]: "nodes empty_graph = []" "adj empty_graph u = []"
  by (simp_all add: empty_graph_def at_key_def)

lemma wf_new_node:
  assumes "wf_graph g" "u \<notin> set (nodes g)"
  defines "g' \<equiv> g\<lparr>nodes := set_insert u (nodes g), edges := map_put u [] (edges g)\<rparr>"
  shows "wf_graph g'" "set (nodes g') = insert u (set (nodes g))" "adj g' = adj g"
proof -
  have adj: "adj g' = adj g"
    using assms(1,2) by (auto simp: g'_def wf_graph_omap adj_outside)
  then show "adj g' = adj g" .
  show "set (nodes g') = insert u (set (nodes g))" by (simp add: g'_def)
  show "wf_graph g'"
  proof (rule wf_graphI)
    show "map fst (edges g') = nodes g'"
      using assms(1) by (simp add: g'_def keys_map_put wf_graph_omap wf_graph_keys)
  qed (use assms(1) adj in \<open>auto simp: g'_def wf_graph_nodes intro: adj_sym\<close>)
qed

lemma addNode_ok:
  assumes "wf_graph g" "u \<notin> set (nodes g)"
  shows "\<exists>g'. addNode g u = Some g' \<and> wf_graph g' \<and>
    set (nodes g') = insert u (set (nodes g)) \<and> (\<forall>x. set (adj g' x) = set (adj g x))"
  using wf_new_node[OF assms] assms(2) by (simp add: addNode_def)

lemma addNodeMayExists_wf:
  assumes "wf_graph g"
  shows "wf_graph (addNodeMayExists g u)"
    "set (nodes (addNodeMayExists g u)) = insert u (set (nodes g))"
    "adj (addNodeMayExists g u) = adj g"
  using assms wf_new_node[OF assms, of u] by (auto simp: addNodeMayExists_def)

lemma wf_link:
  assumes "wf_graph g" "u \<in> set (nodes g)" "v \<in> set (nodes g)"
  defines "g' \<equiv> g\<lparr>edges := insert_nbr v u (insert_nbr u v (edges g))\<rparr>"
  shows "wf_graph g'" "nodes g' = nodes g"
    "set (adj g' x) = set (adj g x) \<union> {y. (x = u \<and> y = v) \<or> (x = v \<and> y = u)}"
proof -
  have om: "omap (edges g)" by (rule wf_graph_omap) fact
  have adj: "set (adj g' x) = set (adj g x) \<union> {y. (x = u \<and> y = v) \<or> (x = v \<and> y = u)}" for x
    using om by (auto simp: g'_def)
  show n: "nodes g' = nodes g" by (simp add: g'_def)
  show "set (adj g' x) = set (adj g x) \<union> {y. (x = u \<and> y = v) \<or> (x = v \<and> y = u)}"
    by (rule adj)
  show "wf_graph g'"
  proof (rule wf_graphI)
    show "oset (nodes g')" using assms(1) n by (simp add: wf_graph_nodes)
    show "map fst (edges g') = nodes g'"
      using assms(1-3) om by (simp add: g'_def keys_insert_nbr wf_graph_keys
          flip: list.set_map)
    show "oset (adj g' x)" for x
      using assms(1) om by (auto simp: g'_def)
    show "x \<in> set (adj g' y)" if "y \<in> set (adj g' x)" for x y
      using that adj_sym[OF assms(1)] unfolding adj by blast
  qed
qed

lemma addEdge_ok:
  assumes "wf_graph g" "u \<in> set (nodes g)" "v \<in> set (nodes g)"
  shows "\<exists>g'. addEdge g u v = Some g' \<and> wf_graph g' \<and> nodes g' = nodes g \<and>
    (\<forall>x. set (adj g' x) = set (adj g x) \<union> {y. (x = u \<and> y = v) \<or> (x = v \<and> y = u)})"
  using wf_link[OF assms] assms(2,3) by (simp add: addEdge_def)

lemma addEdgeMayExists_wf:
  assumes "wf_graph g" "u \<in> set (nodes g)" "v \<in> set (nodes g)"
  shows "wf_graph (addEdgeMayExists g u v)" "nodes (addEdgeMayExists g u v) = nodes g"
    "set (adj (addEdgeMayExists g u v) x) =
       set (adj g x) \<union> {y. (x = u \<and> y = v) \<or> (x = v \<and> y = u)}"
proof -
  note wl = wf_link[OF assms]
  show "wf_graph (addEdgeMayExists g u v)"
    using wl(1) assms(1) by (simp add: addEdgeMayExists_def)
  show "nodes (addEdgeMayExists g u v) = nodes g"
    by (simp add: addEdgeMayExists_def)
  show "set (adj (addEdgeMayExists g u v) x) =
       set (adj g x) \<union> {y. (x = u \<and> y = v) \<or> (x = v \<and> y = u)}"
  proof (cases "v \<in> set (adj g u)")
    case True
    with adj_sym[OF assms(1) True] show ?thesis by (auto simp: addEdgeMayExists_def)
  next
    case False
    then show ?thesis using wl(3)[of x] by (simp add: addEdgeMayExists_def)
  qed
qed


lemma removeEdge_wf:
  assumes "wf_graph g" "u \<in> set (nodes g)" "v \<in> set (nodes g)"
  shows "wf_graph (removeEdge g u v)" "nodes (removeEdge g u v) = nodes g"
    "set (adj (removeEdge g u v) x) = set (adj g x) - {y. (x = u \<and> y = v) \<or> (x = v \<and> y = u)}"
proof -
  have om: "omap (edges g)" by (rule wf_graph_omap) fact
  have adj: "set (adj (removeEdge g u v) x) =
      set (adj g x) - {y. (x = u \<and> y = v) \<or> (x = v \<and> y = u)}" for x
    using om by (auto simp: removeEdge_def)
  then show "set (adj (removeEdge g u v) x) =
      set (adj g x) - {y. (x = u \<and> y = v) \<or> (x = v \<and> y = u)}" .
  show n: "nodes (removeEdge g u v) = nodes g" by (simp add: removeEdge_def)
  show "wf_graph (removeEdge g u v)"
  proof (rule wf_graphI)
    show "oset (nodes (removeEdge g u v))" using assms(1) n by (simp add: wf_graph_nodes)
    show "map fst (edges (removeEdge g u v)) = nodes (removeEdge g u v)"
      using assms om by (simp add: removeEdge_def keys_erase_nbr wf_graph_keys flip: list.set_map)
    show "oset (adj (removeEdge g u v) x)" for x
      using assms(1) om by (auto simp: removeEdge_def)
    show "x \<in> set (adj (removeEdge g u v) y)" if "y \<in> set (adj (removeEdge g u v) x)" for x y
      using that adj_sym[OF assms(1)] unfolding adj by blast
  qed
qed

lemma erase_from_nbrs:
  assumes "omap e" "set ns \<subseteq> set (map fst e)" "\<And>x. oset (at_key e x)"
  shows "omap (foldl (\<lambda>e nbr. erase_nbr nbr nd e) e ns) \<and>
    map fst (foldl (\<lambda>e nbr. erase_nbr nbr nd e) e ns) = map fst e \<and>
    (\<forall>x. oset (at_key (foldl (\<lambda>e nbr. erase_nbr nbr nd e) e ns) x) \<and>
      set (at_key (foldl (\<lambda>e nbr. erase_nbr nbr nd e) e ns) x) =
        set (at_key e x) - (if x \<in> set ns then {nd} else {}))"
  using assms
proof (induction ns arbitrary: e)
  case (Cons n ns)
  let ?e = "erase_nbr n nd e"
  have k: "map fst ?e = map fst e" using Cons.prems(1,2) by (intro keys_erase_nbr) auto
  have o: "oset (at_key ?e x)" for x using Cons.prems(1,3) by simp
  have "set ns \<subseteq> set (map fst ?e)" using k Cons.prems(2) by simp
  from Cons.IH[OF _ this o] Cons.prems(1) k show ?case by auto
qed auto

lemma removeNode_ok:
  assumes "wf_graph g" "nd \<notin> set (adj g nd)"
  shows "\<exists>g'. removeNode g nd = Some g' \<and> wf_graph g' \<and>
    set (nodes g') = set (nodes g) - {nd} \<and>
    (\<forall>x. set (adj g' x) = (if x = nd then {} else set (adj g x) - {nd}))"
proof -
  let ?e = "foldl (\<lambda>e nbr. erase_nbr nbr nd e) (edges g) (adj g nd)"
  let ?g = "g\<lparr>nodes := set_erase nd (nodes g), edges := map_erase nd ?e\<rparr>"
  have om: "omap (edges g)" by (rule wf_graph_omap) fact
  have "set (adj g nd) \<subseteq> set (map fst (edges g))"
    using adj_node'[OF assms(1)] by (auto simp: wf_graph_keys[OF assms(1)] simp flip: list.set_map)
  from erase_from_nbrs[OF om this, of nd] assms(1)
  have en: "map fst ?e = map fst (edges g)" "\<And>x. oset (at_key ?e x)"
    "\<And>x. set (at_key ?e x) = set (adj g x) - (if x \<in> set (adj g nd) then {nd} else {})"
    by auto
  have adj: "set (adj ?g x) = (if x = nd then {} else set (adj g x) - {nd})" for x
    using en(3) adj_sym[OF assms(1), of nd x] by auto
  have "wf_graph ?g"
  proof (rule wf_graphI)
    show "oset (nodes ?g)" using assms(1) by (simp add: wf_graph_nodes)
    show "map fst (edges ?g) = nodes ?g"
      using en(1) by (simp add: wf_graph_keys[OF assms(1)])
    show "oset (adj ?g x)" for x using en(2) by simp
    show "x \<in> set (adj ?g y)" if "y \<in> set (adj ?g x)" for x y
      using that adj_sym[OF assms(1)] unfolding adj by (auto split: if_splits)
  qed
  with adj assms(2) show ?thesis by (simp add: removeNode_def)
qed

subsection \<open>Loops over edges\<close>

lemma addEdges_ok:
  assumes "wf_graph c" "u \<in> set (nodes c)" "set vs \<subseteq> set (nodes c)"
  shows "\<exists>c'. foldM (\<lambda>c v. addEdge c u v) c vs = Some c' \<and> wf_graph c' \<and> nodes c' = nodes c \<and>
    (\<forall>x. set (adj c' x) = set (adj c x) \<union> {y. (x = u \<and> y \<in> set vs) \<or> (y = u \<and> x \<in> set vs)})"
  using assms
proof (induction vs arbitrary: c)
  case Nil
  then show ?case by simp
next
  case (Cons v vs)
  from addEdge_ok[of c u v] Cons.prems obtain c1 where c1: "addEdge c u v = Some c1" "wf_graph c1"
    "nodes c1 = nodes c"
    "\<And>x. set (adj c1 x) = set (adj c x) \<union> {y. (x = u \<and> y = v) \<or> (x = v \<and> y = u)}" by auto
  from Cons.IH[of c1] Cons.prems c1 obtain c2 where
    "foldM (\<lambda>c v. addEdge c u v) c1 vs = Some c2" "wf_graph c2" "nodes c2 = nodes c"
    "\<And>x. set (adj c2 x) = set (adj c1 x) \<union> {y. (x = u \<and> y \<in> set vs) \<or> (y = u \<and> x \<in> set vs)}"
    by auto
  with c1 show ?case by (auto)
qed

text \<open>
  Adding, for every entry of a list of adjacency entries, the edges it lists: the common core of
  \<open>copy\<close> and \<open>merge\<close>.
\<close>

lemma addEntries_ok:
  assumes "wf_graph c" "\<And>u ns. (u, ns) \<in> set es \<Longrightarrow> u \<in> set (nodes c) \<and> set ns \<subseteq> set (nodes c)"
  shows "\<exists>c'. foldM (\<lambda>c (src, dsts). foldM (\<lambda>c dst. addEdge c src dst) c dsts) c es = Some c' \<and>
    wf_graph c' \<and> nodes c' = nodes c \<and>
    (\<forall>x. set (adj c' x) = set (adj c x) \<union>
       {y. \<exists>ns. ((x, ns) \<in> set es \<and> y \<in> set ns) \<or> ((y, ns) \<in> set es \<and> x \<in> set ns)})"
  using assms
proof (induction es arbitrary: c)
  case Nil
  then show ?case by simp
next
  case (Cons e es)
  obtain u ns where e: "e = (u, ns)" by (cases e)
  with Cons.prems have "u \<in> set (nodes c)" "set ns \<subseteq> set (nodes c)" by auto
  from addEdges_ok[OF Cons.prems(1) this] obtain c1 where c1:
    "foldM (\<lambda>c v. addEdge c u v) c ns = Some c1" "wf_graph c1" "nodes c1 = nodes c"
    "\<And>x. set (adj c1 x) = set (adj c x) \<union> {y. (x = u \<and> y \<in> set ns) \<or> (y = u \<and> x \<in> set ns)}"
    by auto
  from Cons.IH[of c1] Cons.prems(2) c1(2,3) obtain c2 where
    "foldM (\<lambda>c (src, dsts). foldM (\<lambda>c dst. addEdge c src dst) c dsts) c1 es = Some c2"
    "wf_graph c2" "nodes c2 = nodes c"
    "\<And>x. set (adj c2 x) = set (adj c1 x) \<union>
       {y. \<exists>ns. ((x, ns) \<in> set es \<and> y \<in> set ns) \<or> ((y, ns) \<in> set es \<and> x \<in> set ns)}"
    by auto
  with c1 e show ?case by auto
qed

lemma addNodes_ok:
  assumes "distinct us"
  shows "\<exists>c. foldM addNode empty_graph us = Some c \<and> wf_graph c \<and> set (nodes c) = set us \<and>
    (\<forall>x. adj c x = [])"
proof -
  have "\<exists>c. foldM addNode empty_graph us = Some c \<and> (wf_graph c \<and> set (nodes c) = set us \<and>
    (\<forall>x. adj c x = []))"
  proof (rule foldM_rule)
    fix don x rest c
    assume us: "us = don @ x # rest" and c: "wf_graph c \<and> set (nodes c) = set don \<and> (\<forall>x. adj c x = [])"
    with assms have "x \<notin> set (nodes c)" by auto
    with addNode_ok[of c x] c show "\<exists>s'. addNode c x = Some s' \<and> wf_graph s' \<and>
        set (nodes s') = set (don @ [x]) \<and> (\<forall>x. adj s' x = [])" by auto
  qed simp
  then show ?thesis by blast
qed

lemma adj_entry: "wf_graph g \<Longrightarrow> (\<exists>ns. (x, ns) \<in> set (edges g) \<and> y \<in> set ns) \<longleftrightarrow> y \<in> set (adj g x)"
  by (metis adj_node at_key_mem mem_at_key wf_graph_keys wf_graph_omap)

text \<open>\<open>copy\<close> returns, and returns the graph itself.\<close>

lemma copy_wf: "wf_graph g \<Longrightarrow> copy g = Some g"
proof -
  assume wf: "wf_graph g"
  then have "distinct (nodes g)" by (simp add: wf_graph_nodes oset_distinct)
  from addNodes_ok[OF this] obtain c where c: "foldM addNode empty_graph (nodes g) = Some c"
    "wf_graph c" "set (nodes c) = set (nodes g)" "\<And>x. adj c x = []" by auto
  have mem: "u \<in> set (nodes c) \<and> set ns \<subseteq> set (nodes c)" if "(u, ns) \<in> set (edges g)" for u ns
    using that wf c(3) by (metis adj_node' at_key_mem fst_conv image_eqI list.set_map subsetI
        wf_graph_keys wf_graph_omap)
  from addEntries_ok[OF c(2), of "edges g"] mem obtain c' where
    c': "foldM (\<lambda>c (src, dsts). foldM (\<lambda>c dst. addEdge c src dst) c dsts) c (edges g) = Some c'"
    "wf_graph c'" "nodes c' = nodes c"
    "\<And>x. set (adj c' x) = set (adj c x) \<union>
       {y. \<exists>ns. ((x, ns) \<in> set (edges g) \<and> y \<in> set ns) \<or> ((y, ns) \<in> set (edges g) \<and> x \<in> set ns)}"
    by auto
  have "c' = g"
  proof (rule graph_eqI)
    show "set (adj c' x) = set (adj g x)" for x
      unfolding c'(4) ex_disj_distrib adj_entry[OF wf] c(4) using adj_sym[OF wf] by auto
  qed (use c c' wf in auto)
  with c(1) c'(1) show ?thesis by (simp add: copy_def)
qed


lemma isConnectedAndDifferent_iff:
  "isConnectedAndDifferent g h \<longleftrightarrow>
     set (nodes h) \<inter> set (nodes g) \<noteq> {} \<and> \<not> set (nodes h) \<subseteq> set (nodes g)"
proof -
  have "foldl (\<lambda>(c, d) v. if v \<notin> set (nodes g) then (c, True) else (True, d)) (c, d) vs =
      (c \<or> (\<exists>v\<in>set vs. v \<in> set (nodes g)), d \<or> (\<exists>v\<in>set vs. v \<notin> set (nodes g)))" for c d vs
    by (induction vs arbitrary: c d) auto
  then show ?thesis by (auto simp: isConnectedAndDifferent_def)
qed

lemma addNodesMayExist_wf:
  assumes "wf_graph g"
  shows "wf_graph (foldl addNodeMayExists g us) \<and>
    set (nodes (foldl addNodeMayExists g us)) = set (nodes g) \<union> set us \<and>
    adj (foldl addNodeMayExists g us) = adj g"
  using assms
proof (induction us arbitrary: g)
  case (Cons u us)
  note a = addNodeMayExists_wf[OF Cons.prems, of u]
  from Cons.IH[OF a(1)] a(2,3) show ?case by auto
qed simp

text \<open>\<open>merge\<close> returns the union of the two graphs.\<close>

lemma merge_ok:
  assumes "wf_graph g" "wf_graph h"
  shows "\<exists>m. merge g h = Some m \<and> wf_graph m \<and> set (nodes m) = set (nodes g) \<union> set (nodes h) \<and>
    (\<forall>x. set (adj m x) = set (adj g x) \<union> set (adj h x))"
proof -
  let ?c = "foldl addNodeMayExists g (nodes h)"
  note c = addNodesMayExist_wf[OF assms(1), of "nodes h"]
  let ?body = "\<lambda>c u. do { vs \<leftarrow> getNeighbors h u; foldM (\<lambda>c v. addEdge c u v) c vs }"
  let ?I = "\<lambda>don c. wf_graph c \<and> nodes c = nodes ?c \<and> (\<forall>x. set (adj c x) = set (adj g x) \<union>
     {y. (x \<in> set don \<and> y \<in> set (adj h x)) \<or> (y \<in> set don \<and> x \<in> set (adj h y))})"
  have "\<exists>m. foldM ?body ?c (nodes h) = Some m \<and> ?I (nodes h) m"
  proof (rule foldM_rule[where I = ?I])
    show "?I [] ?c" using c by auto
  next
    fix don u rest s
    assume us: "nodes h = don @ u # rest" and I: "?I don s"
    then have u: "u \<in> set (nodes h)" by simp
    have "set (adj h u) \<subseteq> set (nodes h)" using adj_node'[OF assms(2)] by blast
    then have sub: "u \<in> set (nodes s)" "set (adj h u) \<subseteq> set (nodes s)"
      using I c u by auto
    from addEdges_ok[OF _ sub] I obtain s' where s': "foldM (\<lambda>c v. addEdge c u v) s (adj h u) = Some s'"
      "wf_graph s'" "nodes s' = nodes s"
      "\<forall>x. set (adj s' x) = set (adj s x) \<union> {y. (x = u \<and> y \<in> set (adj h u)) \<or> (y = u \<and> x \<in> set (adj h u))}"
      by auto
    with I have "?I (don @ [u]) s'" by auto
    with s'(1) show "\<exists>s'. ?body s u = Some s' \<and> ?I (don @ [u]) s'"
      using getNeighbors_node[OF assms(2) u] by simp
  qed
  then obtain m where m: "foldM ?body ?c (nodes h) = Some m" "?I (nodes h) m" by blast
  have "set (adj m x) = set (adj g x) \<union> set (adj h x)" for x
    using m(2) adj_node[OF assms(2)] adj_sym[OF assms(2)] by blast
  moreover have "merge g h = Some m"
    using m(1) by (simp add: merge_def copy_wf[OF assms(1)])
  ultimately show ?thesis using m(2) c by auto
qed

text \<open>\<open>removeEdgesFrom\<close> removes exactly the edges the two graphs share.\<close>

lemma removeEdges_at:
  assumes "wf_graph g" "u \<in> set (nodes g)"
  shows "wf_graph (foldl (\<lambda>g v. if v \<in> set (adj g u) then removeEdge g u v else g) g vs) \<and>
    nodes (foldl (\<lambda>g v. if v \<in> set (adj g u) then removeEdge g u v else g) g vs) = nodes g \<and>
    (\<forall>x. set (adj (foldl (\<lambda>g v. if v \<in> set (adj g u) then removeEdge g u v else g) g vs) x) =
       set (adj g x) - {y. (x = u \<and> y \<in> set vs) \<or> (y = u \<and> x \<in> set vs)})"
  using assms
proof (induction vs arbitrary: g)
  case (Cons v vs)
  show ?case
  proof (cases "v \<in> set (adj g u)")
    case True
    with Cons.prems have "v \<in> set (nodes g)" by (blast intro: adj_node')
    note r = removeEdge_wf[OF Cons.prems(1,2) this]
    from Cons.IH[OF r(1)] Cons.prems(2) r(2,3) True show ?thesis by auto
  next
    case False
    with adj_sym[OF Cons.prems(1), of u v] have "u \<notin> set (adj g v)" by blast
    with False Cons.IH[OF Cons.prems] show ?thesis by auto
  qed
qed simp

lemma removeEdgesFrom_ok:
  assumes "wf_graph g" "wf_graph h"
  shows "\<exists>r. removeEdgesFrom g h = Some r \<and> wf_graph r \<and> nodes r = nodes g \<and>
    (\<forall>x. set (adj r x) = set (adj g x) - set (adj h x))"
proof -
  let ?body = "\<lambda>g u. if u \<in> set (nodes g) then
      do { vs \<leftarrow> getNeighbors h u;
           Some (foldl (\<lambda>g v. if v \<in> set (adj g u) then removeEdge g u v else g) g vs) }
    else Some g"
  let ?I = "\<lambda>don r. wf_graph r \<and> nodes r = nodes g \<and> (\<forall>x. set (adj r x) = set (adj g x) -
     {y. (x \<in> set don \<and> y \<in> set (adj h x)) \<or> (y \<in> set don \<and> x \<in> set (adj h y))})"
  have "\<exists>r. foldM ?body g (nodes h) = Some r \<and> ?I (nodes h) r"
  proof (rule foldM_rule[where I = ?I])
    show "?I [] g" using assms(1) by auto
  next
    fix don u rest s
    assume us: "nodes h = don @ u # rest" and I: "?I don s"
    then have u: "u \<in> set (nodes h)" by simp
    show "\<exists>s'. ?body s u = Some s' \<and> ?I (don @ [u]) s'"
    proof (cases "u \<in> set (nodes s)")
      case True
      with removeEdges_at[of s u "adj h u"] I show ?thesis
        using getNeighbors_node[OF assms(2) u] by auto
    next
      case False
      then have "\<forall>y. u \<notin> set (adj g y)" "adj g u = []"
        using I assms(1) by (auto dest: adj_node' simp: adj_outside)
      with I False show ?thesis by auto
    qed
  qed
  then obtain r where r: "foldM ?body g (nodes h) = Some r" "?I (nodes h) r" by blast
  have "set (adj r x) = set (adj g x) - set (adj h x)" for x
    using r(2) adj_node[OF assms(2)] adj_sym[OF assms(2)] by blast
  with r show ?thesis by (simp add: removeEdgesFrom_def)
qed


subsection \<open>Paths as graphs\<close>

definition path_nbrs :: "path \<Rightarrow> node \<Rightarrow> node set" where
  "path_nbrs p x = {y. (x, y) \<in> consec p \<or> (y, x) \<in> consec p}"

lemma path_nbrs_nth:
  "y \<in> path_nbrs p x \<longleftrightarrow>
     (\<exists>k. 0 < k \<and> k < length p \<and> ((p ! (k - 1) = x \<and> p ! k = y) \<or> (p ! (k - 1) = y \<and> p ! k = x)))"
proof -
  have "(\<exists>k. Suc k < length p \<and> Q k) \<longleftrightarrow> (\<exists>k. 0 < k \<and> k < length p \<and> Q (k - 1))" for Q
  proof
    assume "\<exists>k. Suc k < length p \<and> Q k"
    then obtain k where "Suc k < length p" "Q k" by blast
    then show "\<exists>k. 0 < k \<and> k < length p \<and> Q (k - 1)" by (intro exI[of _ "Suc k"]) simp
  next
    assume "\<exists>k. 0 < k \<and> k < length p \<and> Q (k - 1)"
    then obtain k where "0 < k" "k < length p" "Q (k - 1)" by blast
    then show "\<exists>k. Suc k < length p \<and> Q k" by (intro exI[of _ "k - 1"]) simp
  qed
  from this[of "\<lambda>k. (p ! k = x \<and> p ! Suc k = y) \<or> (p ! k = y \<and> p ! Suc k = x)"]
  show ?thesis by (auto simp: path_nbrs_def consec_nth)
qed

lemma path_nbrs_rev [simp]: "path_nbrs (rev p) x = path_nbrs p x"
  by (auto simp: path_nbrs_def consec_rev)

lemma mergeFrom_wf:
  assumes "wf_graph g"
  shows "wf_graph (mergeFrom g p) \<and> set (nodes (mergeFrom g p)) = set (nodes g) \<union> set p \<and>
    (\<forall>x. set (adj (mergeFrom g p) x) = set (adj g x) \<union> path_nbrs p x)"
proof (cases "p = []")
  case True
  with assms show ?thesis by (simp add: mergeFrom_def path_nbrs_def)
next
  case False
  let ?c = "foldl addNodeMayExists g p"
  note c = addNodesMayExist_wf[OF assms, of p]
  let ?I = "\<lambda>k s. wf_graph s \<and> nodes s = nodes ?c \<and> (\<forall>x. set (adj s x) = set (adj g x) \<union>
    {y. \<exists>j. 0 < j \<and> j < k \<and> ((p ! (j - 1) = x \<and> p ! j = y) \<or> (p ! (j - 1) = y \<and> p ! j = x))})"
  have "?I (length p) (mergeFrom g p)"
    unfolding mergeFrom_def
  proof (rule foldl_upt_rule[where I = ?I])
    show "1 \<le> length p" using False by (cases p) auto
    show "?I 1 ?c" using c by auto
  next
    fix k s assume k: "1 \<le> k" "k < length p" and I: "?I k s"
    then have "p ! (k - 1) \<in> set (nodes s)" "p ! k \<in> set (nodes s)" using c by auto
    note a = addEdgeMayExists_wf[OF _ this]
    have ex: "(\<exists>j. 0 < j \<and> j < Suc k \<and> Q j) \<longleftrightarrow> (\<exists>j. 0 < j \<and> j < k \<and> Q j) \<or> Q k" for Q
      using k(1) by (metis less_Suc_eq less_eq_Suc_le One_nat_def)
    show "?I (Suc k) (addEdgeMayExists s (p ! (k - 1)) (p ! k))"
      unfolding ex using I a by auto
  qed
  then have "?I (length p) (mergeFrom g p)" .
  then show ?thesis using c by (auto simp: path_nbrs_nth)
qed

text \<open>
  \<open>pathToGraph\<close> asserts that the nodes of the path are pairwise different; then it returns the
  path as a graph.
\<close>

lemma pathToGraph_ok:
  assumes "distinct p"
  shows "\<exists>g. pathToGraph p = Some g \<and> wf_graph g \<and> set (nodes g) = set p \<and>
    (\<forall>x. set (adj g x) = path_nbrs p x)"
proof (cases "p = []")
  case True
  then show ?thesis by (simp add: pathToGraph_def path_nbrs_def)
next
  case False
  let ?body = "\<lambda>g k. do { g \<leftarrow> addNode g (p ! (k + 1)); addEdge g (p ! k) (p ! (k + 1)) }"
  let ?I = "\<lambda>k g. wf_graph g \<and> set (nodes g) = {p ! i | i. i \<le> k} \<and> (\<forall>x. set (adj g x) =
    {y. \<exists>j < k. (p ! j = x \<and> p ! Suc j = y) \<or> (p ! j = y \<and> p ! Suc j = x)})"
  obtain g0 where g0: "addNode empty_graph (p ! 0) = Some g0" "?I 0 g0"
    using addNode_ok[of empty_graph "p ! 0"] by auto
  have "\<exists>g. foldM ?body g0 [0..<length p - 1] = Some g \<and> ?I (length p - 1) g"
  proof (rule foldM_upt_rule[where I = ?I])
    fix k g assume k: "0 \<le> k" "k < length p - 1" and I: "?I k g"
    have fresh: "p ! (k + 1) \<notin> set (nodes g)"
      using I k assms by (auto simp: nth_eq_iff_index_eq)
    from addNode_ok[OF _ this] I obtain g1 where g1: "addNode g (p ! (k + 1)) = Some g1" "wf_graph g1"
      "set (nodes g1) = insert (p ! (k + 1)) (set (nodes g))" "\<And>x. set (adj g1 x) = set (adj g x)"
      by auto
    have "p ! k \<in> set (nodes g1)" "p ! (k + 1) \<in> set (nodes g1)" using g1(3) I by auto
    from addEdge_ok[OF g1(2) this] obtain g2 where g2: "addEdge g1 (p ! k) (p ! (k + 1)) = Some g2"
      "wf_graph g2" "nodes g2 = nodes g1"
      "\<And>x. set (adj g2 x) = set (adj g1 x) \<union>
        {y. (x = p ! k \<and> y = p ! (k + 1)) \<or> (x = p ! (k + 1) \<and> y = p ! k)}" by auto
    have "{p ! i | i. i \<le> Suc k} = insert (p ! (k + 1)) {p ! i | i. i \<le> k}"
      by (auto simp: le_Suc_eq)
    moreover have "(\<exists>j<Suc k. Q j) \<longleftrightarrow> (\<exists>j<k. Q j) \<or> Q k" for Q by (auto simp: less_Suc_eq)
    ultimately have "?I (Suc k) g2" using g1 g2 I by auto
    with g1(1) g2(1) show "\<exists>g'. ?body g k = Some g' \<and> ?I (Suc k) g'" by auto
  qed (use g0 in auto)
  then obtain g where g: "foldM ?body g0 [0..<length p - 1] = Some g" "?I (length p - 1) g" by blast
  have len: "Suc j < length p \<longleftrightarrow> j < length p - 1" for j by auto
  have "i \<le> length p - 1 \<longleftrightarrow> i < length p" for i using False by (cases p) auto
  then have "set (nodes g) = set p" using g(2) by (simp add: set_conv_nth)
  with g g0(1) False show ?thesis
    by (auto simp: pathToGraph_def path_nbrs_def consec_nth len)
qed

subsection \<open>Comparison and counting\<close>

lemma graph_eq_wf:
  assumes "wf_graph g" "wf_graph h"
  shows "graph_eq g h \<longleftrightarrow> g = h"
proof
  assume eq: "graph_eq g h"
  then have len: "length (nodes g) = length (nodes h)"
    and ent: "\<And>u ns. (u, ns) \<in> set (edges g) \<Longrightarrow> map_of (edges h) u = Some ns"
    by (auto simp: graph_eq_def list_all_iff split: if_splits)
  have sub: "u \<in> set (nodes h) \<and> adj h u = adj g u" if "u \<in> set (nodes g)" for u
  proof -
    from that assms(1) have "(u, adj g u) \<in> set (edges g)"
      by (metis mem_at_key wf_graph_keys)
    then have "map_of (edges h) u = Some (adj g u)" by (rule ent)
    then show ?thesis
      using assms(2) by (metis getNeighbors_def getNeighbors_eq_Some)
  qed
  then have "set (nodes g) \<subseteq> set (nodes h)" by blast
  then have n: "set (nodes g) = set (nodes h)"
    using len assms by (intro card_subset_eq) (auto simp: wf_graph_nodes simp flip: length_oset)
  have "adj g u = adj h u" for u
    using sub n adj_outside[OF assms(1)] adj_outside[OF assms(2)] by (cases "u \<in> set (nodes g)") auto
  with assms n show "g = h" by (intro graph_eqI) auto
next
  assume "g = h"
  then show "graph_eq g h"
    using wf_graph_omap[OF assms(1)] by (auto simp: graph_eq_def list_all_iff omap_mem_iff)
qed

lemma numOfEdge_wf:
  assumes "wf_graph g"
  shows "numOfEdge g = (if even (length (nodes g)) then Some (length (nodes g) * length (nodes g) div 2) else None)"
proof -
  have "foldl (\<lambda>count (_, neighbors). count + n) a es = a + n * length es"
    for n a and es :: "(node \<times> node list) list"
    by (induction es arbitrary: a) auto
  moreover have "length (edges g) = length (nodes g)"
    using wf_graph_keys[OF assms] by (metis length_map)
  ultimately show ?thesis
    by (auto simp: numOfEdge_def Let_def ku_assert_def even_iff_mod_2_eq_zero[symmetric])
qed

section \<open>Properties\<close>

text \<open>Example graphs: a triangle, and a square with one diagonal.\<close>

definition triangle :: graph where
  "triangle = \<lparr>nodes = [''a'', ''b'', ''c''],
     edges = [(''a'', [''b'', ''c'']), (''b'', [''a'', ''c'']), (''c'', [''a'', ''b''])]\<rparr>"

definition diamond :: graph where
  "diamond = \<lparr>nodes = [''a'', ''b'', ''c'', ''d''],
     edges = [(''a'', [''b'', ''c'', ''d'']), (''b'', [''a'', ''c'']), (''c'', [''a'', ''b'', ''d'']),
       (''d'', [''a'', ''c''])]\<rparr>"

text \<open>
  C23: on well-formed graphs \<open>merge\<close> never trips an assertion, and its result is the well-formed
  union of the two graphs.
\<close>

theorem merge_is_union:
  assumes "wf_graph g" "wf_graph h"
  shows "\<exists>m. merge g h = Some m \<and> wf_graph m \<and> set (nodes m) = set (nodes g) \<union> set (nodes h) \<and>
    (\<forall>x. set (adj m x) = set (adj g x) \<union> set (adj h x))"
  by (rule merge_ok) fact+

theorem merge_is_union_witness:
  "\<exists>m. merge triangle diamond = Some m \<and> wf_graph m \<and>
     set (nodes m) = set (nodes triangle) \<union> set (nodes diamond) \<and>
     (\<forall>x. set (adj m x) = set (adj triangle x) \<union> set (adj diamond x))"
proof -
  have "wf_graph triangle" "wf_graph diamond" by code_simp+
  then show ?thesis by (rule merge_is_union)
qed

text \<open>
  \<open>copy\<close> returns a graph equal to the original, and \<open>operator==\<close> on well-formed graphs is
  equality of the node sets and of the adjacency maps.
\<close>

lemma copy_equals:
  assumes "wf_graph g" "wf_graph h"
  shows "copy g = Some g \<and> (graph_eq g h \<longleftrightarrow> g = h)"
  using assms by (simp add: copy_wf graph_eq_wf)

text \<open>
  C32: \<open>numOfEdge\<close> does not count edges: it adds the size of the adjacency map once per node, so
  on a well-formed graph with \<open>n\<close> nodes it returns \<open>n * n / 2\<close> whatever the edges are, and trips
  its assertion when \<open>n\<close> is odd.
\<close>

theorem numOfEdge_counts_nodes:
  assumes "wf_graph g"
  shows "numOfEdge g =
    (if even (length (nodes g)) then Some (length (nodes g) * length (nodes g) div 2) else None)"
  by (rule numOfEdge_wf) fact

theorem numOfEdge_counts_nodes_witness:
  "numOfEdge triangle = None \<and> numOfEdge diamond = Some 8"
proof -
  have wf: "wf_graph triangle" "wf_graph diamond" by code_simp+
  show ?thesis
    by (simp add: numOfEdge_counts_nodes[OF wf(1)] numOfEdge_counts_nodes[OF wf(2)])
       (simp add: triangle_def diamond_def)
qed

end
