(* ===== verification/BasicPaths.thy ===== *)
theory BasicPaths
  imports SimpleGraph "HOL-Library.Sublist"
begin

text \<open>
  Basic paths of a query graph: \<open>extendPath\<close> and \<open>findBasicCycleIntersection\<close> of
  src/src/include/binder/query/query_graph_simple.hpp. The code first removes, round by round,
  the nodes with fewer than two neighbours, and then walks from every node with more than two
  neighbours along nodes with exactly two neighbours up to the next branching node.

  The walk of \<open>extendPath\<close> is a recursion that need not end on an arbitrary graph
  (a cycle of degree-two nodes has no end); the lemmas show that it ends where the code starts it.
\<close>

section \<open>The operations\<close>

subsection \<open>Removing dangling nodes\<close>

text \<open>One round of the first loop: the nodes with fewer than two neighbours.\<close>

definition find_dangling :: "graph \<Rightarrow> node list option" where
  "find_dangling g =
     foldM (\<lambda>to_remove u. do { ns \<leftarrow> getNeighbors g u;
              Some (if length ns < 2 then set_insert u to_remove else to_remove) })
       [] (nodes g)"

lemma removeNode_nodes: "removeNode g u = Some g' \<Longrightarrow> nodes g' = set_erase u (nodes g)"
  by (auto simp: removeNode_def split: if_splits)

lemma length_set_erase: "length (set_erase u xs) \<le> length xs"
  by (simp add: set_erase_def)

lemma length_set_erase_less: "u \<in> set xs \<Longrightarrow> length (set_erase u xs) < length xs"
  by (induction xs) (auto simp: set_erase_def intro: le_imp_less_Suc)

lemma removeNodes_length:
  "foldM removeNode g us = Some g' \<Longrightarrow> length (nodes g') \<le> length (nodes g)"
proof (induction us arbitrary: g)
  case (Cons u us)
  then obtain g1 where g1: "removeNode g u = Some g1" "foldM removeNode g1 us = Some g'"
    by (auto simp: bind_eq_Some_conv)
  from Cons.IH[OF g1(2)] removeNode_nodes[OF g1(1)] length_set_erase[of u "nodes g"]
  show ?case by simp
qed simp

lemma find_dangling_set: "find_dangling g = Some us \<Longrightarrow> set us \<subseteq> set (nodes g)"
proof -
  assume "find_dangling g = Some us"
  moreover have "set us' \<subseteq> set us0 \<union> set xs"
    if "foldM (\<lambda>to_remove u. do { ns \<leftarrow> getNeighbors g u;
              Some (if length ns < 2 then set_insert u to_remove else to_remove) }) us0 xs = Some us'"
    for us0 us' xs
    using that by (induction xs arbitrary: us0) (fastforce simp: bind_eq_Some_conv split: if_splits)+
  ultimately show ?thesis by (fastforce simp: find_dangling_def)
qed

function prune :: "graph \<Rightarrow> graph option" where
  "prune g =
     do { to_remove \<leftarrow> find_dangling g;
          if length to_remove = 0 then Some g
          else do { g' \<leftarrow> foldM removeNode g to_remove; prune g' } }"
  by pat_completeness auto
termination
proof (relation "measure (\<lambda>g. length (nodes g))")
  fix g us g'
  assume us: "find_dangling g = Some us" "length us \<noteq> 0" and g': "foldM removeNode g us = Some g'"
  then obtain u us' where u: "us = u # us'" by (cases us) auto
  with g' obtain g1 where g1: "removeNode g u = Some g1" "foldM removeNode g1 us' = Some g'"
    by (auto simp: bind_eq_Some_conv)
  have "u \<in> set (nodes g)" using find_dangling_set[OF us(1)] u by auto
  then have "length (nodes g1) < length (nodes g)"
    by (simp add: removeNode_nodes[OF g1(1)] length_set_erase_less)
  with removeNodes_length[OF g1(2)] show "(g', g) \<in> measure (\<lambda>g. length (nodes g))" by simp
qed simp

declare prune.simps [simp del]

subsection \<open>Walking along degree-two nodes\<close>

text \<open>
  The neighbour to go on with: the last one in iteration order that is not the node the walk
  comes from (the empty string, \<open>Node next;\<close>, when there is none).
\<close>

definition next_node :: "node \<Rightarrow> node list \<Rightarrow> node" where
  "next_node prev ns = foldl (\<lambda>nxt nbr. if nbr = prev then nxt else nbr) '''' ns"

text \<open>None: an assertion fails, the path has fewer than two nodes, or the walk never ends.\<close>

partial_function (option) extendPath :: "path \<Rightarrow> graph \<Rightarrow> node list \<Rightarrow> path option" where
  "extendPath p g visited =
     (if length p < 2 then None
      else Option.bind (getNeighbors g (last p)) (\<lambda>ns.
        if length ns \<noteq> 2 then
          Some (if last p \<in> set visited \<or> last p = p ! 0 then [] else p)
        else extendPath (p @ [next_node (p ! (length p - 2)) ns]) g visited))"

declare extendPath.simps [code]

subsection \<open>All basic paths\<close>

text \<open>The paths from one start node, in the order of its neighbours.\<close>

definition paths_from :: "graph \<Rightarrow> node list \<Rightarrow> node \<Rightarrow> node list \<Rightarrow> path list \<Rightarrow> path list option" where
  "paths_from g visited start nbrs paths =
     foldM (\<lambda>paths nbr. do { p \<leftarrow> extendPath [start, nbr] g visited;
              Some (if length p > 0 then paths @ [p] else paths) })
       paths nbrs"

definition findBasicCycleIntersection :: "graph \<Rightarrow> path list option" where
  "findBasicCycleIntersection g0 =
     do { g \<leftarrow> copy g0;
          g \<leftarrow> prune g;
          (paths, visited) \<leftarrow> foldM (\<lambda>(paths, visited) start.
             do { ns \<leftarrow> getNeighbors g start;
                  if length ns \<le> 2 then Some (paths, visited)
                  else do { paths \<leftarrow> paths_from g visited start ns paths;
                            Some (paths, set_insert start visited) } })
            ([], []) (nodes g);
          Some paths }"

section \<open>The two-core\<close>

text \<open>
  A set of nodes is dense if each of its nodes has two neighbours in the set. The two-core is
  the largest dense set.
\<close>

definition dense :: "graph \<Rightarrow> node set \<Rightarrow> bool" where
  "dense g S \<longleftrightarrow> S \<subseteq> set (nodes g) \<and> (\<forall>u\<in>S. 2 \<le> card (set (adj g u) \<inter> S))"

definition induced :: "graph \<Rightarrow> graph \<Rightarrow> bool" where
  "induced g c \<longleftrightarrow> set (nodes c) \<subseteq> set (nodes g) \<and>
     (\<forall>u\<in>set (nodes c). set (adj c u) = set (adj g u) \<inter> set (nodes c))"

lemma card_adj: "wf_graph g \<Longrightarrow> card (set (adj g u)) = length (adj g u)"
  by (simp add: length_oset)

lemma find_dangling_ok:
  assumes "wf_graph g"
  shows "\<exists>us. find_dangling g = Some us \<and>
    set us = {u \<in> set (nodes g). length (adj g u) < 2}"
proof -
  let ?body = "\<lambda>to_remove u. do { ns \<leftarrow> getNeighbors g u;
              Some (if length ns < 2 then set_insert u to_remove else to_remove) }"
  let ?I = "\<lambda>don us. set us = {u \<in> set don. length (adj g u) < 2}"
  have "\<exists>us. foldM ?body [] (nodes g) = Some us \<and> ?I (nodes g) us"
  proof (rule foldM_rule[where I = ?I])
    fix don u rest us
    assume "nodes g = don @ u # rest" and I: "?I don us"
    then have "getNeighbors g u = Some (adj g u)" using assms by (intro getNeighbors_node) auto
    then show "\<exists>s'. ?body us u = Some s' \<and> ?I (don @ [u]) s'" using I by auto
  qed simp
  then show ?thesis by (simp add: find_dangling_def)
qed

text \<open>Removing a set of nodes leaves the subgraph induced by the other nodes.\<close>

lemma removeNodes_ok:
  assumes "wf_graph g" "loopfree g"
  shows "\<exists>g'. foldM removeNode g us = Some g' \<and> wf_graph g' \<and> loopfree g' \<and>
    set (nodes g') = set (nodes g) - set us \<and> induced g g'"
  using assms
proof (induction us arbitrary: g)
  case Nil
  then show ?case by (auto simp: induced_def dest: adj_node')
next
  case (Cons u us)
  have "u \<notin> set (adj g u)" using Cons.prems loopfree_iff by blast
  from removeNode_ok[OF Cons.prems(1) this] obtain g1 where g1: "removeNode g u = Some g1"
    "wf_graph g1" "set (nodes g1) = set (nodes g) - {u}"
    "\<And>x. set (adj g1 x) = (if x = u then {} else set (adj g x) - {u})" by auto
  have "loopfree g1" using g1(2,4) Cons.prems loopfree_iff by auto
  from Cons.IH[OF g1(2) this] obtain g2 where g2: "foldM removeNode g1 us = Some g2"
    "wf_graph g2" "loopfree g2" "set (nodes g2) = set (nodes g1) - set us" "induced g1 g2" by blast
  have "induced g g2" using g2(4,5) g1(3,4) by (auto simp: induced_def)
  with g1 g2 show ?case by auto
qed

lemma induced_trans:
  assumes "induced g h" "induced h c"
  shows "induced g c"
  unfolding induced_def
proof (intro conjI ballI)
  show sub: "set (nodes c) \<subseteq> set (nodes g)" using assms by (auto simp: induced_def)
  fix u assume u: "u \<in> set (nodes c)"
  then have "set (adj c u) = set (adj h u) \<inter> set (nodes c)" using assms(2) by (simp add: induced_def)
  moreover have "set (adj h u) = set (adj g u) \<inter> set (nodes h)"
    using assms u by (auto simp: induced_def)
  ultimately show "set (adj c u) = set (adj g u) \<inter> set (nodes c)"
    using assms(2) by (auto simp: induced_def)
qed

lemma dense_survives:
  assumes "wf_graph g" "dense g S"
  shows "S \<inter> {u \<in> set (nodes g). length (adj g u) < 2} = {}"
proof -
  have "2 \<le> length (adj g u)" if "u \<in> S" for u
  proof -
    have "card (set (adj g u) \<inter> S) \<le> card (set (adj g u))" by (intro card_mono) auto
    moreover have "2 \<le> card (set (adj g u) \<inter> S)" using that assms(2) by (simp add: dense_def)
    ultimately show ?thesis using card_adj[OF assms(1)] by simp
  qed
  then show ?thesis by fastforce
qed

lemma dense_induced:
  assumes "induced g h" "dense g S" "S \<subseteq> set (nodes h)"
  shows "dense h S"
proof -
  have "set (adj h u) \<inter> S = set (adj g u) \<inter> S" if "u \<in> S" for u
    using assms(1,3) that by (auto simp: induced_def)
  with assms(2,3) show ?thesis by (simp add: dense_def)
qed

text \<open>
  The pruning loop returns, and what it returns is the subgraph induced by the two-core: every
  node of it has two neighbours left, and it contains every dense set of nodes.
\<close>

lemma prune_ok:
  assumes "wf_graph g" "loopfree g"
  shows "\<exists>c. prune g = Some c \<and> wf_graph c \<and> loopfree c \<and> induced g c \<and>
    (\<forall>u\<in>set (nodes c). 2 \<le> length (adj c u)) \<and> (\<forall>S. dense g S \<longrightarrow> S \<subseteq> set (nodes c))"
  using assms
proof (induction "length (nodes g)" arbitrary: g rule: less_induct)
  case less
  from find_dangling_ok[OF less.prems(1)] obtain us where us: "find_dangling g = Some us"
    "set us = {u \<in> set (nodes g). length (adj g u) < 2}" by blast
  show ?case
  proof (cases "us = []")
    case True
    then have "\<forall>u\<in>set (nodes g). 2 \<le> length (adj g u)" using us(2) by (auto simp: not_less)
    moreover have "induced g g" by (auto simp: induced_def dest: adj_node'[OF less.prems(1)])
    moreover have "prune g = Some g" using us(1) True by (subst prune.simps) simp
    ultimately show ?thesis using less.prems by (auto simp: dense_def)
  next
    case False
    from removeNodes_ok[OF less.prems, of us] obtain g' where g': "foldM removeNode g us = Some g'"
      "wf_graph g'" "loopfree g'" "set (nodes g') = set (nodes g) - set us" "induced g g'" by blast
    have "set (nodes g') \<subset> set (nodes g)" using g'(4) us(2) False by (cases us) auto
    then have "length (nodes g') < length (nodes g)"
      using less.prems g'(2) by (simp add: length_oset wf_graph_nodes psubset_card_mono)
    from less.hyps[OF this g'(2,3)] obtain c where c: "prune g' = Some c" "wf_graph c" "loopfree c"
      "induced g' c" "\<forall>u\<in>set (nodes c). 2 \<le> length (adj c u)"
      "\<And>S. dense g' S \<Longrightarrow> S \<subseteq> set (nodes c)" by blast
    have "S \<subseteq> set (nodes c)" if S: "dense g S" for S
    proof (rule c(6), rule dense_induced[OF g'(5) S])
      show "S \<subseteq> set (nodes g')"
        using dense_survives[OF less.prems(1) S] us(2) S g'(4) by (auto simp: dense_def)
    qed
    moreover have "prune g = Some c" using us(1) False g'(1) c(1) by (subst prune.simps) simp
    ultimately show ?thesis using c induced_trans[OF g'(5) c(4)] by blast
  qed
qed


section \<open>Chains\<close>

text \<open>
  A chain over a neighbour function: a walk of at least two nodes that never turns back, whose
  inner nodes have exactly two neighbours, and that meets no node twice (its last node may be its
  first).
\<close>

definition chain :: "(node \<Rightarrow> node list) \<Rightarrow> path \<Rightarrow> bool" where
  "chain nb p \<longleftrightarrow> 2 \<le> length p \<and>
     (\<forall>i < length p - 1. p ! Suc i \<in> set (nb (p ! i))) \<and>
     (\<forall>i < length p - 1. 0 < i \<longrightarrow> length (nb (p ! i)) = 2 \<and> p ! (i - 1) \<noteq> p ! Suc i) \<and>
     distinct (butlast p) \<and> distinct (tl p)"

lemma chainD:
  assumes "chain nb p"
  shows "2 \<le> length p" "p \<noteq> []" "distinct (butlast p)" "distinct (tl p)"
    and "Suc i < length p \<Longrightarrow> p ! Suc i \<in> set (nb (p ! i))"
    and "0 < i \<Longrightarrow> Suc i < length p \<Longrightarrow> length (nb (p ! i)) = 2"
    and "0 < i \<Longrightarrow> Suc i < length p \<Longrightarrow> p ! (i - 1) \<noteq> p ! Suc i"
  using assms by (auto simp: chain_def)

lemma chain_distinct:
  assumes "chain nb p" "hd p \<noteq> last p"
  shows "distinct p"
proof -
  obtain a q where "p = a # q" "q \<noteq> []" using chainD(1)[OF assms(1)]
    by (cases p; cases "tl p") auto
  then obtain m b where "p = a # m @ [b]" by (cases q rule: rev_exhaust) auto
  with chainD(3,4)[OF assms(1)] assms(2) show ?thesis by (auto simp: butlast_append)
qed

text \<open>
  The contract the walk relies on: neighbour sets without repetitions, symmetric, without self
  loops.
\<close>

locale adjacency =
  fixes inv :: "'g \<Rightarrow> bool" and nbrs :: "'g \<Rightarrow> node \<Rightarrow> node list"
  assumes nbrs_distinct: "inv g \<Longrightarrow> distinct (nbrs g u)"
    and nbrs_sym: "inv g \<Longrightarrow> v \<in> set (nbrs g u) \<Longrightarrow> u \<in> set (nbrs g v)"
    and nbrs_irrefl: "inv g \<Longrightarrow> u \<notin> set (nbrs g u)"
begin

lemma two_nbrs:
  assumes "inv g" "length (nbrs g u) = 2" "a \<in> set (nbrs g u)" "b \<in> set (nbrs g u)" "a \<noteq> b"
  shows "set (nbrs g u) = {a, b}"
proof -
  have "card (set (nbrs g u)) = 2" using assms(1,2) nbrs_distinct distinct_card by metis
  moreover have "{a, b} \<subseteq> set (nbrs g u)" "card {a, b} = 2" using assms(3-5) by auto
  ultimately show ?thesis by (metis List.finite_set card_subset_eq)
qed

lemma inner_nbrs:
  assumes "inv g" "chain (nbrs g) p" "0 < i" "Suc i < length p"
  shows "set (nbrs g (p ! i)) = {p ! (i - 1), p ! Suc i}"
proof (rule two_nbrs[OF assms(1)])
  show "length (nbrs g (p ! i)) = 2" by (rule chainD(6)[OF assms(2-4)])
  show "p ! Suc i \<in> set (nbrs g (p ! i))" by (rule chainD(5)[OF assms(2,4)])
  show "p ! (i - 1) \<noteq> p ! Suc i" by (rule chainD(7)[OF assms(2-4)])
  have "p ! Suc (i - 1) \<in> set (nbrs g (p ! (i - 1)))"
    by (rule chainD(5)[OF assms(2)]) (use assms(3,4) in simp)
  from nbrs_sym[OF assms(1) this] show "p ! (i - 1) \<in> set (nbrs g (p ! i))"
    using assms(3) by simp
qed

text \<open>
  A chain that ends in a node with two neighbours and did not come back to its start can be
  extended: the next node is new, or it is the start.
\<close>

lemma chain_extend:
  assumes g: "inv g" and p: "chain (nbrs g) p" and ne: "hd p \<noteq> last p"
    and two: "length (nbrs g (last p)) = 2"
    and x: "x \<in> set (nbrs g (last p))" "x \<noteq> p ! (length p - 2)"
  shows "chain (nbrs g) (p @ [x])"
proof -
  let ?n = "length p"
  have n: "2 \<le> ?n" and p0: "p \<noteq> []" by (rule chainD[OF p])+
  have dist: "distinct p" by (rule chain_distinct[OF p ne])
  have last: "last p = p ! (?n - 1)" using p0 by (simp add: last_conv_nth)
  have "x \<notin> set (tl p)"
  proof
    assume "x \<in> set (tl p)"
    then obtain i where i: "i < ?n - 1" "x = p ! Suc i"
      by (auto simp: in_set_conv_nth nth_tl)
    have "x \<noteq> last p" using x(1) nbrs_irrefl[OF g] by auto
    then have "Suc i \<noteq> ?n - 1" using i last by auto
    then have i': "Suc (Suc i) < ?n" using i(1) by linarith
    have "last p \<in> set (nbrs g x)" by (rule nbrs_sym[OF g x(1)])
    then have "last p \<in> {p ! i, p ! Suc (Suc i)}"
      using inner_nbrs[OF g p _ i'] i(2) by simp
    moreover have "p ! (?n - 1) \<noteq> p ! i" using dist i' n by (simp add: nth_eq_iff_index_eq)
    ultimately have "p ! (?n - 1) = p ! Suc (Suc i)" using last by auto
    then have "?n - 1 = Suc (Suc i)" using dist i' n by (simp add: nth_eq_iff_index_eq)
    then have "?n - 2 = Suc i" by linarith
    with x(2) i(2) show False by simp
  qed
  moreover have "(p @ [x]) ! (i - 1) \<noteq> (p @ [x]) ! Suc i \<and> length (nbrs g ((p @ [x]) ! i)) = 2"
    if "0 < i" "i < ?n" for i
  proof (cases "Suc i < ?n")
    case True
    then have "i - 1 < ?n" by simp
    with True that chainD(6,7)[OF p, of i] show ?thesis by (simp add: nth_append)
  next
    case False
    with that have "i = ?n - 1" by simp
    with two x(2) n last show ?thesis by (auto simp: nth_append numeral_2_eq_2)
  qed
  moreover have "(p @ [x]) ! Suc i \<in> set (nbrs g ((p @ [x]) ! i))" if "i < ?n" for i
  proof (cases "Suc i < ?n")
    case True
    with that chainD(5)[OF p, of i] show ?thesis by (simp add: nth_append)
  next
    case False
    with that have e: "Suc i = ?n" by simp
    moreover have "last p = p ! i" using last by (simp flip: e)
    ultimately show ?thesis using x(1) that by (simp add: nth_append)
  qed
  ultimately show ?thesis
    using n dist p0 by (auto simp: chain_def distinct_tl)
qed

text \<open>A chain is determined by its first two nodes and where its inner nodes stop.\<close>

lemma chain_agree:
  assumes g: "inv g" and p: "chain (nbrs g) p" and q: "chain (nbrs g) q"
    and start: "p ! 0 = q ! 0" "p ! 1 = q ! 1"
  shows "i < length p \<Longrightarrow> i < length q \<Longrightarrow> p ! i = q ! i"
proof (induction i rule: less_induct)
  case (less i)
  show ?case
  proof (cases "i < 2")
    case True
    with start show ?thesis by (auto simp: less_2_cases_iff)
  next
    case False
    then obtain j where j: "i = Suc (Suc j)" by (metis add_2_eq_Suc le_Suc_ex not_less)
    have "set (nbrs g (p ! Suc j)) = {p ! j, p ! i}" "set (nbrs g (q ! Suc j)) = {q ! j, q ! i}"
      using inner_nbrs[OF g p, of "Suc j"] inner_nbrs[OF g q, of "Suc j"] less.prems j by auto
    moreover have "p ! Suc j = q ! Suc j" "p ! j = q ! j" using less j by auto
    moreover have "p ! j \<noteq> p ! i" "q ! j \<noteq> q ! i"
      using chainD(7)[OF p, of "Suc j"] chainD(7)[OF q, of "Suc j"] less.prems j by auto
    ultimately show ?thesis by (metis doubleton_eq_iff)
  qed
qed

lemma chain_unique:
  assumes g: "inv g" and p: "chain (nbrs g) p" and q: "chain (nbrs g) q"
    and start: "p ! 0 = q ! 0" "p ! 1 = q ! 1"
    and stop: "length (nbrs g (last p)) \<noteq> 2" "length (nbrs g (last q)) \<noteq> 2"
  shows "p = q"
proof -
  have "length p = length q"
  proof (rule ccontr)
    assume ne: "length p \<noteq> length q"
    have short: False
      if "chain (nbrs g) a" "chain (nbrs g) b" "a ! 0 = b ! 0" "a ! 1 = b ! 1"
        "length (nbrs g (last a)) \<noteq> 2" "length a < length b" for a b
    proof -
      have a: "2 \<le> length a" "a \<noteq> []" by (rule chainD[OF that(1)])+
      have "last a = b ! (length a - 1)"
        using chain_agree[OF g that(1-4), of "length a - 1"] that(6) a by (simp add: last_conv_nth)
      moreover have "length (nbrs g (b ! (length a - 1))) = 2"
        using chainD(6)[OF that(2), of "length a - 1"] that(6) a by simp
      ultimately show False using that(5) by simp
    qed
    from ne show False
      using short[OF p q start stop(1)] short[OF q p start[symmetric] stop(2)] by linarith
  qed
  then show ?thesis using chain_agree[OF g p q start] by (simp add: nth_equalityI)
qed

lemma chain_rev:
  assumes g: "inv g" and p: "chain (nbrs g) p"
  shows "chain (nbrs g) (rev p)"
proof -
  let ?n = "length p"
  have n: "2 \<le> ?n" by (rule chainD[OF p])
  have r: "rev p ! i = p ! (?n - Suc i)" if "i < ?n" for i using that by (simp add: rev_nth)
  have step: "rev p ! Suc i \<in> set (nbrs g (rev p ! i))" if "i < ?n - 1" for i
  proof -
    define j where "j = ?n - Suc (Suc i)"
    then have j: "?n - Suc i = Suc j" "Suc j < ?n" using that by auto
    have "rev p ! Suc i = p ! j" "rev p ! i = p ! Suc j" using that j by (simp_all add: r j_def)
    with nbrs_sym[OF g chainD(5)[OF p j(2)]] show ?thesis by simp
  qed
  have inner: "length (nbrs g (rev p ! i)) = 2 \<and> rev p ! (i - 1) \<noteq> rev p ! Suc i"
    if "i < ?n - 1" "0 < i" for i
  proof -
    define j where "j = ?n - Suc i"
    then have j: "0 < j" "Suc j < ?n" "?n - Suc (i - 1) = Suc j" "?n - Suc (Suc i) = j - 1"
      using that by auto
    have "rev p ! i = p ! j" "rev p ! (i - 1) = p ! Suc j" "rev p ! Suc i = p ! (j - 1)"
      using that j by (simp_all add: r j_def)
    with chainD(6,7)[OF p j(1,2)] show ?thesis by simp
  qed
  have "butlast (rev p) = rev (tl p)" "tl (rev p) = rev (butlast p)"
    using butlast_rev[of p] butlast_rev[of "rev p"] by simp_all
  with step inner n chainD(3,4)[OF p] show ?thesis by (simp add: chain_def)
qed

end

interpretation sg: adjacency "\<lambda>g. wf_graph g \<and> loopfree g" adj
  by unfold_locales (auto simp: oset_distinct adj_sym loopfree_iff)


section \<open>The walk\<close>

lemma next_node_other:
  assumes "distinct ns" "length ns = 2" "prev \<in> set ns"
  shows "next_node prev ns \<in> set ns \<and> next_node prev ns \<noteq> prev"
proof -
  obtain a b where "ns = [a, b]" using assms(2)
    by (metis (no_types) One_nat_def Suc_1 length_0_conv length_Suc_conv)
  with assms(1,3) show ?thesis by (auto simp: next_node_def)
qed

lemma chain_nodes:
  assumes "wf_graph g" "chain (adj g) p"
  shows "set p \<subseteq> set (nodes g)"
proof
  fix x assume "x \<in> set p"
  then obtain i where i: "i < length p" "x = p ! i" by (auto simp: in_set_conv_nth)
  show "x \<in> set (nodes g)"
  proof (cases "Suc i < length p")
    case True
    with chainD(5)[OF assms(2)] i show ?thesis by (metis adj_node[OF assms(1)])
  next
    case False
    with i chainD(1)[OF assms(2)] have "Suc (i - 1) = i" "Suc (i - 1) < length p" by auto
    with chainD(5)[OF assms(2), of "i - 1"] i show ?thesis by (metis adj_node'[OF assms(1)])
  qed
qed

lemma chain_length:
  assumes "wf_graph g" "chain (adj g) p"
  shows "length p \<le> length (nodes g) + 1"
proof -
  have "set (tl p) \<subseteq> set (nodes g)"
    using chain_nodes[OF assms] by (cases p) auto
  then have "card (set (tl p)) \<le> card (set (nodes g))" by (intro card_mono) auto
  then show ?thesis
    using chainD(4)[OF assms(2)] assms(1) by (simp add: distinct_card length_oset wf_graph_nodes)
qed

text \<open>
  From a chain that starts at a node that has not exactly two neighbours, \<open>extendPath\<close> returns:
  it walks the chain to its end and then keeps or drops it.
\<close>

lemma extendPath_ok:
  assumes "wf_graph g" "loopfree g" "chain (adj g) p" "length (adj g (hd p)) \<noteq> 2"
  shows "\<exists>q. prefix p q \<and> chain (adj g) q \<and> length (adj g (last q)) \<noteq> 2 \<and>
    extendPath p g visited = Some (if last q \<in> set visited \<or> last q = hd q then [] else q)"
  using assms(3,4)
proof (induction "length (nodes g) + 1 - length p" arbitrary: p rule: less_induct)
  case less
  let ?e = "last p"
  have p: "2 \<le> length p" "p \<noteq> []" by (rule chainD[OF less.prems(1)])+
  have "?e \<in> set (nodes g)" using chain_nodes[OF assms(1) less.prems(1)] p(2) by auto
  then have nb: "getNeighbors g ?e = Some (adj g ?e)" by (rule getNeighbors_node[OF assms(1)])
  show ?case
  proof (cases "length (adj g ?e) = 2")
    case False
    then have "extendPath p g visited = Some (if ?e \<in> set visited \<or> ?e = hd p then [] else p)"
      using nb p by (subst extendPath.simps) (simp add: hd_conv_nth)
    with False less.prems(1) show ?thesis by blast
  next
    case True
    let ?prev = "p ! (length p - 2)"
    let ?x = "next_node ?prev (adj g ?e)"
    have "length p - 1 = Suc (length p - 2)" using p(1) by linarith
    then have e: "?e = p ! Suc (length p - 2)" using p(2) by (simp add: last_conv_nth)
    have "?e \<in> set (adj g ?prev)"
      unfolding e by (rule chainD(5)[OF less.prems(1)]) (use p in linarith)
    then have "?prev \<in> set (adj g ?e)" by (rule adj_sym[OF assms(1)])
    then have x: "?x \<in> set (adj g ?e)" "?x \<noteq> ?prev"
      using next_node_other[OF _ True] assms(1) by (auto simp: oset_distinct)
    have "hd p \<noteq> ?e" using True less.prems(2) by auto
    with assms(1,2) have c: "chain (adj g) (p @ [?x])"
      using sg.chain_extend[OF _ less.prems(1) _ True x] by simp
    have "length (nodes g) + 1 - length (p @ [?x]) < length (nodes g) + 1 - length p"
      using chain_length[OF assms(1) c] by simp
    moreover have "hd (p @ [?x]) = hd p" using p by simp
    ultimately obtain q where "prefix (p @ [?x]) q" "chain (adj g) q" "length (adj g (last q)) \<noteq> 2"
      "extendPath (p @ [?x]) g visited = Some (if last q \<in> set visited \<or> last q = hd q then [] else q)"
      using less.hyps[OF _ c] less.prems(2) by auto
    moreover have "extendPath p g visited = extendPath (p @ [?x]) g visited"
      using nb p True by (subst extendPath.simps) simp
    ultimately show ?thesis by (metis append_prefixD)
  qed
qed

section \<open>The basic paths\<close>

text \<open>
  A basic path of a graph: a chain between two different branching nodes.
\<close>

definition basic_path :: "graph \<Rightarrow> path \<Rightarrow> bool" where
  "basic_path g p \<longleftrightarrow> chain (adj g) p \<and> 2 < length (adj g (hd p)) \<and> 2 < length (adj g (last p)) \<and>
     hd p \<noteq> last p"

lemma basic_path_rev:
  assumes "wf_graph g" "loopfree g" "basic_path g p"
  shows "basic_path g (rev p)"
  using assms sg.chain_rev[of g p] chainD(2)[of "adj g" p]
  by (auto simp: basic_path_def hd_rev last_rev)

lemma chain_pair: "v \<in> set (adj g u) \<Longrightarrow> chain (adj g) [u, v]"
  by (auto simp: chain_def)

lemma extendPath_basic:
  assumes "wf_graph g" "loopfree g" "\<forall>u\<in>set (nodes g). 2 \<le> length (adj g u)"
    and "v \<in> set (adj g u)" "2 < length (adj g u)"
  shows "\<exists>r. extendPath [u, v] g visited = Some r \<and>
    {r} - {[]} = {q. basic_path g q \<and> q ! 0 = u \<and> q ! 1 = v \<and> last q \<notin> set visited}"
proof -
  have c: "chain (adj g) [u, v]" by (rule chain_pair) fact
  from extendPath_ok[OF assms(1,2) c, of visited] assms(5) obtain q where q: "prefix [u, v] q"
    "chain (adj g) q" "length (adj g (last q)) \<noteq> 2"
    "extendPath [u, v] g visited = Some (if last q \<in> set visited \<or> last q = hd q then [] else q)"
    by auto
  have uv: "q ! 0 = u" "q ! 1 = v" "hd q = u" using q(1) by (auto simp: prefix_def)
  have "last q \<in> set (nodes g)" using chain_nodes[OF assms(1) q(2)] chainD(2)[OF q(2)] by auto
  then have "2 < length (adj g (last q))" using assms(3) q(3) by force
  then have bq: "basic_path g q \<longleftrightarrow> last q \<noteq> u" using q(2) assms(5) uv by (auto simp: basic_path_def)
  have uniq: "q' = q" if "basic_path g q'" "q' ! 0 = u" "q' ! 1 = v" for q'
  proof (rule sg.chain_unique)
    show "wf_graph g \<and> loopfree g" using assms by simp
  qed (use that q uv in \<open>auto simp: basic_path_def\<close>)
  have q0: "q \<noteq> []" by (rule chainD(2)[OF q(2)])
  show ?thesis
  proof (cases "last q \<in> set visited \<or> last q = u")
    case True
    then have "{q. basic_path g q \<and> q ! 0 = u \<and> q ! 1 = v \<and> last q \<notin> set visited} = {}"
      using uniq bq by blast
    with True q(4) uv(3) show ?thesis by simp
  next
    case False
    then have "{q. basic_path g q \<and> q ! 0 = u \<and> q ! 1 = v \<and> last q \<notin> set visited} = {q}"
      using uniq bq uv(1,2) by blast
    with False q(4) uv(3) q0 show ?thesis by auto
  qed
qed


lemma paths_from_ok:
  assumes g: "wf_graph g" "loopfree g" "\<forall>u\<in>set (nodes g). 2 \<le> length (adj g u)"
    and u: "2 < length (adj g u)" and vs: "set vs \<subseteq> set (adj g u)" "distinct vs"
  shows "\<exists>rs. paths_from g visited u vs ps = Some (ps @ rs) \<and> distinct rs \<and>
    set rs = {q. basic_path g q \<and> q ! 0 = u \<and> q ! 1 \<in> set vs \<and> last q \<notin> set visited}"
  using vs
proof (induction vs arbitrary: ps)
  case Nil
  then show ?case by (simp add: paths_from_def)
next
  case (Cons v vs)
  from Cons.prems have v: "v \<in> set (adj g u)" by simp
  from extendPath_basic[OF g v u, of visited] obtain r where
    r: "extendPath [u, v] g visited = Some r"
    "{r} - {[]} = {q. basic_path g q \<and> q ! 0 = u \<and> q ! 1 = v \<and> last q \<notin> set visited}" by blast
  let ?r = "if length r > 0 then [r] else []"
  from Cons.IH[of "ps @ ?r"] Cons.prems obtain rs where
    rs: "paths_from g visited u vs (ps @ ?r) = Some ((ps @ ?r) @ rs)" "distinct rs"
    "set rs = {q. basic_path g q \<and> q ! 0 = u \<and> q ! 1 \<in> set vs \<and> last q \<notin> set visited}" by auto
  have r': "set ?r = {q. basic_path g q \<and> q ! 0 = u \<and> q ! 1 = v \<and> last q \<notin> set visited}"
    using r(2) by auto
  have "paths_from g visited u (v # vs) ps = Some (ps @ (?r @ rs))"
    using r(1) rs(1) by (cases "r = []") (simp_all add: paths_from_def)
  moreover have "set ?r \<inter> set rs = {}" using Cons.prems(2) unfolding r' rs(3) by auto
  then have "distinct (?r @ rs)" using rs(2) by simp
  moreover have "set (?r @ rs) =
      {q. basic_path g q \<and> q ! 0 = u \<and> q ! 1 \<in> set (v # vs) \<and> last q \<notin> set visited}"
    unfolding set_append r' rs(3) by auto
  ultimately show ?case by blast
qed

lemma basic_path_hd:
  assumes "basic_path g q"
  shows "q \<noteq> []" "q ! 0 = hd q" "q ! 1 \<in> set (adj g (hd q))"
proof -
  have c: "chain (adj g) q" using assms by (simp add: basic_path_def)
  show "q \<noteq> []" by (rule chainD(2)[OF c])
  then show "q ! 0 = hd q" by (simp add: hd_conv_nth)
  with chainD(5)[OF c, of 0] chainD(1)[OF c] show "q ! 1 \<in> set (adj g (hd q))" by simp
qed

lemma basic_path_last:
  assumes "wf_graph g" "basic_path g q"
  shows "last q \<in> set (nodes g)" "2 < length (adj g (last q))"
  using chain_nodes[OF assms(1), of q] assms(2) basic_path_hd(1)[OF assms(2)]
  by (auto simp: basic_path_def)

lemma collect_basic_paths:
  assumes g: "wf_graph g" "loopfree g" "\<forall>u\<in>set (nodes g). 2 \<le> length (adj g u)"
  shows "\<exists>ps visited.
    foldM (\<lambda>(paths, visited) start.
       do { ns \<leftarrow> getNeighbors g start;
            if length ns \<le> 2 then Some (paths, visited)
            else do { paths \<leftarrow> paths_from g visited start ns paths;
                      Some (paths, set_insert start visited) } })
      ([], []) (nodes g) = Some (ps, visited) \<and>
    distinct ps \<and> set ps = {q. basic_path g q \<and> hd q < last q}"
proof -
  let ?body = "\<lambda>(paths, visited) start.
       do { ns \<leftarrow> getNeighbors g start;
            if length ns \<le> 2 then Some (paths, visited)
            else do { paths \<leftarrow> paths_from g visited start ns paths;
                      Some (paths, set_insert start visited) } }"
  let ?I = "\<lambda>don (ps, visited). set visited = {u \<in> set don. 2 < length (adj g u)} \<and> distinct ps \<and>
      set ps = {q. basic_path g q \<and> hd q \<in> set don \<and> hd q < last q}"
  have "\<exists>s. foldM ?body ([], []) (nodes g) = Some s \<and> ?I (nodes g) s"
  proof (rule foldM_rule[where I = ?I])
    fix don u rest s
    assume us: "nodes g = don @ u # rest" and I: "?I don s"
    obtain ps visited where s: "s = (ps, visited)" by (cases s)
    have below: "\<And>x. x \<in> set (nodes g) \<Longrightarrow> x \<in> set don \<longleftrightarrow> x < u" and u: "u \<notin> set don"
      using wf_graph_nodes[OF g(1)] unfolding us oset_def sorted_wrt_append by auto
    have "u \<in> set (nodes g)" using us by simp
    then have nb: "getNeighbors g u = Some (adj g u)" by (rule getNeighbors_node[OF g(1)])
    show "\<exists>s'. ?body s u = Some s' \<and> ?I (don @ [u]) s'"
    proof (cases "2 < length (adj g u)")
      case False
      then have "hd q \<noteq> u" if "basic_path g q" for q using that by (auto simp: basic_path_def)
      with False I s nb show ?thesis by auto
    next
      case True
      have "distinct (adj g u)" using g(1) by (simp add: oset_distinct)
      from paths_from_ok[OF g True order.refl this, of visited ps] obtain rs where
        rs: "paths_from g visited u (adj g u) ps = Some (ps @ rs)" "distinct rs"
        "set rs = {q. basic_path g q \<and> q ! 0 = u \<and> q ! 1 \<in> set (adj g u) \<and> last q \<notin> set visited}"
        by blast
      have "last q \<notin> set visited \<longleftrightarrow> u < last q" if "basic_path g q" "hd q = u" for q
        using below[OF basic_path_last(1)[OF g(1) that(1)]] basic_path_last(2)[OF g(1) that(1)] that I s
        by (auto simp: basic_path_def)
      then have rs': "set rs = {q. basic_path g q \<and> hd q = u \<and> hd q < last q}"
        unfolding rs(3) using basic_path_hd(2,3)[of g] by auto
      have "set ps \<inter> set rs = {}" using I s u rs' by auto
      then have "distinct (ps @ rs)" using I s rs(2) by simp
      moreover have "set (ps @ rs) = {q. basic_path g q \<and> hd q \<in> set (don @ [u]) \<and> hd q < last q}"
        using I s rs' by auto
      ultimately have "?I (don @ [u]) (ps @ rs, set_insert u visited)" using I s True by auto
      with rs(1) nb s True show ?thesis by simp
    qed
  qed simp
  then obtain ps visited where "foldM ?body ([], []) (nodes g) = Some (ps, visited)"
    "?I (nodes g) (ps, visited)" by auto
  moreover have "hd q \<in> set (nodes g)" if "basic_path g q" for q
    using that chain_nodes[OF g(1), of q] basic_path_hd(1)[OF that] by (auto simp: basic_path_def)
  ultimately show ?thesis by auto
qed

lemma findBasicCycleIntersection_ok:
  assumes "wf_graph g" "loopfree g"
  shows "\<exists>c ps. prune g = Some c \<and> findBasicCycleIntersection g = Some ps \<and> distinct ps \<and>
    set ps = {q. basic_path c q \<and> hd q < last q}"
proof -
  from prune_ok[OF assms] obtain c where c: "prune g = Some c" "wf_graph c" "loopfree c"
    "\<forall>u\<in>set (nodes c). 2 \<le> length (adj c u)" by blast
  from collect_basic_paths[OF c(2-4)] c(1) show ?thesis
    by (auto simp: findBasicCycleIntersection_def copy_wf[OF assms(1)])
qed

section \<open>Properties\<close>

text \<open>
  C5: the pruning loop at the start of \<open>findBasicCycleIntersection\<close> returns on every
  loop-free query graph, and leaves the 2-core: the induced subgraph in which every node has at
  least two neighbours and which contains every node set with that property.
\<close>

theorem prune_is_two_core:
  assumes "wf_graph g" "loopfree g"
  shows "\<exists>c. prune g = Some c \<and> wf_graph c \<and> induced g c \<and>
    (\<forall>u\<in>set (nodes c). 2 \<le> length (adj c u)) \<and> (\<forall>S. dense g S \<longrightarrow> S \<subseteq> set (nodes c))"
  using prune_ok[OF assms] by blast

theorem prune_is_two_core_witness:
  "\<exists>c. prune diamond = Some c \<and> induced diamond c \<and> set (nodes diamond) \<subseteq> set (nodes c)"
proof -
  have "wf_graph diamond" "loopfree diamond" by code_simp+
  from prune_is_two_core[OF this] obtain c where "prune diamond = Some c" "induced diamond c"
    "\<forall>S. dense diamond S \<longrightarrow> S \<subseteq> set (nodes c)" by blast
  moreover have "dense diamond (set (nodes diamond))" unfolding dense_def by code_simp
  ultimately show ?thesis by auto
qed

text \<open>
  C22: \<open>extendPath\<close> returns whenever it starts on a chain from a node that is not of degree two:
  it follows the chain to the next node that is not of degree two, and clears the path when that
  node was visited or the chain closes on its start.
\<close>

theorem extendPath_follows_chain:
  assumes "wf_graph g" "loopfree g" "chain (adj g) p" "length (adj g (hd p)) \<noteq> 2"
  shows "\<exists>q. prefix p q \<and> chain (adj g) q \<and> length (adj g (last q)) \<noteq> 2 \<and>
    extendPath p g visited = Some (if last q \<in> set visited \<or> last q = hd q then [] else q)"
  by (rule extendPath_ok) fact+

theorem extendPath_follows_chain_witness:
  "\<exists>q. prefix [''a'', ''b''] q \<and> chain (adj diamond) q \<and> length (adj diamond (last q)) \<noteq> 2 \<and>
    extendPath [''a'', ''b''] diamond [''a''] =
      Some (if last q \<in> set [''a''] \<or> last q = hd q then [] else q)"
proof -
  have "wf_graph diamond" "loopfree diamond" "length (adj diamond (hd [''a'', ''b''])) \<noteq> 2"
    "''b'' \<in> set (adj diamond ''a'')" by code_simp+
  moreover from this have "chain (adj diamond) [''a'', ''b'']" by (intro chain_pair)
  ultimately show ?thesis by (intro extendPath_follows_chain)
qed

text \<open>
  C4: \<open>findBasicCycleIntersection\<close> returns on every loop-free query graph, and its result has
  each basic path of the 2-core exactly once: every maximal path whose inner nodes have degree two
  and whose two different ends have degree above two, in the direction from its smaller end.
\<close>

theorem findBasicCycleIntersection_basic_paths:
  assumes "wf_graph g" "loopfree g"
  shows "\<exists>c ps. prune g = Some c \<and> findBasicCycleIntersection g = Some ps \<and> distinct ps \<and>
    set ps = {q. basic_path c q \<and> hd q < last q}"
  by (rule findBasicCycleIntersection_ok) fact+

theorem findBasicCycleIntersection_basic_paths_witness:
  "\<exists>c ps. prune diamond = Some c \<and> findBasicCycleIntersection diamond = Some ps \<and> distinct ps \<and>
    set ps = {q. basic_path c q \<and> hd q < last q}"
proof -
  have "wf_graph diamond" "loopfree diamond" by code_simp+
  then show ?thesis by (rule findBasicCycleIntersection_basic_paths)
qed

end
