(* ===== verification/CycleJoinGraph.thy ===== *)
theory CycleJoinGraph
  imports BasicPaths
begin

text \<open>
  Finding cycle-join graphs: \<open>findCycleJoin\<close>, \<open>compareCycleJoin\<close> and
  \<open>findBestCycleJoin\<close> of src/src/include/binder/query/query_graph_simple.hpp. Given the
  nodes \<open>V_probe\<close> of the probe side, \<open>findCycleJoin\<close> collects for every probe node the
  build paths that lead from it to intersection nodes outside the probe side, and then removes
  probe nodes with fewer than two intersection nodes and intersection nodes reached from fewer than
  two probe nodes until nothing changes.
\<close>

section \<open>Collecting build paths\<close>

text \<open>\<open>std::map<Node, std::map<Node, Path>> building_graphs\<close>\<close>

type_synonym building_graphs = "(node \<times> (node \<times> path) list) list"

definition inner :: "building_graphs \<Rightarrow> node \<Rightarrow> (node \<times> path) list" where
  "inner bg v = (case map_of bg v of None \<Rightarrow> [] | Some m \<Rightarrow> m)"

text \<open>\<open>building_graphs[v][w] = p\<close>\<close>

definition put_path :: "node \<Rightarrow> node \<Rightarrow> path \<Rightarrow> building_graphs \<Rightarrow> building_graphs" where
  "put_path v w p bg = map_put v (map_put w p (inner bg v)) bg"

text \<open>
  The entry of a path that has one end on the probe side; it replaces a longer one between the same
  nodes.
\<close>

definition put_shorter :: "node \<Rightarrow> node \<Rightarrow> path \<Rightarrow> building_graphs \<Rightarrow> building_graphs" where
  "put_shorter v w p bg =
     (let bg = (if v \<notin> fst ` set bg then map_put v [] bg else bg)
      in case map_of (inner bg v) w of
           None \<Rightarrow> put_path v w p bg
         | Some q \<Rightarrow> if length q > length p then put_path v w p bg else bg)"

text \<open>
  One iteration of the first loop of \<open>findCycleJoin\<close>. An empty path is undefined in the code
  (\<open>path[0]\<close>): None.
\<close>

definition collect_path :: "node list \<Rightarrow> building_graphs \<Rightarrow> path \<Rightarrow> building_graphs option" where
  "collect_path V_probe bg p =
     (if p = [] then None
      else let head = p ! 0; tail = last p; mid = length p div 2 in
        if list_ex (\<lambda>i. p ! i \<in> set V_probe) [1..<length p - 1] then Some bg
        else if head \<in> set V_probe then
          (if tail \<in> set V_probe then
             (if length p < 2 * BuildPathLengthLimit \<and> length p > 2 then
                let from_head = map (\<lambda>i. p ! i) [0..<mid + 1];
                    from_tail = map (\<lambda>i. p ! i) (rev [mid..<length p])
                in Some (put_path tail (p ! mid) from_tail (put_path head (p ! mid) from_head bg))
              else Some bg)
           else if length p > BuildPathLengthLimit then Some bg
           else Some (put_shorter head tail p bg))
        else if tail \<in> set V_probe then
          (if length p > BuildPathLengthLimit then Some bg
           else Some (put_shorter tail head (rev p) bg))
        else Some bg)"

section \<open>Removing weak nodes\<close>

text \<open>
  One round of the second loop: the probe nodes with fewer than two intersection nodes, the number
  of probe nodes of every intersection node, and the two removals. The flag says that something
  was removed.
\<close>

definition probe_remove_nodes :: "building_graphs \<Rightarrow> node list" where
  "probe_remove_nodes bg =
     foldl (\<lambda>rem (v, ws). if length ws < 2 then set_insert v rem else rem) [] bg"

definition count_node :: "(node \<times> nat) list \<Rightarrow> node \<times> path \<Rightarrow> (node \<times> nat) list" where
  "count_node cnt e = (case map_of cnt (fst e) of
     Some c \<Rightarrow> map_put (fst e) (c + 1) cnt | None \<Rightarrow> map_put (fst e) 1 cnt)"

definition intersect_node_counts :: "building_graphs \<Rightarrow> (node \<times> nat) list" where
  "intersect_node_counts bg = foldl (\<lambda>cnt (v, ws). foldl count_node cnt ws) [] bg"

definition intersect_remove_nodes :: "building_graphs \<Rightarrow> node list" where
  "intersect_remove_nodes bg =
     foldl (\<lambda>rem (w, c). if c < 2 then set_insert w rem else rem) [] (intersect_node_counts bg)"

definition erase_probe :: "building_graphs \<Rightarrow> node list \<Rightarrow> building_graphs" where
  "erase_probe bg vs = foldl (\<lambda>bg v. map_erase v bg) bg vs"

text \<open>Erase one intersection node everywhere; the flag is set when it occurs.\<close>

definition erase_intersect :: "building_graphs \<times> bool \<Rightarrow> node \<Rightarrow> building_graphs \<times> bool" where
  "erase_intersect = (\<lambda>(bg, removal) w.
     (map (\<lambda>(v, ws). (v, map_erase w ws)) bg,
      removal \<or> list_ex (\<lambda>(v, ws). w \<in> fst ` set ws) bg))"

definition prune_round :: "building_graphs \<Rightarrow> building_graphs \<times> bool" where
  "prune_round bg =
     foldl erase_intersect
       (erase_probe bg (probe_remove_nodes bg), probe_remove_nodes bg \<noteq> [])
       (intersect_remove_nodes bg)"

subsection \<open>The rounds end\<close>

definition bg_size :: "building_graphs \<Rightarrow> nat" where
  "bg_size bg = (\<Sum>(v, ws)\<leftarrow>bg. Suc (length ws))"

lemma length_map_erase_le: "length (map_erase w ws) \<le> length ws"
  by (simp add: map_erase_def)

lemma length_map_erase_less: "w \<in> fst ` set ws \<Longrightarrow> length (map_erase w ws) < length ws"
proof -
  assume "w \<in> fst ` set ws"
  then obtain q where "q \<in> set ws" "fst q = w" by auto
  then show ?thesis unfolding map_erase_def by (intro length_filter_less[of q]) auto
qed

lemma bg_size_erase_le: "bg_size (map_erase v bg) \<le> bg_size bg"
  by (induction bg) (auto simp: bg_size_def map_erase_def)

lemma bg_size_erase_less: "v \<in> fst ` set bg \<Longrightarrow> bg_size (map_erase v bg) < bg_size bg"
proof (induction bg)
  case (Cons e bg)
  have "bg_size (map_erase v bg) \<le> bg_size bg" by (rule bg_size_erase_le)
  with Cons show ?case by (cases e) (auto simp: bg_size_def map_erase_def)
qed simp

lemma bg_size_erase_probe: "bg_size (erase_probe bg vs) \<le> bg_size bg"
  unfolding erase_probe_def
  by (induction vs arbitrary: bg) (auto intro: order_trans bg_size_erase_le)

lemma bg_size_erase_probe_less:
  assumes "vs \<noteq> []" "set vs \<subseteq> fst ` set bg"
  shows "bg_size (erase_probe bg vs) < bg_size bg"
proof -
  obtain v vs' where v: "vs = v # vs'" using assms(1) by (cases vs) auto
  have "erase_probe bg vs = erase_probe (map_erase v bg) vs'" by (simp add: v erase_probe_def)
  moreover have "bg_size (map_erase v bg) < bg_size bg"
    using assms(2) v by (intro bg_size_erase_less) auto
  ultimately show ?thesis using bg_size_erase_probe[of "map_erase v bg" vs'] by simp
qed

lemma bg_size_erase_intersect:
  "bg_size (fst (erase_intersect (bg, r) w)) \<le> bg_size bg \<and>
   (snd (erase_intersect (bg, r) w) \<and> \<not> r \<longrightarrow> bg_size (fst (erase_intersect (bg, r) w)) < bg_size bg)"
proof (induction bg)
  case Nil
  then show ?case by (simp add: erase_intersect_def)
next
  case (Cons e bg)
  obtain v ws where e: "e = (v, ws)" by (cases e)
  show ?case
  proof (cases "w \<in> fst ` set ws")
    case True
    with Cons length_map_erase_less[OF True] show ?thesis
      by (simp add: e erase_intersect_def bg_size_def)
  next
    case False
    with Cons length_map_erase_le[of w ws] show ?thesis
      by (simp add: e erase_intersect_def bg_size_def) linarith
  qed
qed

lemma bg_size_erase_intersects:
  "foldl erase_intersect (bg, r) ws = (bg', r') \<Longrightarrow>
    bg_size bg' \<le> bg_size bg \<and> (r' \<and> \<not> r \<longrightarrow> bg_size bg' < bg_size bg)"
proof (induction ws arbitrary: bg r)
  case (Cons w ws)
  obtain bg1 r1 where e: "erase_intersect (bg, r) w = (bg1, r1)" by (cases "erase_intersect (bg, r) w")
  have "foldl erase_intersect (bg1, r1) ws = (bg', r')" using Cons.prems e by simp
  from Cons.IH[OF this] bg_size_erase_intersect[of bg r w] show ?case
    unfolding e by (cases r; cases r1) (simp, simp, simp_all, linarith)
qed simp

lemma set_probe_remove_nodes:
  "set (probe_remove_nodes bg) = {v. \<exists>ws. (v, ws) \<in> set bg \<and> length ws < 2}"
proof -
  have "set (foldl (\<lambda>rem (v, ws). if length ws < 2 then set_insert v rem else rem) r bg) =
      set r \<union> {v. \<exists>ws. (v, ws) \<in> set bg \<and> length ws < 2}" for r
    by (induction bg arbitrary: r) auto
  then show ?thesis by (simp add: probe_remove_nodes_def)
qed

lemma prune_round_decreases: "prune_round bg = (bg', True) \<Longrightarrow> bg_size bg' < bg_size bg"
proof -
  assume a: "prune_round bg = (bg', True)"
  let ?vs = "probe_remove_nodes bg"
  have "set ?vs \<subseteq> fst ` set bg" by (force simp: set_probe_remove_nodes)
  then have less: "?vs \<noteq> [] \<Longrightarrow> bg_size (erase_probe bg ?vs) < bg_size bg"
    by (intro bg_size_erase_probe_less)
  from bg_size_erase_intersects[of "erase_probe bg ?vs" "?vs \<noteq> []" "intersect_remove_nodes bg" bg' True] a
  have "bg_size bg' \<le> bg_size (erase_probe bg ?vs)"
    "?vs = [] \<Longrightarrow> bg_size bg' < bg_size (erase_probe bg ?vs)" by (auto simp: prune_round_def)
  with less bg_size_erase_probe[of bg ?vs] show ?thesis by (cases "?vs = []") simp_all
qed

function prune_weak :: "building_graphs \<Rightarrow> building_graphs" where
  "prune_weak bg =
     (let (bg', removal) = prune_round bg in if removal then prune_weak bg' else bg')"
  by pat_completeness auto
termination
  by (relation "measure bg_size") (simp_all add: prune_round_decreases)

declare prune_weak.simps [simp del]

section \<open>Cycle-join graphs\<close>

definition findCycleJoin :: "node list \<Rightarrow> path list \<Rightarrow> path list list option" where
  "findCycleJoin V_probe basic_paths =
     do { building_graphs \<leftarrow> foldM (collect_path V_probe) [] basic_paths;
          Some (map (\<lambda>(v_probe, intersect_nodes). map snd intersect_nodes) (prune_weak building_graphs)) }"

text \<open>
  The order on probe sides: more shared paths first, then shorter build paths, then fewer probe
  nodes. The subtractions are on \<open>size_t\<close>; they do not wrap where the code uses them.
\<close>

definition compareCycleJoin :: "node list \<Rightarrow> node list \<Rightarrow> path list \<Rightarrow> bool option" where
  "compareCycleJoin a b basic_paths =
     do { trees_a \<leftarrow> findCycleJoin a basic_paths;
          trees_b \<leftarrow> findCycleJoin b basic_paths;
          Some (if length trees_a = 0 then False
                else if length trees_b = 0 then True
                else let s_a = (\<Sum>ps\<leftarrow>trees_a. length ps - 1); s_b = (\<Sum>ps\<leftarrow>trees_b. length ps - 1) in
                  if s_a > s_b \<and> s_a > 0 then True
                  else let t_a = (\<Sum>ps\<leftarrow>trees_a. \<Sum>p\<leftarrow>ps. length p - 2);
                           t_b = (\<Sum>ps\<leftarrow>trees_b. \<Sum>p\<leftarrow>ps. length p - 2) in
                    if t_a < t_b then True
                    else if length a < length b then True
                    else False) }"

section \<open>The best probe side\<close>

text \<open>The candidates of one round: keep the best one.\<close>

definition best_of :: "path list \<Rightarrow> graph list \<Rightarrow> graph \<Rightarrow> (graph \<times> bool) option" where
  "best_of P_basic P G_probe =
     foldM (\<lambda>(G_probe, no_improvement) G.
        do { better \<leftarrow> compareCycleJoin (nodes G) (nodes G_probe) P_basic;
             Some (if better then (G, False) else (G_probe, no_improvement)) })
       (G_probe, True) P"

text \<open>The candidates of the next round: the probe side merged with a basic path that overlaps it.\<close>

definition next_candidates :: "path list \<Rightarrow> graph \<Rightarrow> graph list option" where
  "next_candidates P_basic G_probe =
     foldM (\<lambda>P_next basic.
        do { G_basic \<leftarrow> pathToGraph basic;
             if isConnectedAndDifferent G_probe G_basic
             then do { m \<leftarrow> merge G_probe G_basic; Some (P_next @ [m]) }
             else Some P_next })
       [] P_basic"

partial_function (option) grow_probe :: "path list \<Rightarrow> graph list \<Rightarrow> graph \<Rightarrow> graph option" where
  "grow_probe P_basic P G_probe =
     Option.bind (best_of P_basic P G_probe) (\<lambda>(G_probe, no_improvement).
       if no_improvement then Some G_probe
       else Option.bind (next_candidates P_basic G_probe) (\<lambda>P_next.
         if length P_next > 0 then grow_probe P_basic P_next G_probe else Some G_probe))"

declare grow_probe.simps [code]

text \<open>Close the probe side under the query edges between its nodes.\<close>

definition close_probe :: "graph \<Rightarrow> graph \<Rightarrow> graph option" where
  "close_probe Q G_probe =
     foldM (\<lambda>G u. do { vs \<leftarrow> getNeighbors Q u;
              foldM (\<lambda>G v. if v \<in> set (nodes G) then addEdge G u v else Some G) G vs })
       G_probe (nodes G_probe)"

text \<open>
  \<open>std::shuffle\<close> with a random engine is a parameter: the function that reorders the basic
  paths when \<open>shuffle_basic_paths\<close> is set.
\<close>

definition findBestCycleJoin ::
  "(path list \<Rightarrow> path list) \<Rightarrow> graph \<Rightarrow> bool \<Rightarrow> (graph \<times> path list list) option" where
  "findBestCycleJoin shuffle Q shuffle_basic_paths =
     do { P_basic \<leftarrow> findBasicCycleIntersection Q;
          if length P_basic = 0 then Some (empty_graph, [])
          else do {
            let P_basic = (if shuffle_basic_paths then shuffle P_basic else P_basic);
            P \<leftarrow> foldM (\<lambda>P basic. do { G \<leftarrow> pathToGraph basic; Some (P @ [G]) }) [] P_basic;
            G_probe \<leftarrow> grow_probe P_basic P empty_graph;
            G_probe \<leftarrow> close_probe Q G_probe;
            paths \<leftarrow> findCycleJoin (nodes G_probe) P_basic;
            Some (G_probe, paths) } }"


section \<open>Looking up build paths\<close>

definition look :: "building_graphs \<Rightarrow> node \<Rightarrow> node \<Rightarrow> path option" where
  "look bg v w = map_of (inner bg v) w"

definition wf_bg :: "building_graphs \<Rightarrow> bool" where
  "wf_bg bg \<longleftrightarrow> omap bg \<and> list_all (\<lambda>(v, ws). omap ws) bg"

lemma wf_bg_Nil [simp]: "wf_bg []"
  by (simp add: wf_bg_def)

lemma wf_bg_omap: "wf_bg bg \<Longrightarrow> omap bg"
  by (simp add: wf_bg_def)

lemma wf_bg_inner [simp]: "wf_bg bg \<Longrightarrow> omap (inner bg v)"
  by (auto simp: wf_bg_def inner_def list_all_iff dest: map_of_SomeD split: option.splits)

lemma inner_map_put [simp]: "omap bg \<Longrightarrow> inner (map_put v ws bg) = (inner bg)(v := ws)"
  by (rule ext) (simp add: inner_def)

lemma inner_mem: "omap bg \<Longrightarrow> (v, ws) \<in> set bg \<Longrightarrow> inner bg v = ws"
  by (simp add: inner_def omap_mem_iff)

lemma wf_bgI:
  assumes "omap bg" "\<And>v. omap (inner bg v)"
  shows "wf_bg bg"
proof -
  have "omap ws" if "(v, ws) \<in> set bg" for v ws
    using assms(2)[of v] inner_mem[OF assms(1) that] by simp
  with assms(1) show ?thesis by (auto simp: wf_bg_def list_all_iff)
qed

lemma look_eq_Some: "wf_bg bg \<Longrightarrow> look bg v w = Some p \<longleftrightarrow> (\<exists>ws. (v, ws) \<in> set bg \<and> (w, p) \<in> set ws)"
proof
  assume wf: "wf_bg bg" and "look bg v w = Some p"
  then have l: "map_of (inner bg v) w = Some p" by (simp add: look_def)
  then obtain ws where "map_of bg v = Some ws" by (auto simp: inner_def split: option.splits)
  with l show "\<exists>ws. (v, ws) \<in> set bg \<and> (w, p) \<in> set ws"
    by (auto simp: inner_def dest: map_of_SomeD)
next
  assume wf: "wf_bg bg" and "\<exists>ws. (v, ws) \<in> set bg \<and> (w, p) \<in> set ws"
  then obtain ws where ws: "(v, ws) \<in> set bg" "(w, p) \<in> set ws" by blast
  then have "inner bg v = ws" by (intro inner_mem wf_bg_omap wf)
  with ws(2) wf_bg_inner[OF wf, of v] show "look bg v w = Some p"
    by (simp add: look_def omap_mem_iff)
qed

lemma put_path_wf:
  assumes "wf_bg bg"
  shows "wf_bg (put_path v w p bg)"
    "look (put_path v w p bg) x y = (if x = v \<and> y = w then Some p else look bg x y)"
proof -
  have om: "omap bg" by (rule wf_bg_omap) fact
  show "wf_bg (put_path v w p bg)"
    using assms om by (intro wf_bgI) (auto simp: put_path_def)
  show "look (put_path v w p bg) x y = (if x = v \<and> y = w then Some p else look bg x y)"
    using assms om by (simp add: look_def put_path_def)
qed

lemma put_shorter_wf:
  assumes "wf_bg bg"
  shows "wf_bg (put_shorter v w p bg)"
    "look (put_shorter v w p bg) x y = look bg x y \<or>
      (x = v \<and> y = w \<and> look (put_shorter v w p bg) x y = Some p)"
proof -
  define bg1 where "bg1 = (if v \<notin> fst ` set bg then map_put v [] bg else bg)"
  have om: "omap bg" by (rule wf_bg_omap) fact
  have out: "inner bg v = []" if "v \<notin> fst ` set bg"
    using that by (simp add: inner_def map_of_eq_None_iff[THEN iffD2])
  have wf: "wf_bg bg1" and lk: "\<And>x y. look bg1 x y = look bg x y"
    using assms om out by (auto intro!: wf_bgI simp: look_def bg1_def)
  have "put_shorter v w p bg = bg1 \<or> put_shorter v w p bg = put_path v w p bg1"
    by (auto simp: put_shorter_def Let_def bg1_def[symmetric] split: option.splits)
  with put_path_wf[OF wf, of v w p] wf lk
  show "wf_bg (put_shorter v w p bg)"
    "look (put_shorter v w p bg) x y = look bg x y \<or>
      (x = v \<and> y = w \<and> look (put_shorter v w p bg) x y = Some p)" by (auto split: if_splits)
qed

subsection \<open>What a build path is\<close>

text \<open>
  A build path from a probe node to an intersection node: within the length limit, with only its
  first node on the probe side, and a piece of a basic path in one of its two directions.
\<close>

definition build_path :: "node list \<Rightarrow> path list \<Rightarrow> node \<Rightarrow> node \<Rightarrow> path \<Rightarrow> bool" where
  "build_path V bps v w p \<longleftrightarrow>
     v \<in> set V \<and> hd p = v \<and> last p = w \<and> 2 \<le> length p \<and> length p \<le> BuildPathLengthLimit \<and>
     set (tl p) \<inter> set V = {} \<and> (\<exists>b\<in>set bps. sublist p b \<or> sublist (rev p) b)"

lemma tl_nth_avoid:
  assumes "\<And>i. 0 < i \<Longrightarrow> i < length p \<Longrightarrow> p ! i \<notin> V"
  shows "set (tl p) \<inter> V = {}"
  using assms by (auto simp: in_set_conv_nth nth_tl)

lemma map_nth_take: "n \<le> length p \<Longrightarrow> map (\<lambda>i. p ! i) [0..<n] = take n p"
  by (rule nth_equalityI) auto

lemma map_nth_drop: "map (\<lambda>i. p ! i) [m..<length p] = drop m p"
  by (rule nth_equalityI) auto

lemma collect_path_ok:
  assumes wf: "wf_bg bg" and inv: "\<And>v w q. look bg v w = Some q \<Longrightarrow> build_path V bps v w q"
    and p: "p \<noteq> []" "p \<in> set bps"
  shows "\<exists>bg'. collect_path V bg p = Some bg' \<and> wf_bg bg' \<and>
    (\<forall>v w q. look bg' v w = Some q \<longrightarrow> build_path V bps v w q)"
proof -
  let ?n = "length p" and ?m = "length p div 2"
  let ?via = "list_ex (\<lambda>i. p ! i \<in> set V) [1..<?n - 1]"
  have hd: "p ! 0 = hd p" using p(1) by (simp add: hd_conv_nth)
  have lst: "p ! (?n - 1) = last p" using p(1) by (simp add: last_conv_nth)
  have mid: "p ! i \<notin> set V" if "\<not> ?via" "0 < i" "Suc i < ?n" for i
    using that by (auto simp: list_ex_iff)
  have eq: "collect_path V bg p =
      (if ?via then Some bg
       else if hd p \<in> set V then
         (if last p \<in> set V then
            (if ?n < 6 \<and> 2 < ?n then
               Some (put_path (last p) (p ! ?m) (map (\<lambda>i. p ! i) (rev [?m..<?n]))
                 (put_path (hd p) (p ! ?m) (map (\<lambda>i. p ! i) [0..<?m + 1]) bg))
             else Some bg)
          else if 3 < ?n then Some bg else Some (put_shorter (hd p) (last p) p bg))
       else if last p \<in> set V then
         (if 3 < ?n then Some bg else Some (put_shorter (last p) (hd p) (rev p) bg))
       else Some bg)"
    using p(1) by (simp add: collect_path_def Let_def hd BuildPathLengthLimit_def)
  consider (skip) "collect_path V bg p = Some bg"
    | (both) "\<not> ?via" "hd p \<in> set V" "last p \<in> set V" "2 < ?n" "?n < 6"
    | (hd) "\<not> ?via" "hd p \<in> set V" "last p \<notin> set V" "?n \<le> 3"
    | (tl) "\<not> ?via" "hd p \<notin> set V" "last p \<in> set V" "?n \<le> 3"
    unfolding eq by (cases ?via; cases "hd p \<in> set V"; cases "last p \<in> set V"; cases "?n \<le> 3";
        cases "2 < ?n \<and> ?n < 6") (simp_all del: upt_Suc)
  then show ?thesis
  proof cases
    case skip
    with wf inv show ?thesis by blast
  next
    case both
    let ?h = "take (?m + 1) p" and ?t = "rev (drop ?m p)"
    have m: "0 < ?m" "Suc ?m < ?n" using both(4) by auto
    have ends: "hd ?h = hd p" "last ?h = p ! ?m" "hd ?t = last p" "last ?t = p ! ?m"
      using m p(1) by (auto simp: last_conv_nth hd_rev last_rev hd_drop_conv_nth nth_append)
    have "set (tl ?h) \<inter> set V = {}"
      by (rule tl_nth_avoid) (use mid[OF both(1)] m in auto)
    moreover have "set (tl ?t) \<inter> set V = {}"
    proof (rule tl_nth_avoid)
      fix i assume i: "0 < i" "i < length ?t"
      then have "?t ! i = p ! (?n - Suc i)" by (simp add: rev_nth)
      moreover have "0 < ?n - Suc i" "Suc (?n - Suc i) < ?n" using i m by auto
      ultimately show "?t ! i \<notin> set V" using mid[OF both(1)] by metis
    qed
    moreover have "sublist ?h p" "sublist (rev ?t) p" by (simp_all add: sublist_take sublist_drop)
    ultimately have "build_path V bps (hd p) (p ! ?m) ?h" "build_path V bps (last p) (p ! ?m) ?t"
      using both m ends p(2) by (auto simp: build_path_def BuildPathLengthLimit_def)
    moreover have "collect_path V bg p =
        Some (put_path (last p) (p ! ?m) ?t (put_path (hd p) (p ! ?m) ?h bg))"
    proof -
      have "map (\<lambda>i. p ! i) [0..<?m + 1] = ?h" "map (\<lambda>i. p ! i) (rev [?m..<?n]) = ?t"
        using m map_nth_take[of "?m + 1" p] map_nth_drop[of p ?m] by (simp_all add: rev_map[symmetric])
      with both show ?thesis unfolding eq by (simp del: upt_Suc)
    qed
    ultimately show ?thesis
      using put_path_wf[OF wf] put_path_wf[OF put_path_wf(1)[OF wf]] inv by auto
  next
    case hd
    have "hd p \<noteq> last p" using hd by auto
    then have n: "2 \<le> ?n" using p(1) by (cases p; cases "tl p") auto
    have "set (tl p) \<inter> set V = {}"
    proof (rule tl_nth_avoid)
      fix i assume "0 < i" "i < ?n"
      then show "p ! i \<notin> set V"
        using mid[OF hd(1)] hd(3) lst by (cases "Suc i < ?n") (auto dest: le_antisym simp: not_less Suc_le_eq)
    qed
    with hd n p(2) have "build_path V bps (hd p) (last p) p"
      by (auto simp: build_path_def BuildPathLengthLimit_def)
    moreover have "collect_path V bg p = Some (put_shorter (hd p) (last p) p bg)"
      unfolding eq using hd by simp
    ultimately show ?thesis
      using put_shorter_wf[OF wf, of "hd p" "last p" p] inv by (metis option.inject)
  next
    case tl
    have "hd p \<noteq> last p" using tl by auto
    then have n: "2 \<le> ?n" using p(1) by (cases p; cases "tl p") auto
    have "set (tl (rev p)) \<inter> set V = {}"
    proof (rule tl_nth_avoid)
      fix i assume i: "0 < i" "i < length (rev p)"
      then have r: "rev p ! i = p ! (?n - Suc i)" by (simp add: rev_nth)
      show "rev p ! i \<notin> set V"
      proof (cases "?n - Suc i = 0")
        case True
        then show ?thesis using r tl(2) \<open>p ! 0 = hd p\<close> by simp
      next
        case False
        then show ?thesis using r mid[OF tl(1), of "?n - Suc i"] i by simp
      qed
    qed
    with tl n p have "build_path V bps (last p) (hd p) (rev p)"
      by (auto simp: build_path_def BuildPathLengthLimit_def hd_rev last_rev)
    moreover have "collect_path V bg p = Some (put_shorter (last p) (hd p) (rev p) bg)"
      unfolding eq using tl by simp
    ultimately show ?thesis
      using put_shorter_wf[OF wf, of "last p" "hd p" "rev p"] inv by (metis option.inject)
  qed
qed


lemma collect_paths_ok:
  assumes "[] \<notin> set bps"
  shows "\<exists>bg. foldM (collect_path V) [] bps = Some bg \<and> wf_bg bg \<and>
    (\<forall>v w q. look bg v w = Some q \<longrightarrow> build_path V bps v w q)"
proof -
  let ?I = "\<lambda>_ bg. wf_bg bg \<and> (\<forall>v w q. look bg v w = Some q \<longrightarrow> build_path V bps v w q)"
  have "\<exists>bg. foldM (collect_path V) [] bps = Some bg \<and> ?I bps bg"
  proof (rule foldM_rule[where I = ?I])
    show "?I [] []" by (simp add: look_def inner_def)
    fix don x rest s assume "bps = don @ x # rest" "?I don s"
    with assms show "\<exists>s'. collect_path V s x = Some s' \<and> ?I (don @ [x]) s'"
      using collect_path_ok[of s V bps x] by auto
  qed
  then show ?thesis by blast
qed

section \<open>What the rounds remove\<close>

text \<open>The number of probe nodes that reach an intersection node.\<close>

definition reach_count :: "building_graphs \<Rightarrow> node \<Rightarrow> nat" where
  "reach_count bg w = length (filter (\<lambda>(v, ws). w \<in> fst ` set ws) bg)"

definition stored :: "(node \<times> nat) list \<Rightarrow> node \<Rightarrow> nat" where
  "stored cnt w = (case map_of cnt w of None \<Rightarrow> 0 | Some c \<Rightarrow> c)"

definition positive :: "(node \<times> nat) list \<Rightarrow> bool" where
  "positive cnt \<longleftrightarrow> omap cnt \<and> (\<forall>w. map_of cnt w \<noteq> Some 0)"

lemma count_node_ok:
  assumes "positive cnt"
  shows "positive (count_node cnt e) \<and>
    stored (count_node cnt e) x = stored cnt x + (if x = fst e then 1 else 0)"
  using assms by (auto simp: positive_def count_node_def stored_def split: option.splits)

lemma count_inner:
  assumes "positive cnt" "distinct (map fst ws)"
  shows "positive (foldl count_node cnt ws) \<and>
    stored (foldl count_node cnt ws) x = stored cnt x + (if x \<in> fst ` set ws then 1 else 0)"
  using assms
proof (induction ws arbitrary: cnt)
  case (Cons e ws)
  from count_node_ok[OF Cons.prems(1), of e x] Cons.IH[of "count_node cnt e"] Cons.prems(2)
  show ?case by auto
qed simp

lemma count_outer:
  assumes "positive cnt" "\<forall>(v, ws)\<in>set bg. omap ws"
  shows "positive (foldl (\<lambda>cnt (v, ws). foldl count_node cnt ws) cnt bg) \<and>
    stored (foldl (\<lambda>cnt (v, ws). foldl count_node cnt ws) cnt bg) x = stored cnt x + reach_count bg x"
  using assms
proof (induction bg arbitrary: cnt)
  case (Cons e bg)
  obtain v ws where e: "e = (v, ws)" by (cases e)
  then have "distinct (map fst ws)" using Cons.prems(2) by (auto simp: omap_def oset_distinct)
  from count_inner[OF Cons.prems(1) this, of x] Cons.IH[of "foldl count_node cnt ws"] Cons.prems(2)
  show ?case by (auto simp: e reach_count_def)
qed (simp add: reach_count_def)

lemma set_intersect_remove_nodes:
  assumes "wf_bg bg"
  shows "set (intersect_remove_nodes bg) = {w. reach_count bg w = 1}"
proof -
  let ?cnt = "intersect_node_counts bg"
  have "positive []" by (simp add: positive_def)
  moreover have "\<forall>(v, ws)\<in>set bg. omap ws" using assms by (simp add: wf_bg_def list_all_iff)
  ultimately have pos: "positive ?cnt" and st: "\<And>x. stored ?cnt x = reach_count bg x"
    using count_outer[of "[]" bg] by (simp_all add: intersect_node_counts_def stored_def)
  have cnt: "omap ?cnt" using pos by (simp add: positive_def)
  have cnt2: "map_of ?cnt x = (if reach_count bg x = 0 then None else Some (reach_count bg x))" for x
    using st[of x] pos by (cases "map_of ?cnt x") (auto simp: positive_def stored_def intro!: Nat.gr0I)
  have "set (foldl (\<lambda>rem (w, c). if c < 2 then set_insert w rem else rem) r es) =
      set r \<union> {w. \<exists>c. (w, c) \<in> set es \<and> c < 2}" for r and es :: "(node \<times> nat) list"
    by (induction es arbitrary: r) auto
  then have "set (intersect_remove_nodes bg) = {w. \<exists>c. (w, c) \<in> set ?cnt \<and> c < 2}"
    by (simp add: intersect_remove_nodes_def)
  also have "\<dots> = {w. reach_count bg w = 1}"
    unfolding omap_mem_iff[OF cnt] cnt2 by (auto split: if_splits)
  finally show ?thesis .
qed

lemma erase_probe_eq: "erase_probe bg vs = filter (\<lambda>(v, ws). v \<notin> set vs) bg"
  unfolding erase_probe_def
  by (induction vs arbitrary: bg)
    (auto simp: map_erase_def filter_filter case_prod_unfold conj_commute intro: filter_cong)

lemma erase_intersects_eq:
  "foldl erase_intersect (bg, r) ws =
    (map (\<lambda>(v, m). (v, filter (\<lambda>(w, p). w \<notin> set ws) m)) bg,
     r \<or> (\<exists>w\<in>set ws. \<exists>(v, m)\<in>set bg. w \<in> fst ` set m))"
proof (induction ws arbitrary: bg r)
  case Nil
  then show ?case by (simp add: case_prod_unfold)
next
  case (Cons w ws)
  let ?bg = "map (\<lambda>(v, m). (v, map_erase w m)) bg"
  have "map (\<lambda>(v, m). (v, filter (\<lambda>(w, p). w \<notin> set ws) m)) ?bg =
      map (\<lambda>(v, m). (v, filter (\<lambda>(x, p). x \<notin> set (w # ws)) m)) bg"
    by (auto simp: map_erase_def case_prod_unfold intro!: filter_cong)
  moreover have "(r \<or> list_ex (\<lambda>(v, m). w \<in> fst ` set m) bg) \<or>
      (\<exists>x\<in>set ws. \<exists>(v, m)\<in>set ?bg. x \<in> fst ` set m) \<longleftrightarrow>
      r \<or> (\<exists>x\<in>set (w # ws). \<exists>(v, m)\<in>set bg. x \<in> fst ` set m)"
  proof -
    define A where "A x \<longleftrightarrow> (\<exists>(v, m)\<in>set bg. x \<in> fst ` set m)" for x
    have "(\<exists>(v, m)\<in>set ?bg. x \<in> fst ` set m) \<longleftrightarrow> x \<noteq> w \<and> A x" for x
      by (force simp: map_erase_def A_def)
    then show ?thesis unfolding list_ex_iff A_def[symmetric] by auto
  qed
  ultimately show ?case
    using Cons.IH[of ?bg "r \<or> list_ex (\<lambda>(v, m). w \<in> fst ` set m) bg"]
    by (simp add: erase_intersect_def)
qed


text \<open>A round restricts the map to the probe nodes and the intersection nodes it keeps.\<close>

definition restrict_bg :: "(node \<Rightarrow> bool) \<Rightarrow> (node \<Rightarrow> bool) \<Rightarrow> building_graphs \<Rightarrow> building_graphs" where
  "restrict_bg P W bg =
     map (\<lambda>(v, m). (v, filter (\<lambda>(w, p). W w) m)) (filter (\<lambda>(v, m). P v) bg)"

lemma prune_round_eq:
  "prune_round bg =
    (restrict_bg (\<lambda>v. v \<notin> set (probe_remove_nodes bg)) (\<lambda>w. w \<notin> set (intersect_remove_nodes bg)) bg,
     probe_remove_nodes bg \<noteq> [] \<or>
     (\<exists>w\<in>set (intersect_remove_nodes bg). \<exists>(v, m)\<in>set (erase_probe bg (probe_remove_nodes bg)). w \<in> fst ` set m))"
  unfolding prune_round_def erase_intersects_eq restrict_bg_def erase_probe_eq by simp

lemma map_of_filter_key: "map_of (filter (\<lambda>(k, v). P k) m) x = (if P x then map_of m x else None)"
  by (induction m) auto

lemma map_of_map_filter:
  "map_of (map (\<lambda>(v, m). (v, f m)) bg) x = map_option f (map_of bg x)"
  by (induction bg) auto

lemma omap_filter: "omap m \<Longrightarrow> omap (filter P m)"
  by (induction m) (auto simp: omap_Cons)

lemma omap_map_snd: "omap (map (\<lambda>(v, m). (v, f m)) bg) \<longleftrightarrow> omap bg"
  by (simp add: omap_def comp_def case_prod_unfold)

lemma look_restrict: "look (restrict_bg P W bg) v w = (if P v \<and> W w then look bg v w else None)"
  by (auto simp: look_def inner_def restrict_bg_def map_of_map_filter map_of_filter_key split: option.splits)

lemma wf_restrict: "wf_bg bg \<Longrightarrow> wf_bg (restrict_bg P W bg)"
  unfolding wf_bg_def restrict_bg_def omap_map_snd list_all_iff
  by (auto intro: omap_filter)

lemma reach_count_card:
  assumes "wf_bg bg"
  shows "reach_count bg w = card {v. look bg v w \<noteq> None}"
proof -
  let ?F = "filter (\<lambda>(v, ws). w \<in> fst ` set ws) bg"
  have "distinct (map fst ?F)"
    using wf_bg_omap[OF assms] by (simp add: omap_def oset_distinct distinct_map_filter)
  then have "reach_count bg w = card (fst ` set ?F)"
    by (metis distinct_card length_map list.set_map reach_count_def)
  also have "fst ` set ?F = {v. look bg v w \<noteq> None}"
    using look_eq_Some[OF assms, of _ w] by (force simp: image_iff)
  finally show ?thesis .
qed

lemma finite_reach: "wf_bg bg \<Longrightarrow> finite {v. look bg v w \<noteq> None}"
proof -
  assume "wf_bg bg"
  then have "{v. look bg v w \<noteq> None} \<subseteq> fst ` set bg" by (force simp: look_eq_Some)
  then show ?thesis by (rule finite_subset) simp
qed

text \<open>
  A map is stable when no round removes anything: every probe node has two intersection nodes and
  every intersection node is reached from two probe nodes.
\<close>

definition stable :: "building_graphs \<Rightarrow> bool" where
  "stable bg \<longleftrightarrow> (\<forall>(v, ws)\<in>set bg. 2 \<le> length ws) \<and>
     (\<forall>v w. look bg v w \<noteq> None \<longrightarrow> 2 \<le> card {v. look bg v w \<noteq> None})"

text \<open>
  A set of (probe node, intersection node) pairs that support each other.
\<close>

definition supported :: "building_graphs \<Rightarrow> (node \<times> node) set \<Rightarrow> bool" where
  "supported bg S \<longleftrightarrow> (\<forall>(v, w)\<in>S. look bg v w \<noteq> None \<and>
     (\<exists>w'. w' \<noteq> w \<and> (v, w') \<in> S) \<and> (\<exists>v'. v' \<noteq> v \<and> (v', w) \<in> S))"

lemma two_le_card: "finite A \<Longrightarrow> a \<in> A \<Longrightarrow> b \<in> A \<Longrightarrow> a \<noteq> b \<Longrightarrow> 2 \<le> card A"
  using card_mono[of A "{a, b}"] by simp

lemma two_le_length: "a \<in> set xs \<Longrightarrow> b \<in> set xs \<Longrightarrow> a \<noteq> b \<Longrightarrow> 2 \<le> length xs"
  using two_le_card[of "set xs" a b] card_length[of xs] by simp

lemma supported_kept:
  assumes wf: "wf_bg bg" and S: "supported bg S" and vw: "(v, w) \<in> S"
  shows "v \<notin> set (probe_remove_nodes bg)" "w \<notin> set (intersect_remove_nodes bg)"
proof -
  from S vw obtain w' v' where 1: "w' \<noteq> w" "(v, w') \<in> S" and 2: "v' \<noteq> v" "(v', w) \<in> S"
    by (auto simp: supported_def)
  have lk: "look bg v w \<noteq> None" "look bg v w' \<noteq> None" "look bg v' w \<noteq> None"
    using S vw 1(2) 2(2) by (auto simp: supported_def)
  show "v \<notin> set (probe_remove_nodes bg)"
  proof
    assume "v \<in> set (probe_remove_nodes bg)"
    then obtain ws where ws: "(v, ws) \<in> set bg" "length ws < 2" by (auto simp: set_probe_remove_nodes)
    then have "inner bg v = ws" by (intro inner_mem wf_bg_omap wf)
    with lk obtain p p' where "(w, p) \<in> set ws" "(w', p') \<in> set ws"
      by (auto simp: look_def dest: map_of_SomeD)
    with 1(1) two_le_length[of "(w, p)" ws "(w', p')"] ws(2) show False by simp
  qed
  have "2 \<le> card {v. look bg v w \<noteq> None}"
    using two_le_card[OF finite_reach[OF wf], of v w v'] lk 2(1) by simp
  then show "w \<notin> set (intersect_remove_nodes bg)"
    by (simp add: set_intersect_remove_nodes[OF wf] reach_count_card[OF wf])
qed

lemma prune_round_False:
  assumes wf: "wf_bg bg" and eq: "prune_round bg = (bg', False)"
  shows "bg' = bg \<and> stable bg"
proof -
  let ?W = "\<lambda>w. w \<notin> set (intersect_remove_nodes bg)"
  from eq have pr: "probe_remove_nodes bg = []"
    and ir: "\<And>v m w. (v, m) \<in> set bg \<Longrightarrow> w \<in> fst ` set m \<Longrightarrow> ?W w"
    and bg': "bg' = restrict_bg (\<lambda>v. True) ?W bg"
    unfolding prune_round_eq by (auto simp: erase_probe_eq)
  have "filter (\<lambda>(w, p). ?W w) m = m" if "(v, m) \<in> set bg" for v m
    using ir[OF that] by (force simp: filter_id_conv)
  then have "bg' = bg" unfolding bg' restrict_bg_def by (auto intro!: map_idI)
  moreover have "2 \<le> length ws" if "(v, ws) \<in> set bg" for v ws
  proof -
    have "v \<notin> set (probe_remove_nodes bg)" using pr by simp
    with that show ?thesis unfolding set_probe_remove_nodes by auto
  qed
  moreover have "2 \<le> card {v. look bg v w \<noteq> None}" if "look bg v w \<noteq> None" for v w
  proof -
    from that obtain m p where m: "(v, m) \<in> set bg" "(w, p) \<in> set m" by (auto simp: look_eq_Some[OF wf])
    then have "?W w" by (intro ir[OF m(1)]) force
    then have "card {v. look bg v w \<noteq> None} \<noteq> 1"
      by (simp add: set_intersect_remove_nodes[OF wf] reach_count_card[OF wf])
    moreover have "0 < card {v. look bg v w \<noteq> None}"
      using that finite_reach[OF wf, of w] by (auto simp: card_gt_0_iff)
    ultimately show ?thesis by linarith
  qed
  ultimately show ?thesis by (auto simp: stable_def)
qed

text \<open>
  The rounds keep a part of the map that is stable and contains every supported set of pairs.
\<close>

lemma prune_weak_ok:
  assumes "wf_bg bg"
  shows "wf_bg (prune_weak bg) \<and> stable (prune_weak bg) \<and>
    (\<forall>v w q. look (prune_weak bg) v w = Some q \<longrightarrow> look bg v w = Some q) \<and>
    (\<forall>S. supported bg S \<longrightarrow> supported (prune_weak bg) S)"
  using assms
proof (induction bg rule: prune_weak.induct)
  case (1 bg)
  obtain bg' r where pr: "prune_round bg = (bg', r)" by (cases "prune_round bg")
  let ?P = "\<lambda>v. v \<notin> set (probe_remove_nodes bg)" and ?W = "\<lambda>w. w \<notin> set (intersect_remove_nodes bg)"
  have bg': "bg' = restrict_bg ?P ?W bg" using pr by (simp add: prune_round_eq)
  show ?case
  proof (cases r)
    case False
    with prune_round_False[OF "1.prems"] pr have "prune_weak bg = bg" "stable bg"
      by (auto simp: prune_weak.simps[of bg])
    with "1.prems" show ?thesis by simp
  next
    case True
    then have eq: "prune_weak bg = prune_weak bg'" by (simp add: prune_weak.simps[of bg] pr)
    have wf': "wf_bg bg'" unfolding bg' by (rule wf_restrict[OF "1.prems"])
    note IH = "1.IH"[OF pr[symmetric] refl True wf']
    have "look bg v w = Some q" if "look bg' v w = Some q" for v w q
      using that unfolding bg' look_restrict by (simp split: if_splits)
    moreover have "supported bg' S" if S: "supported bg S" for S
    proof -
      have "look bg' v w = look bg v w" if "(v, w) \<in> S" for v w
        using supported_kept[OF "1.prems" S that] unfolding bg' look_restrict by simp
      with S show ?thesis by (fastforce simp: supported_def)
    qed
    ultimately show ?thesis using IH unfolding eq by blast
  qed
qed


section \<open>The trees\<close>

text \<open>
  The shape of a cycle join: at least two build paths per tree, all from the same probe node to
  different intersection nodes, one tree per probe node, and every intersection node is shared by
  two trees.
\<close>

definition cycle_join :: "node list \<Rightarrow> path list \<Rightarrow> path list list \<Rightarrow> bool" where
  "cycle_join V bps trees \<longleftrightarrow>
     (\<forall>t\<in>set trees. 2 \<le> length t \<and> distinct (map last t) \<and>
        (\<forall>p\<in>set t. build_path V bps (hd (hd t)) (last p) p)) \<and>
     distinct (map (\<lambda>t. hd (hd t)) trees) \<and>
     (\<forall>t\<in>set trees. \<forall>p\<in>set t. \<exists>t'\<in>set trees. t' \<noteq> t \<and> last p \<in> last ` set t')"

lemma findCycleJoin_ok:
  assumes "[] \<notin> set bps"
  shows "\<exists>trees. findCycleJoin V bps = Some trees \<and> cycle_join V bps trees"
proof -
  from collect_paths_ok[OF assms] obtain bg where bg: "foldM (collect_path V) [] bps = Some bg"
    "wf_bg bg" "\<And>v w q. look bg v w = Some q \<Longrightarrow> build_path V bps v w q" by blast
  define r where "r = prune_weak bg"
  have wf: "wf_bg r" and st: "stable r" and bp: "\<And>v w q. look r v w = Some q \<Longrightarrow> build_path V bps v w q"
    using prune_weak_ok[OF bg(2)] bg(3) by (auto simp: r_def)
  let ?tree = "\<lambda>(v, ws). map snd ws"
  have entry: "build_path V bps v w p" if "(v, ws) \<in> set r" "(w, p) \<in> set ws" for v ws w p
    using that by (intro bp) (auto simp: look_eq_Some[OF wf])
  have lasts: "map last (map snd ws) = map fst ws" if "(v, ws) \<in> set r" for v ws
    using entry[OF that] by (auto simp: build_path_def)
  have len: "2 \<le> length ws" if "(v, ws) \<in> set r" for v ws using that st by (auto simp: stable_def)
  have hdhd: "hd (hd (map snd ws)) = v" if m: "(v, ws) \<in> set r" for v ws
  proof -
    from len[OF m] obtain w p ws' where "ws = (w, p) # ws'" by (cases ws) auto
    with entry[OF m, of w p] show ?thesis by (simp add: build_path_def)
  qed
  have t1: "2 \<le> length t \<and> distinct (map last t) \<and>
        (\<forall>p\<in>set t. build_path V bps (hd (hd t)) (last p) p)" if t: "t \<in> set (map ?tree r)" for t
  proof -
    from t obtain v ws where m: "(v, ws) \<in> set r" "t = map snd ws" by auto
    have "omap ws" using wf m(1) by (auto simp: wf_bg_def list_all_iff)
    then have "distinct (map fst ws)" by (simp add: omap_def oset_distinct)
    then have "distinct (map last t)" by (simp only: m(2) lasts[OF m(1)])
    moreover have "build_path V bps (hd (hd t)) (last p) p" if "p \<in> set t" for p
    proof -
      from that m(2) obtain w where "(w, p) \<in> set ws" by auto
      from entry[OF m(1) this] show ?thesis
        using hdhd[OF m(1)] m(2) by (simp add: build_path_def)
    qed
    ultimately show ?thesis using len[OF m(1)] m(2) by simp
  qed
  have "map (\<lambda>t. hd (hd t)) (map ?tree r) = map fst r"
    using hdhd by (auto simp: comp_def)
  then have t2: "distinct (map (\<lambda>t. hd (hd t)) (map ?tree r))"
    using wf_bg_omap[OF wf] by (simp only: omap_def oset_distinct)
  have t3: "\<exists>t'\<in>set (map ?tree r). t' \<noteq> t \<and> last p \<in> last ` set t'"
    if t: "t \<in> set (map ?tree r)" and p: "p \<in> set t" for t p
  proof -
    from t obtain v ws where m: "(v, ws) \<in> set r" "t = map snd ws" by auto
    with p obtain w where w: "(w, p) \<in> set ws" by auto
    then have "look r v w \<noteq> None" using m(1) by (auto simp: look_eq_Some[OF wf])
    then have "2 \<le> card {v. look r v w \<noteq> None}" using st by (auto simp: stable_def)
    then have "\<not> {v. look r v w \<noteq> None} \<subseteq> {v}"
      using card_mono[of "{v}" "{v. look r v w \<noteq> None}"] by auto
    then obtain v' where v': "look r v' w \<noteq> None" "v' \<noteq> v" by auto
    then obtain ws' q where q: "(v', ws') \<in> set r" "(w, q) \<in> set ws'" by (auto simp: look_eq_Some[OF wf])
    have "map snd ws' \<noteq> t" using hdhd[OF m(1)] hdhd[OF q(1)] v'(2) m(2) by auto
    moreover have "last p = last q"
      using entry[OF m(1) w] entry[OF q] by (simp add: build_path_def)
    ultimately show ?thesis using q by (intro bexI[of _ "map snd ws'"]) force+
  qed
  have "findCycleJoin V bps = Some (map ?tree r)"
    by (simp add: findCycleJoin_def bg(1) r_def)
  with t1 t2 t3 show ?thesis unfolding cycle_join_def by blast
qed

lemma compareCycleJoin_ok:
  assumes "[] \<notin> set bps"
  shows "\<exists>b. compareCycleJoin a a' bps = Some b \<and>
    (b \<longrightarrow> (\<exists>t ts. findCycleJoin a bps = Some (t # ts)))"
proof -
  from findCycleJoin_ok[OF assms] obtain ta tb where t: "findCycleJoin a bps = Some ta"
    "findCycleJoin a' bps = Some tb" by blast
  show ?thesis
  proof (cases ta)
    case Nil
    with t show ?thesis by (auto simp: compareCycleJoin_def)
  next
    case (Cons t' ts)
    with t show ?thesis by (simp add: compareCycleJoin_def)
  qed
qed

section \<open>The probe side\<close>

lemma best_of_ok:
  assumes "[] \<notin> set bps"
  shows "\<exists>G' b. best_of bps P G = Some (G', b) \<and> (b \<longrightarrow> G' = G) \<and>
    (\<not> b \<longrightarrow> G' \<in> set P \<and> (\<exists>t ts. findCycleJoin (nodes G') bps = Some (t # ts)))"
proof -
  let ?body = "\<lambda>(G_probe, no_improvement) H.
        do { better \<leftarrow> compareCycleJoin (nodes H) (nodes G_probe) bps;
             Some (if better then (H, False) else (G_probe, no_improvement)) }"
  let ?I = "\<lambda>don (G', b). (b \<longrightarrow> G' = G) \<and>
    (\<not> b \<longrightarrow> G' \<in> set P \<and> (\<exists>t ts. findCycleJoin (nodes G') bps = Some (t # ts)))"
  have "\<exists>s. foldM ?body (G, True) P = Some s \<and> ?I P s"
  proof (rule foldM_rule[where I = ?I])
    fix don H rest s assume P: "P = don @ H # rest" and I: "?I don s"
    obtain G' b where s: "s = (G', b)" by (cases s)
    from compareCycleJoin_ok[OF assms, of "nodes H" "nodes G'"] obtain c where
      "compareCycleJoin (nodes H) (nodes G') bps = Some c"
      "c \<longrightarrow> (\<exists>t ts. findCycleJoin (nodes H) bps = Some (t # ts))" by blast
    with I s P show "\<exists>s'. ?body s H = Some s' \<and> ?I (don @ [H]) s'" by (cases c) auto
  qed simp
  then show ?thesis by (auto simp: best_of_def)
qed

text \<open>A candidate: a well-formed subgraph of the query graph over the nodes of the basic paths.\<close>

definition candidate :: "graph \<Rightarrow> path list \<Rightarrow> graph \<Rightarrow> bool" where
  "candidate Q bps G \<longleftrightarrow> wf_graph G \<and> set (nodes G) \<subseteq> \<Union> (set ` set bps) \<and>
     (\<forall>x. set (adj G x) \<subseteq> set (adj Q x))"

lemma path_candidate:
  assumes "p \<in> set bps" "distinct p" "\<And>x. path_nbrs p x \<subseteq> set (adj Q x)"
  shows "\<exists>G. pathToGraph p = Some G \<and> candidate Q bps G \<and> set (nodes G) = set p"
proof -
  from pathToGraph_ok[OF assms(2)] obtain G where "pathToGraph p = Some G" "wf_graph G"
    "set (nodes G) = set p" "\<forall>x. set (adj G x) = path_nbrs p x" by blast
  with assms(1,3) show ?thesis by (auto simp: candidate_def)
qed

lemma next_candidates_ok:
  assumes bps: "\<And>p. p \<in> set bps \<Longrightarrow> distinct p \<and> (\<forall>x. path_nbrs p x \<subseteq> set (adj Q x))"
    and G: "candidate Q bps G"
  shows "\<exists>P. next_candidates bps G = Some P \<and>
    (\<forall>H\<in>set P. candidate Q bps H \<and> set (nodes G) \<subset> set (nodes H))"
proof -
  let ?body = "\<lambda>P_next basic. do { G_basic \<leftarrow> pathToGraph basic;
             if isConnectedAndDifferent G G_basic
             then do { m \<leftarrow> merge G G_basic; Some (P_next @ [m]) } else Some P_next }"
  let ?I = "\<lambda>don P. \<forall>H\<in>set P. candidate Q bps H \<and> set (nodes G) \<subset> set (nodes H)"
  have "\<exists>P. foldM ?body [] bps = Some P \<and> ?I bps P"
  proof (rule foldM_rule[where I = ?I])
    fix don p rest P assume b: "bps = don @ p # rest" and I: "?I don P"
    then have p: "p \<in> set bps" by simp
    from path_candidate[OF p, of Q] bps[OF p] obtain B where B: "pathToGraph p = Some B"
      "candidate Q bps B" by blast
    from merge_ok[of G B] G B(2) obtain m where m: "merge G B = Some m" "wf_graph m"
      "set (nodes m) = set (nodes G) \<union> set (nodes B)" "\<forall>x. set (adj m x) = set (adj G x) \<union> set (adj B x)"
      by (auto simp: candidate_def)
    then have "candidate Q bps m" using G B(2) unfolding candidate_def by blast
    moreover have "set (nodes G) \<subset> set (nodes m)" if "isConnectedAndDifferent G B"
      using that m(3) by (auto simp: isConnectedAndDifferent_iff)
    ultimately show "\<exists>s'. ?body P p = Some s' \<and> ?I (don @ [p]) s'"
      using I B(1) m(1) by auto
  qed simp
  then show ?thesis by (simp add: next_candidates_def)
qed

text \<open>
  The search returns: every round that improves the probe side adds a node to it, and there are
  only the nodes of the basic paths to add.
\<close>

lemma grow_probe_ok:
  assumes bps: "\<And>p. p \<in> set bps \<Longrightarrow> p \<noteq> [] \<and> distinct p \<and> (\<forall>x. path_nbrs p x \<subseteq> set (adj Q x))"
    and "candidate Q bps G" "\<forall>H\<in>set P. candidate Q bps H \<and> set (nodes G) \<subset> set (nodes H)"
    and "G = empty_graph \<or> (\<exists>t ts. findCycleJoin (nodes G) bps = Some (t # ts))"
  shows "\<exists>G'. grow_probe bps P G = Some G' \<and> candidate Q bps G' \<and>
    (G' = empty_graph \<or> (\<exists>t ts. findCycleJoin (nodes G') bps = Some (t # ts)))"
  using assms(2-)
proof (induction "card (\<Union> (set ` set bps)) - card (set (nodes G))" arbitrary: G P rule: less_induct)
  case less
  have ne: "[] \<notin> set bps" using bps by blast
  from best_of_ok[OF ne, of P G] obtain G1 b where G1: "best_of bps P G = Some (G1, b)"
    "b \<longrightarrow> G1 = G" "\<not> b \<longrightarrow> G1 \<in> set P \<and> (\<exists>t ts. findCycleJoin (nodes G1) bps = Some (t # ts))"
    by blast
  show ?case
  proof (cases b)
    case True
    with G1 less.prems show ?thesis by (subst grow_probe.simps) simp
  next
    case False
    with G1(3) less.prems(2) have c1: "candidate Q bps G1" and sub: "set (nodes G) \<subset> set (nodes G1)"
      and tr: "\<exists>t ts. findCycleJoin (nodes G1) bps = Some (t # ts)" by auto
    from next_candidates_ok[OF _ c1] bps obtain N where N: "next_candidates bps G1 = Some N"
      "\<forall>H\<in>set N. candidate Q bps H \<and> set (nodes G1) \<subset> set (nodes H)" by blast
    show ?thesis
    proof (cases "N = []")
      case True
      with False G1(1) N(1) c1 tr show ?thesis by (subst grow_probe.simps) simp
    next
      case nonempty: False
      let ?U = "\<Union> (set ` set bps)"
      have "set (nodes G1) \<subseteq> ?U" using c1 by (simp add: candidate_def)
      then have "card (set (nodes G1)) \<le> card ?U" by (intro card_mono) auto
      moreover have "card (set (nodes G)) < card (set (nodes G1))"
        using sub by (intro psubset_card_mono) auto
      ultimately have dec: "card ?U - card (set (nodes G1)) < card ?U - card (set (nodes G))" by linarith
      from less.hyps[OF dec c1 N(2)] tr obtain G' where "grow_probe bps N G1 = Some G'"
        "candidate Q bps G'" "G' = empty_graph \<or> (\<exists>t ts. findCycleJoin (nodes G') bps = Some (t # ts))"
        by blast
      with nonempty False G1(1) N(1) show ?thesis by (subst grow_probe.simps) simp
    qed
  qed
qed

section \<open>Closing the probe side\<close>

lemma close_node_eq:
  assumes "\<And>c v c'. addEdge c u v = Some c' \<Longrightarrow> nodes c' = nodes c"
  shows "foldM (\<lambda>G v. if v \<in> set (nodes G) then addEdge G u v else Some G) c vs =
         foldM (\<lambda>G v. addEdge G u v) c (filter (\<lambda>v. v \<in> set (nodes c)) vs)"
proof (induction vs arbitrary: c)
  case (Cons v vs)
  show ?case using Cons.IH assms
    by (cases "addEdge c u v") auto
qed simp

lemma addEdge_nodes: "addEdge c u v = Some c' \<Longrightarrow> nodes c' = nodes c"
  by (auto simp: addEdge_def ku_assert_def split: if_splits bind_splits)

lemma close_probe_ok:
  assumes Q: "wf_graph Q" and G: "wf_graph G" and sub: "set (nodes G) \<subseteq> set (nodes Q)"
    and adj: "\<And>x. set (adj G x) \<subseteq> set (adj Q x)"
  shows "\<exists>G'. close_probe Q G = Some G' \<and> wf_graph G' \<and> nodes G' = nodes G \<and> induced Q G'"
proof -
  let ?body = "\<lambda>c u. do { vs \<leftarrow> getNeighbors Q u;
              foldM (\<lambda>G v. if v \<in> set (nodes G) then addEdge G u v else Some G) c vs }"
  let ?I = "\<lambda>don c. wf_graph c \<and> nodes c = nodes G \<and>
     (\<forall>x. set (adj c x) \<subseteq> set (adj Q x)) \<and>
     (\<forall>x\<in>set don. set (adj c x) = set (adj Q x) \<inter> set (nodes G))"
  have "\<exists>c. foldM ?body G (nodes G) = Some c \<and> ?I (nodes G) c"
  proof (rule foldM_rule[where I = ?I])
    fix don u rest c assume n: "nodes G = don @ u # rest" and I: "?I don c"
    then have u: "u \<in> set (nodes G)" by simp
    with sub Q have vs: "getNeighbors Q u = Some (adj Q u)" by (auto intro: getNeighbors_node)
    from addEdges_ok[of c u "filter (\<lambda>v. v \<in> set (nodes c)) (adj Q u)"] I u
    obtain c' where c': "foldM (\<lambda>G v. addEdge G u v) c (filter (\<lambda>v. v \<in> set (nodes c)) (adj Q u)) = Some c'"
      "wf_graph c'" "nodes c' = nodes c"
      "\<And>x. set (adj c' x) = set (adj c x) \<union> {y. (x = u \<and> y \<in> set (adj Q u) \<and> y \<in> set (nodes c)) \<or>
          (y = u \<and> x \<in> set (adj Q u) \<and> x \<in> set (nodes c))}" by auto
    have "set (adj c' x) \<subseteq> set (adj Q x)" for x
      using I c'(4)[of x] adj_sym[OF Q] by auto
    moreover have "set (adj c' x) = set (adj Q x) \<inter> set (nodes G)" if x: "x \<in> set (don @ [u])" for x
    proof
      show "set (adj c' x) \<subseteq> set (adj Q x) \<inter> set (nodes G)"
        using calculation adj_node'[OF c'(2)] c'(3) I by auto
      show "set (adj Q x) \<inter> set (nodes G) \<subseteq> set (adj c' x)"
        using x I c'(4)[of x] by auto
    qed
    ultimately show "\<exists>s'. ?body c u = Some s' \<and> ?I (don @ [u]) s'"
      using c'(1-3) I vs close_node_eq[of u, OF addEdge_nodes] by auto
  qed (use G adj in auto)
  then obtain c where c: "close_probe Q G = Some c" "?I (nodes G) c"
    by (auto simp: close_probe_def)
  with sub show ?thesis by (auto simp: induced_def)
qed

lemma basic_path_in_graph:
  assumes c: "wf_graph c" "induced Q c" and p: "basic_path c p"
  shows "p \<noteq> [] \<and> distinct p \<and> set p \<subseteq> set (nodes Q) \<and> (\<forall>x. path_nbrs p x \<subseteq> set (adj Q x))"
proof -
  have ch: "chain (adj c) p" and ends: "hd p \<noteq> last p" using p by (auto simp: basic_path_def)
  have ne: "p \<noteq> []" by (rule chainD(2)[OF ch])
  have d: "distinct p"
  proof (cases p)
    case (Cons x xs)
    then have "xs \<noteq> []" using chainD(1)[OF ch] by auto
    with Cons have "xs = butlast xs @ [last p]" by simp
    then have "set xs = insert (last p) (set (butlast xs))"
      by (metis list.simps(15) rotate1.simps(2) set_rotate1)
    moreover have "x \<notin> set (butlast xs)" using chainD(3)[OF ch] Cons \<open>xs \<noteq> []\<close> by simp
    ultimately show ?thesis using ends chainD(4)[OF ch] Cons by auto
  qed simp
  have adjc: "p ! Suc i \<in> set (adj c (p ! i))" if "Suc i < length p" for i
    using ch that by (auto simp: chain_def)
  have adjQ: "set (adj c x) \<subseteq> set (adj Q x)" for x
    using c adj_outside[OF c(1), of x] by (cases "x \<in> set (nodes c)") (auto simp: induced_def)
  have sym: "y \<in> set (adj c x) \<Longrightarrow> x \<in> set (adj c y)" for x y by (rule adj_sym[OF c(1)])
  have "path_nbrs p x \<subseteq> set (adj c x)" for x
  proof
    fix y assume "y \<in> path_nbrs p x"
    then obtain k where k: "0 < k" "k < length p"
      "(p ! (k - 1) = x \<and> p ! k = y) \<or> (p ! (k - 1) = y \<and> p ! k = x)" by (auto simp: path_nbrs_nth)
    from adjc[of "k - 1"] k(1,2) have "p ! k \<in> set (adj c (p ! (k - 1)))" by simp
    from k(3) this sym[OF this] show "y \<in> set (adj c x)" by auto
  qed
  moreover have "set p \<subseteq> set (nodes c)"
  proof
    fix x assume "x \<in> set p"
    then obtain i where i: "i < length p" "p ! i = x" by (auto simp: in_set_conv_nth)
    show "x \<in> set (nodes c)"
    proof (cases i)
      case 0
      with i adjc[of 0] chainD(1)[OF ch] adj_node[OF c(1)] show ?thesis by auto
    next
      case (Suc j)
      with i adjc[of j] adj_node'[OF c(1)] show ?thesis by auto
    qed
  qed
  ultimately show ?thesis using ne d adjQ c(2) unfolding induced_def by blast
qed

lemma path_graphs_ok:
  assumes "\<And>p. p \<in> set bps \<Longrightarrow> distinct p \<and> p \<noteq> [] \<and> (\<forall>x. path_nbrs p x \<subseteq> set (adj Q x))"
  shows "\<exists>P. foldM (\<lambda>P basic. do { G \<leftarrow> pathToGraph basic; Some (P @ [G]) }) [] bps = Some P \<and>
    (\<forall>H\<in>set P. candidate Q bps H \<and> nodes H \<noteq> [])"
proof (rule foldM_rule[where I = "\<lambda>don P. \<forall>H\<in>set P. candidate Q bps H \<and> nodes H \<noteq> []"])
  fix don p rest P assume b: "bps = don @ p # rest"
    and I: "\<forall>H\<in>set P. candidate Q bps H \<and> nodes H \<noteq> []"
  then have "p \<in> set bps" by simp
  from path_candidate[OF this, of Q] assms[OF this] obtain G where
    "pathToGraph p = Some G" "candidate Q bps G" "set (nodes G) = set p" "p \<noteq> []" by blast
  with I show "\<exists>s'. do { G \<leftarrow> pathToGraph p; Some (P @ [G]) } = Some s' \<and>
     (\<forall>H\<in>set s'. candidate Q bps H \<and> nodes H \<noteq> [])" by auto
qed simp

lemma candidate_empty [simp]: "candidate Q bps empty_graph"
  by (auto simp: candidate_def empty_graph_def wf_graph_iff at_key_def)

theorem findBestCycleJoin_spec:
  assumes Q: "wf_graph Q" "loopfree Q" and shuffle: "\<And>ps. set (shuffle ps) = set ps"
  shows "\<exists>G trees bps. findBestCycleJoin shuffle Q flag = Some (G, trees) \<and> wf_graph G \<and>
    induced Q G \<and> (trees = [] \<longleftrightarrow> nodes G = []) \<and> cycle_join (nodes G) bps trees \<and>
    (\<exists>c. prune Q = Some c \<and> set bps = {q. basic_path c q \<and> hd q < last q})"
proof -
  from findBasicCycleIntersection_ok[OF Q] prune_ok[OF Q] obtain c ps where c: "prune Q = Some c"
    "findBasicCycleIntersection Q = Some ps" "set ps = {q. basic_path c q \<and> hd q < last q}"
    "wf_graph c" "induced Q c" by auto
  define bps where "bps = (if flag then shuffle ps else ps)"
  have sb: "set bps = {q. basic_path c q \<and> hd q < last q}" using shuffle c(3) by (simp add: bps_def)
  have ok: "p \<noteq> [] \<and> distinct p \<and> set p \<subseteq> set (nodes Q) \<and> (\<forall>x. path_nbrs p x \<subseteq> set (adj Q x))"
    if "p \<in> set bps" for p using basic_path_in_graph[OF c(4,5)] that sb by blast
  then have ne: "[] \<notin> set bps" by blast
  have empty: "findCycleJoin [] bps = Some []"
  proof -
    from findCycleJoin_ok[OF ne, of "[]"] obtain trees where t: "findCycleJoin [] bps = Some trees"
      "cycle_join [] bps trees" by blast
    have "trees = []"
    proof (rule ccontr)
      assume "trees \<noteq> []"
      with t(2) have "2 \<le> length (hd trees)" "\<forall>p\<in>set (hd trees). build_path [] bps (hd (hd (hd trees))) (last p) p"
        unfolding cycle_join_def by auto
      then show False by (cases "hd trees") (auto simp: build_path_def)
    qed
    with t show ?thesis by simp
  qed
  show ?thesis
  proof (cases "ps = []")
    case True
    with c shuffle sb show ?thesis
      by (auto simp: findBestCycleJoin_def empty_graph_def wf_graph_iff at_key_def induced_def cycle_join_def
          intro!: exI[of _ bps])
  next
    case False
    from path_graphs_ok[of bps Q] ok obtain P where
      P: "foldM (\<lambda>P basic. do { G \<leftarrow> pathToGraph basic; Some (P @ [G]) }) [] bps = Some P"
      "\<forall>H\<in>set P. candidate Q bps H \<and> nodes H \<noteq> []" by blast
    then have "\<forall>H\<in>set P. candidate Q bps H \<and> set (nodes empty_graph) \<subset> set (nodes H)"
      by (auto simp: empty_graph_def)
    from grow_probe_ok[OF _ candidate_empty this] ok obtain G where G: "grow_probe bps P empty_graph = Some G"
      "candidate Q bps G" "G = empty_graph \<or> (\<exists>t ts. findCycleJoin (nodes G) bps = Some (t # ts))" by blast
    have "set (nodes G) \<subseteq> set (nodes Q)" using G(2) ok unfolding candidate_def by blast
    with G(2) close_probe_ok[OF Q(1), of G] obtain G' where G': "close_probe Q G = Some G'" "wf_graph G'"
      "nodes G' = nodes G" "induced Q G'" by (auto simp: candidate_def)
    from findCycleJoin_ok[OF ne, of "nodes G"] obtain trees where t: "findCycleJoin (nodes G) bps = Some trees"
      "cycle_join (nodes G) bps trees" by blast
    have "findBestCycleJoin shuffle Q flag = Some (G', trees)"
      using c(2) False P(1) G(1) G'(1,3) t(1)
      by (simp add: findBestCycleJoin_def bps_def Let_def cong: if_cong)
    moreover have "trees = [] \<longleftrightarrow> nodes G' = []"
      using G(3) G'(3) t(1) empty by (auto simp: empty_graph_def)
    ultimately show ?thesis using G' t(2) c(1) sb by auto
  qed
qed

section \<open>Properties\<close>

text \<open>The complete graph on four nodes, which has a cycle join.\<close>

definition K4 :: graph where
  "K4 = \<lparr>nodes = [''a'', ''b'', ''c'', ''d''],
     edges = [(''a'', [''b'', ''c'', ''d'']), (''b'', [''a'', ''c'', ''d'']),
       (''c'', [''a'', ''b'', ''d'']), (''d'', [''a'', ''b'', ''c''])]\<rparr>"

definition K4_building :: building_graphs where
  "K4_building = [(''a'', [(''c'', [''a'', ''c'']), (''d'', [''a'', ''d''])]),
     (''b'', [(''c'', [''b'', ''c'']), (''d'', [''b'', ''d'']), (''e'', [''b'', ''e''])])]"

lemma supported_square:
  assumes "look bg a c \<noteq> None" "look bg a d \<noteq> None" "look bg b c \<noteq> None" "look bg b d \<noteq> None"
    and "a \<noteq> b" "c \<noteq> d"
  shows "supported bg {(a, c), (a, d), (b, c), (b, d)}"
  unfolding supported_def using assms by auto

text \<open>
  C3: the fixpoint loop of \<open>findCycleJoin\<close> terminates and computes the greatest stable part of
  the building graphs: every probe node keeps at least two paths, every intersection node is
  reached from at least two probe nodes, nothing is added, and every set of pairs that support
  each other survives.
\<close>

theorem prune_weak_greatest_stable:
  assumes "wf_bg bg"
  shows "stable (prune_weak bg) \<and>
    (\<forall>v w q. look (prune_weak bg) v w = Some q \<longrightarrow> look bg v w = Some q) \<and>
    (\<forall>S. supported bg S \<longrightarrow> supported (prune_weak bg) S)"
  using prune_weak_ok[OF assms] by blast

theorem prune_weak_greatest_stable_witness:
  "stable (prune_weak K4_building) \<and>
    supported (prune_weak K4_building) {(''a'', ''c''), (''a'', ''d''), (''b'', ''c''), (''b'', ''d'')}"
proof -
  have "wf_bg K4_building" by code_simp
  note greatest = prune_weak_greatest_stable[OF this]
  have "supported K4_building {(''a'', ''c''), (''a'', ''d''), (''b'', ''c''), (''b'', ''d'')}"
    by (rule supported_square) code_simp+
  with greatest show ?thesis by simp
qed

text \<open>
  C2: \<open>findCycleJoin\<close> never trips its assertion on non-empty basic paths, and its trees form a
  cycle join: at least two build paths per tree, all from one probe node, of at most the length
  limit, leaving the probe side at once, to different intersection nodes; one tree per probe node;
  every intersection node shared by two trees.
\<close>

theorem findCycleJoin_is_cycle_join:
  assumes "[] \<notin> set bps"
  shows "\<exists>trees. findCycleJoin V bps = Some trees \<and> cycle_join V bps trees"
  by (rule findCycleJoin_ok) fact

theorem findCycleJoin_is_cycle_join_witness:
  "\<exists>trees. findCycleJoin [''a'', ''b''] [[''a'', ''c''], [''a'', ''d''], [''b'', ''c''], [''b'', ''d'']] = Some trees \<and>
    cycle_join [''a'', ''b''] [[''a'', ''c''], [''a'', ''d''], [''b'', ''c''], [''b'', ''d'']] trees"
  by (rule findCycleJoin_is_cycle_join) simp

text \<open>
  C35: \<open>compareCycleJoin\<close> is not an order: it goes on to the second criterion even when the first
  one already decides against \<open>a\<close>, so two probe sides can each be better than the other.
\<close>

theorem compareCycleJoin_not_asymmetric:
  "\<exists>a b bps. [] \<notin> set bps \<and> compareCycleJoin a b bps = Some True \<and> compareCycleJoin b a bps = Some True"
proof -
  let ?bps = "[[''a'', ''k'', ''x''], [''a'', ''l'', ''y''], [''a'', ''m'', ''z''],
     [''b'', ''n'', ''x''], [''b'', ''o'', ''y''], [''b'', ''p'', ''z''],
     [''c'', ''v''], [''c'', ''w''], [''d'', ''v''], [''d'', ''w'']]"
  have "[] \<notin> set ?bps" "compareCycleJoin [''a'', ''b''] [''c'', ''d''] ?bps = Some True"
    "compareCycleJoin [''c'', ''d''] [''a'', ''b''] ?bps = Some True" by code_simp+
  then show ?thesis by blast
qed

text \<open>
  C1: \<open>findBestCycleJoin\<close> returns on every loop-free query graph, for every permutation
  \<open>std::shuffle\<close> may pick. The probe side is an induced subgraph of the query graph, the trees
  form a cycle join over the basic paths of its 2-core, and there are no trees exactly when the
  probe side is empty.
\<close>

theorem findBestCycleJoin_correct:
  assumes "wf_graph Q" "loopfree Q" "\<And>ps. set (shuffle ps) = set ps"
  shows "\<exists>G trees bps. findBestCycleJoin shuffle Q flag = Some (G, trees) \<and> wf_graph G \<and>
    induced Q G \<and> (trees = [] \<longleftrightarrow> nodes G = []) \<and> cycle_join (nodes G) bps trees \<and>
    (\<exists>c. prune Q = Some c \<and> set bps = {q. basic_path c q \<and> hd q < last q})"
  by (rule findBestCycleJoin_spec) fact+

theorem findBestCycleJoin_correct_witness:
  "\<exists>G trees bps. findBestCycleJoin rev K4 True = Some (G, trees) \<and> wf_graph G \<and>
    induced K4 G \<and> (trees = [] \<longleftrightarrow> nodes G = []) \<and> cycle_join (nodes G) bps trees \<and>
    (\<exists>c. prune K4 = Some c \<and> set bps = {q. basic_path c q \<and> hd q < last q})"
proof -
  have "wf_graph K4" "loopfree K4" by code_simp+
  then show ?thesis by (rule findBestCycleJoin_correct) simp
qed

text \<open>The planner finds a cycle join of the complete graph on four nodes: one probe edge, two trees.\<close>

lemma K4_cycle_join:
  "map_option (\<lambda>(G, trees). (nodes G, trees)) (findBestCycleJoin rev K4 False) =
     Some ([''a'', ''b''], [[[''a'', ''c''], [''a'', ''d'']], [[''b'', ''c''], [''b'', ''d'']]])"
  by code_simp

end
