(* ===== verification/NodeID.thy ===== *)
theory NodeID
  imports Prelude "HOL-Library.Word"
begin

text \<open>
  Internal identifiers (\<open>common/types/types.cpp\<close>): an offset in a table, compared by table
  first and by offset second. The comparison operators are translated one by one and shown to be
  the operations of one linear order, which is what the merge of sorted identifier lists needs.
\<close>

section \<open>Identifiers and their comparison operators\<close>

datatype internalID = InternalID (offset: "64 word") (tableID: "64 word")

type_synonym nodeID = internalID

definition INVALID_OFFSET :: "64 word" where
  "INVALID_OFFSET = - 1"

definition INVALID_TABLE_ID :: "64 word" where
  "INVALID_TABLE_ID = - 1"

definition default_internalID :: internalID where
  "default_internalID = InternalID INVALID_OFFSET INVALID_TABLE_ID"

definition id_eq :: "internalID \<Rightarrow> internalID \<Rightarrow> bool" where
  "id_eq l r \<longleftrightarrow> offset l = offset r \<and> tableID l = tableID r"

definition id_neq :: "internalID \<Rightarrow> internalID \<Rightarrow> bool" where
  "id_neq l r \<longleftrightarrow> offset l \<noteq> offset r \<or> tableID l \<noteq> tableID r"

definition id_gt :: "internalID \<Rightarrow> internalID \<Rightarrow> bool" where
  "id_gt l r \<longleftrightarrow> tableID l > tableID r \<or> tableID l = tableID r \<and> offset l > offset r"

definition id_ge :: "internalID \<Rightarrow> internalID \<Rightarrow> bool" where
  "id_ge l r \<longleftrightarrow> tableID l > tableID r \<or> tableID l = tableID r \<and> offset l \<ge> offset r"

definition id_lt :: "internalID \<Rightarrow> internalID \<Rightarrow> bool" where
  "id_lt l r \<longleftrightarrow> tableID l < tableID r \<or> tableID l = tableID r \<and> offset l < offset r"

definition id_le :: "internalID \<Rightarrow> internalID \<Rightarrow> bool" where
  "id_le l r \<longleftrightarrow> tableID l < tableID r \<or> tableID l = tableID r \<and> offset l \<le> offset r"

section \<open>The order\<close>

lemma internalID_eq_iff: "l = r \<longleftrightarrow> offset l = offset r \<and> tableID l = tableID r"
  by (cases l; cases r) auto

instantiation internalID :: linorder
begin

definition less_eq_internalID :: "internalID \<Rightarrow> internalID \<Rightarrow> bool" where
  "less_eq_internalID l r = id_le l r"

definition less_internalID :: "internalID \<Rightarrow> internalID \<Rightarrow> bool" where
  "less_internalID l r = id_lt l r"

instance
  by standard (auto simp: less_eq_internalID_def less_internalID_def id_le_def id_lt_def internalID_eq_iff)

end

text \<open>All six operators in terms of the linear order.\<close>

lemma id_ops [simp]:
  "id_eq l r \<longleftrightarrow> l = r" "id_neq l r \<longleftrightarrow> l \<noteq> r" "id_lt l r \<longleftrightarrow> l < r" "id_le l r \<longleftrightarrow> l \<le> r"
  "id_gt l r \<longleftrightarrow> r < l" "id_ge l r \<longleftrightarrow> r \<le> l"
  unfolding id_eq_def id_neq_def id_gt_def id_ge_def less_internalID_def less_eq_internalID_def
    id_lt_def id_le_def internalID_eq_iff by argo+

text \<open>Within one table the order is the order of the offsets.\<close>

lemma same_table_le: "tableID l = tableID r \<Longrightarrow> l \<le> r \<longleftrightarrow> offset l \<le> offset r"
  unfolding less_eq_internalID_def id_le_def by auto

lemma sorted_offsets:
  assumes "sorted (map offset xs)" "\<And>x. x \<in> set xs \<Longrightarrow> tableID x = t"
  shows "sorted xs"
  using assms by (induction xs) (auto simp: same_table_le)

end
