(* ===== verification/TupleCursor.thy ===== *)
theory TupleCursor
  imports NodeID
begin

text \<open>
  The cursor of \<open>processor/operator/intersect/intersect_multiway.cpp\<close> that walks over the
  neighbour identifiers of one probed key. The identifiers come in several tuples (one per
  overflow block), so a cursor is a pair of indices. An access outside the tuples is \<open>None\<close>.

  The interface \<open>id_cursor\<close> is what the intersection relies on: a cursor stands for the list of
  the identifiers that are left. The two loops that run a cursor forward are verified against the
  interface, and \<open>TupleCursor\<close> is its implementation.
\<close>

section \<open>struct TupleCursor\<close>

record TupleCursor =
  tuple_idx :: nat
  ele_idx :: nat
  tuples :: "nodeID list list"
  finished :: bool

definition new_TupleCursor :: "nodeID list list \<Rightarrow> TupleCursor" where
  "new_TupleCursor ts = \<lparr>tuple_idx = 0, ele_idx = 0, tuples = ts, finished = False\<rparr>"

definition hasFinished :: "TupleCursor \<Rightarrow> bool" where
  "hasFinished c = finished c"

text \<open>The loop that looks for the next tuple with an element; the flag says that there is none.\<close>

function next_tuple :: "nodeID list list \<Rightarrow> nat \<Rightarrow> nat \<times> bool" where
  "next_tuple ts i =
     (if i + 1 + 1 > length ts then (i + 1, True)
      else if length (ts ! (i + 1)) = 0 then next_tuple ts (i + 1)
      else (i + 1, False))"
  by auto
termination
  by (relation "measure (\<lambda>(ts, i). length ts - i)") auto

declare next_tuple.simps [simp del]

definition gotoNext :: "TupleCursor \<Rightarrow> TupleCursor option" where
  "gotoNext c =
     do { ku_assert (\<not> finished c \<and> tuple_idx c < length (tuples c));
          Some (if ele_idx c + 1 < length (tuples c ! tuple_idx c) then c\<lparr>ele_idx := ele_idx c + 1\<rparr>
                else case next_tuple (tuples c) (tuple_idx c) of
                  (i, fin) \<Rightarrow> c\<lparr>tuple_idx := i, ele_idx := 0, finished := fin\<rparr>) }"

definition getEleOfCurrentTuple :: "TupleCursor \<Rightarrow> nat \<Rightarrow> nodeID option" where
  "getEleOfCurrentTuple c idx =
     (if tuple_idx c < length (tuples c) \<and> idx < length (tuples c ! tuple_idx c)
      then Some (tuples c ! tuple_idx c ! idx) else None)"

definition getCurrentID :: "TupleCursor \<Rightarrow> nodeID option" where
  "getCurrentID c = do { ku_assert (\<not> finished c); getEleOfCurrentTuple c (ele_idx c) }"

partial_function (option) goUtil :: "nodeID \<Rightarrow> TupleCursor \<Rightarrow> TupleCursor option" where
  "goUtil target c =
     Option.bind (gotoNext c) (\<lambda>c'.
       if hasFinished c' then Some c'
       else Option.bind (getCurrentID c') (\<lambda>x. if id_ge x target then Some c' else goUtil target c'))"

declare goUtil.simps [code]

section \<open>The interface\<close>

text \<open>A cursor over a linear order: the list that is left, its head, and the step to its tail.\<close>

locale id_cursor =
  fixes inv :: "'c \<Rightarrow> bool" and rest :: "'c \<Rightarrow> 'a::linorder list"
    and current :: "'c \<Rightarrow> 'a option" and forward :: "'c \<Rightarrow> 'c option" and fin :: "'c \<Rightarrow> bool"
  assumes fin_iff: "inv c \<Longrightarrow> fin c \<longleftrightarrow> rest c = []"
    and current_hd: "inv c \<Longrightarrow> rest c = x # xs \<Longrightarrow> current c = Some x"
    and forward_tl: "inv c \<Longrightarrow> rest c = x # xs \<Longrightarrow> \<exists>c'. forward c = Some c' \<and> inv c' \<and> rest c' = xs"
begin

text \<open>Running forward to the first element that is not below a target.\<close>

lemma seek:
  assumes go: "\<And>c. go c = Option.bind (forward c) (\<lambda>c'. if fin c' then Some c'
      else Option.bind (current c') (\<lambda>x. if t \<le> x then Some c' else go c'))"
    and c: "inv c" "rest c = x # xs"
  shows "\<exists>c'. go c = Some c' \<and> inv c' \<and> rest c' = dropWhile (\<lambda>y. y < t) xs"
  using c
proof (induction xs arbitrary: c x)
  case Nil
  from forward_tl[OF Nil] obtain c' where c': "forward c = Some c'" "inv c'" "rest c' = []" by blast
  then show ?case using go[of c] by (simp add: fin_iff)
next
  case (Cons y ys)
  from forward_tl[OF Cons.prems] obtain c' where
    c': "forward c = Some c'" "inv c'" "rest c' = y # ys" by blast
  show ?case
  proof (cases "t \<le> y")
    case True
    with c' show ?thesis using go[of c] by (simp add: fin_iff current_hd)
  next
    case False
    then have "go c = go c'" using c' go[of c] by (simp add: fin_iff current_hd)
    with Cons.IH[OF c'(2,3)] False show ?thesis by (simp add: not_le)
  qed
qed

text \<open>Running over the elements that equal a value, counting them.\<close>

lemma run:
  assumes count: "\<And>n c. cnt n c = (if fin c then Some (n, c)
      else Option.bind (current c) (\<lambda>x. if x = v then Option.bind (forward c) (cnt (Suc n)) else Some (n, c)))"
    and c: "inv c"
  shows "\<exists>c'. cnt n c = Some (n + length (takeWhile (\<lambda>x. x = v) (rest c)), c') \<and> inv c' \<and>
    rest c' = dropWhile (\<lambda>x. x = v) (rest c)"
  using c
proof (induction "rest c" arbitrary: c n)
  case Nil
  then show ?case using count[of n c] fin_iff[OF Nil.prems] by simp
next
  case (Cons y ys)
  note eq = Cons.hyps(2)[symmetric]
  from forward_tl[OF Cons.prems eq] obtain c' where
    c': "forward c = Some c'" "inv c'" "rest c' = ys" by blast
  have cnt: "cnt n c = (if y = v then cnt (Suc n) c' else Some (n, c))"
    using count[of n c] fin_iff[OF Cons.prems] current_hd[OF Cons.prems eq] c'(1) eq by simp
  show ?case
  proof (cases "y = v")
    case True
    with cnt eq Cons.hyps(1)[of c' "Suc n"] c' show ?thesis by simp
  next
    case False
    with cnt eq Cons.prems show ?thesis by simp
  qed
qed

end

section \<open>TupleCursor implements the interface\<close>

text \<open>
  The identifiers that are left, and the invariant: a cursor that has not finished points to an
  element.
\<close>

definition remaining :: "TupleCursor \<Rightarrow> nodeID list" where
  "remaining c = (if finished c then []
     else drop (ele_idx c) (tuples c ! tuple_idx c) @ concat (drop (tuple_idx c + 1) (tuples c)))"

definition cursor_ok :: "TupleCursor \<Rightarrow> bool" where
  "cursor_ok c \<longleftrightarrow> (\<not> finished c \<longrightarrow>
     tuple_idx c < length (tuples c) \<and> ele_idx c < length (tuples c ! tuple_idx c))"

lemma next_tuple_rest:
  assumes "next_tuple ts i = (k, fin)"
  shows "(fin \<longrightarrow> concat (drop (i + 1) ts) = []) \<and>
    (\<not> fin \<longrightarrow> k < length ts \<and> ts ! k \<noteq> [] \<and>
      concat (drop (i + 1) ts) = ts ! k @ concat (drop (k + 1) ts))"
  using assms
proof (induction ts i rule: next_tuple.induct)
  case (1 ts i)
  show ?case
  proof (cases "i + 1 + 1 > length ts")
    case True
    with 1(2) show ?thesis by (auto simp: next_tuple.simps[of ts i])
  next
    case False
    then have d: "drop (i + 1) ts = ts ! (i + 1) # drop (i + 1 + 1) ts"
      using Cons_nth_drop_Suc[of "i + 1" ts] by simp
    show ?thesis
    proof (cases "length (ts ! (i + 1)) = 0")
      case empty: True
      with False 1(2) have "next_tuple ts (i + 1) = (k, fin)" by (simp add: next_tuple.simps[of ts i])
      from 1(1)[OF False empty this] d empty show ?thesis by simp
    next
      case nonempty: False
      with False 1(2) have "k = i + 1" "\<not> fin" by (auto simp: next_tuple.simps[of ts i])
      with nonempty False d show ?thesis by simp
    qed
  qed
qed

interpretation tc: id_cursor cursor_ok remaining getCurrentID gotoNext hasFinished
proof
  fix c show "cursor_ok c \<Longrightarrow> hasFinished c \<longleftrightarrow> remaining c = []"
    by (auto simp: cursor_ok_def hasFinished_def remaining_def)
next
  fix c x xs assume c: "cursor_ok c" "remaining c = x # xs"
  then have fin: "\<not> finished c" by (auto simp: remaining_def)
  then have idx: "tuple_idx c < length (tuples c)" "ele_idx c < length (tuples c ! tuple_idx c)"
    using c by (auto simp: cursor_ok_def)
  then have d: "drop (ele_idx c) (tuples c ! tuple_idx c) =
      tuples c ! tuple_idx c ! ele_idx c # drop (ele_idx c + 1) (tuples c ! tuple_idx c)"
    by (simp add: Cons_nth_drop_Suc)
  show "getCurrentID c = Some x"
    using c(2) fin idx d by (simp add: getCurrentID_def getEleOfCurrentTuple_def remaining_def ku_assert_def)
  show "\<exists>c'. gotoNext c = Some c' \<and> cursor_ok c' \<and> remaining c' = xs"
  proof (cases "ele_idx c + 1 < length (tuples c ! tuple_idx c)")
    case True
    with c(2) fin idx d show ?thesis
      by (auto simp: gotoNext_def remaining_def cursor_ok_def ku_assert_def)
  next
    case False
    then have "drop (ele_idx c + 1) (tuples c ! tuple_idx c) = []" by simp
    with c(2) fin d have xs: "xs = concat (drop (tuple_idx c + 1) (tuples c))" by (simp add: remaining_def)
    obtain i f where n: "next_tuple (tuples c) (tuple_idx c) = (i, f)" by (cases "next_tuple (tuples c) (tuple_idx c)")
    from next_tuple_rest[OF n] False fin idx n xs show ?thesis
      by (auto simp: gotoNext_def remaining_def cursor_ok_def ku_assert_def)
  qed
qed

lemma new_TupleCursor_ok:
  assumes "ts \<noteq> []" "[] \<notin> set ts"
  shows "cursor_ok (new_TupleCursor ts) \<and> remaining (new_TupleCursor ts) = concat ts"
  using assms by (cases ts) (auto simp: new_TupleCursor_def cursor_ok_def remaining_def)

text \<open>\<open>goUtil\<close> returns, at the first identifier that is not below the target.\<close>

lemma goUtil_ok:
  assumes "cursor_ok c" "remaining c = x # xs"
  shows "\<exists>c'. goUtil t c = Some c' \<and> cursor_ok c' \<and> remaining c' = dropWhile (\<lambda>y. y < t) xs"
  by (rule tc.seek[OF _ assms]) (subst goUtil.simps, simp only: id_ops)

end
