(* ===== verification/MultiwayIntersect.thy ===== *)
theory MultiwayIntersect
  imports TupleCursor
begin

text \<open>
  The intersection of the neighbour lists of one right-side node
  (\<open>IntersectMultiway::multiway_intersect_on_sorted_tuples\<close>): the cursors are run forward to a
  common target, every common identifier is emitted as often as the lists have combinations of it,
  and the results fill a cache of vectors of a fixed capacity.

  The capacity of a vector (\<open>DEFAULT_VECTOR_CAPACITY\<close>, set at build time) is a parameter.
\<close>

section \<open>Vectors of identifiers\<close>

text \<open>
  A value vector with its buffer and the size of its selection vector. The buffer of a new vector
  is not initialised; its entries are read only below the size.
\<close>

record id_vector =
  vdata :: "nodeID list"
  selSize :: nat

definition new_vector :: "nat \<Rightarrow> id_vector" where
  "new_vector cap = \<lparr>vdata = replicate cap default_internalID, selSize = 0\<rparr>"

definition fill_n :: "'a list \<Rightarrow> nat \<Rightarrow> nat \<Rightarrow> 'a \<Rightarrow> 'a list" where
  "fill_n buf pos n v = take pos buf @ replicate n v @ drop (pos + n) buf"

definition contents :: "id_vector \<Rightarrow> nodeID list" where
  "contents v = take (selSize v) (vdata v)"

section \<open>The loops of the intersection\<close>

text \<open>The inner loop for one cursor: it misses the target, reaches it, or is exhausted.\<close>

datatype outcome = Missed nodeID | Found | Exhausted

partial_function (option) advance :: "nodeID \<Rightarrow> TupleCursor \<Rightarrow> (TupleCursor \<times> outcome) option" where
  "advance target c =
     Option.bind (getCurrentID c) (\<lambda>cur_id.
       if id_gt cur_id target then Some (c, Missed cur_id)
       else if id_eq cur_id target then Some (c, Found)
       else Option.bind (goUtil target c) (\<lambda>c'.
         if hasFinished c' then Some (c', Exhausted) else advance target c'))"

declare advance.simps [code]

text \<open>All cursors, in order, up to the first that changes the target or is exhausted.\<close>

fun forward_all :: "nodeID \<Rightarrow> TupleCursor list \<Rightarrow> (TupleCursor list \<times> nodeID \<times> bool \<times> bool) option" where
  "forward_all target [] = Some ([], target, False, False)"
| "forward_all target (c # cs) =
     do { (c', r) \<leftarrow> advance target c;
          case r of
            Missed t \<Rightarrow> Some (c' # cs, t, True, False)
          | Exhausted \<Rightarrow> Some (c' # cs, target, False, True)
          | Found \<Rightarrow> do { (cs', q) \<leftarrow> forward_all target cs; Some (c' # cs', q) } }"

text \<open>The repeated values of one cursor.\<close>

partial_function (option) count_equal :: "nodeID \<Rightarrow> nat \<Rightarrow> TupleCursor \<Rightarrow> (nat \<times> TupleCursor) option" where
  "count_equal v n c =
     (if hasFinished c then Some (n, c)
      else Option.bind (getCurrentID c) (\<lambda>x.
        if id_eq x v then Option.bind (gotoNext c) (\<lambda>c'. count_equal v (Suc n) c')
        else Some (n, c)))"

declare count_equal.simps [code]

text \<open>All cursors move past the common value; the new target is the largest current value.\<close>

fun consume :: "nodeID \<Rightarrow> TupleCursor list \<Rightarrow> nat \<Rightarrow> nodeID \<Rightarrow> bool \<Rightarrow>
    (TupleCursor list \<times> nat \<times> nodeID \<times> bool) option" where
  "consume v [] multiplied_count target fin = Some ([], multiplied_count, target, fin)"
| "consume v (c # cs) multiplied_count target fin =
     do { c1 \<leftarrow> gotoNext c;
          (n, c2) \<leftarrow> count_equal v 1 c1;
          (target', fin') \<leftarrow>
            (if hasFinished c2 then Some (target, True)
             else do { current \<leftarrow> getCurrentID c2;
                       Some (if id_gt current target then current else target, fin) });
          (cs', r) \<leftarrow> consume v cs (multiplied_count * n) target' fin';
          Some (c2 # cs', r) }"

text \<open>The loop that fills the result cache with a value, from the vector it stopped at.\<close>

partial_function (option) emit :: "nat \<Rightarrow> nodeID \<Rightarrow> nat \<Rightarrow> id_vector list \<Rightarrow> nat \<Rightarrow>
    (id_vector list \<times> nat) option" where
  "emit cap v multiplied_count cache k =
     (if multiplied_count = 0 then Some (cache, k)
      else if length cache \<le> k then None
      else let curSize = selSize (cache ! k); movableSize = cap - curSize in
        if movableSize \<ge> multiplied_count then
          Some (cache[k := \<lparr>vdata = fill_n (vdata (cache ! k)) curSize multiplied_count v,
                            selSize = curSize + multiplied_count\<rparr>], k)
        else
          (let cache1 = cache[k := \<lparr>vdata = fill_n (vdata (cache ! k)) curSize movableSize v, selSize = cap\<rparr>];
               cache2 = (if k + 1 = length cache1 then cache1 @ [new_vector cap] else cache1)
           in emit cap v (multiplied_count - movableSize) cache2 (k + 1)))"

declare emit.simps [code]

partial_function (option) intersect_loop ::
  "nat \<Rightarrow> TupleCursor list \<Rightarrow> nodeID \<Rightarrow> id_vector list \<Rightarrow> nat \<Rightarrow> bool \<Rightarrow> (id_vector list \<times> bool) option" where
  "intersect_loop cap cursors target cache k emptyIntersect =
     Option.bind (forward_all target cursors) (\<lambda>(cursors1, target1, target_changed, finished1).
       if finished1 then Some (cache, emptyIntersect)
       else if target_changed then intersect_loop cap cursors1 target1 cache k emptyIntersect
       else Option.bind (consume target1 cursors1 1 target1 False) (\<lambda>(cursors2, multiplied_count, target2, finished2).
         Option.bind (emit cap target1 multiplied_count cache k) (\<lambda>(cache2, k2).
           if finished2 then Some (cache2, False)
           else intersect_loop cap cursors2 target2 cache2 k2 False)))"

declare intersect_loop.simps [code]

text \<open>The lists of the connected left-side nodes, in order, and the result cache of the node.\<close>

definition multiway_intersect_on_sorted_tuples ::
  "nat \<Rightarrow> nodeID list list list \<Rightarrow> id_vector list \<Rightarrow> (id_vector list \<times> bool) option" where
  "multiway_intersect_on_sorted_tuples cap probed cache =
     (let cursors = map new_TupleCursor probed; cache0 = map (selSize_update (\<lambda>_. 0)) cache in
      do { ku_assert (cursors \<noteq> []);
           target \<leftarrow> getCurrentID (hd cursors);
           intersect_loop cap cursors target cache0 0 True })"


section \<open>One cursor\<close>

lemma hd_dropWhile_ge:
  fixes t :: "'a::linorder"
  shows "dropWhile (\<lambda>y. y < t) xs = z # zs \<Longrightarrow> t \<le> z"
  using hd_dropWhile[of "\<lambda>y. y < t" xs] by auto

lemma advance_ok:
  assumes c: "cursor_ok c" "remaining c = x # xs"
  shows "\<exists>c' r. advance t c = Some (c', r) \<and> cursor_ok c' \<and>
    remaining c' = dropWhile (\<lambda>y. y < t) (x # xs) \<and>
    (case r of Missed t' \<Rightarrow> t < t' \<and> (\<exists>ys. remaining c' = t' # ys)
     | Found \<Rightarrow> (\<exists>ys. remaining c' = t # ys) | Exhausted \<Rightarrow> remaining c' = [])"
proof -
  note cur = tc.current_hd[OF c]
  consider "t < x" | "x = t" | "x < t" by (rule linorder_cases) auto
  then show ?thesis
  proof cases
    case 1
    with cur c show ?thesis by (subst advance.simps) auto
  next
    case 2
    with cur c show ?thesis by (subst advance.simps) auto
  next
    case 3
    from goUtil_ok[OF c, of t] obtain c' where c': "goUtil t c = Some c'" "cursor_ok c'"
      "remaining c' = dropWhile (\<lambda>y. y < t) xs" by blast
    have adv: "advance t c = (if hasFinished c' then Some (c', Exhausted) else advance t c')"
      using 3 cur c'(1) by (subst advance.simps) auto
    show ?thesis
    proof (cases "dropWhile (\<lambda>y. y < t) xs")
      case Nil
      with c'(3) have rem: "remaining c' = []" by simp
      with Nil adv c' 3 show ?thesis by (simp add: tc.fin_iff)
    next
      case (Cons z zs)
      then have z: "t \<le> z" by (rule hd_dropWhile_ge)
      have rem: "remaining c' = z # zs" using c'(3) Cons by simp
      have "advance t c' = Some (c', if t < z then Missed z else Found)"
        using tc.current_hd[OF c'(2) rem] z by (subst advance.simps) auto
      with adv c' 3 rem z Cons show ?thesis by (auto simp: tc.fin_iff)
    qed
  qed
qed

lemma count_equal_ok:
  assumes "cursor_ok c"
  shows "\<exists>c'. count_equal v n c = Some (n + length (takeWhile (\<lambda>x. x = v) (remaining c)), c') \<and>
    cursor_ok c' \<and> remaining c' = dropWhile (\<lambda>x. x = v) (remaining c)"
proof (rule tc.run[OF _ assms])
  show "count_equal v n c = (if hasFinished c then Some (n, c)
      else Option.bind (getCurrentID c) (\<lambda>x.
        if x = v then Option.bind (gotoNext c) (count_equal v (Suc n)) else Some (n, c)))" for n c
    by (subst count_equal.simps) (simp only: id_ops)
qed

section \<open>All cursors\<close>

abbreviation live :: "TupleCursor list \<Rightarrow> bool" where
  "live cs \<equiv> \<forall>c\<in>set cs. cursor_ok c \<and> remaining c \<noteq> []"

definition moved :: "nodeID \<Rightarrow> TupleCursor \<Rightarrow> TupleCursor \<Rightarrow> bool" where
  "moved t c c' \<longleftrightarrow> cursor_ok c' \<and>
     (remaining c' = remaining c \<or> remaining c' = dropWhile (\<lambda>y. y < t) (remaining c))"

lemma moved_refl: "live cs \<Longrightarrow> list_all2 (moved t) cs cs"
  by (induction cs) (auto simp: moved_def)

lemma forward_all_ok:
  assumes "live cs"
  shows "\<exists>cs' t' ch fin. forward_all t cs = Some (cs', t', ch, fin) \<and> list_all2 (moved t) cs cs' \<and>
    (if fin then \<exists>c\<in>set cs'. remaining c = [] \<and> (\<exists>d\<in>set cs. dropWhile (\<lambda>y. y < t) (remaining d) = [])
     else live cs' \<and> (if ch then t < t' \<and> (\<exists>c\<in>set cs'. hd (remaining c) = t')
       else t' = t \<and> (\<forall>c\<in>set cs'. hd (remaining c) = t)))"
  using assms
proof (induction cs)
  case Nil
  then show ?case by auto
next
  case (Cons c cs)
  then obtain x xs where c: "cursor_ok c" "remaining c = x # xs" by (cases "remaining c") auto
  from advance_ok[OF c, of t] obtain c' r where c': "advance t c = Some (c', r)" "cursor_ok c'"
    "remaining c' = dropWhile (\<lambda>y. y < t) (x # xs)"
    "case r of Missed t' \<Rightarrow> t < t' \<and> (\<exists>ys. remaining c' = t' # ys)
     | Found \<Rightarrow> (\<exists>ys. remaining c' = t # ys) | Exhausted \<Rightarrow> remaining c' = []" by blast
  have mv: "moved t c c'" using c c' by (simp add: moved_def)
  have live: "live cs" using Cons.prems by simp
  show ?case
  proof (cases r)
    case (Missed t')
    with c'(4) obtain ys where ys: "t < t'" "remaining c' = t' # ys" by auto
    have "forward_all t (c # cs) = Some (c' # cs, t', True, False)" using Missed c'(1) by simp
    with ys c'(2) mv moved_refl[OF live] live show ?thesis
      by (intro exI[of _ "c' # cs"] exI[of _ t'] exI[of _ True] exI[of _ False]) simp
  next
    case Found
    with c'(4) obtain ys where ys: "remaining c' = t # ys" by auto
    from Cons.IH[OF live] obtain cs' t' ch fin where "forward_all t cs = Some (cs', t', ch, fin)"
      "list_all2 (moved t) cs cs'"
      "if fin then \<exists>c\<in>set cs'. remaining c = [] \<and> (\<exists>d\<in>set cs. dropWhile (\<lambda>y. y < t) (remaining d) = [])
       else live cs' \<and> (if ch then t < t' \<and> (\<exists>c\<in>set cs'. hd (remaining c) = t')
       else t' = t \<and> (\<forall>c\<in>set cs'. hd (remaining c) = t))" by blast
    with Found ys c'(1,2) mv show ?thesis by (cases fin; cases ch) auto
  next
    case Exhausted
    with c'(4) have rem: "remaining c' = []" by simp
    have "forward_all t (c # cs) = Some (c' # cs, t, False, True)" using Exhausted c'(1) by simp
    moreover have "dropWhile (\<lambda>y. y < t) (remaining c) = []" using rem c(2) c'(3) by simp
    ultimately show ?thesis using rem mv moved_refl[OF live]
      by (intro exI[of _ "c' # cs"] exI[of _ t] exI[of _ False] exI[of _ True]) simp
  qed
qed

text \<open>How often a value can be combined from the lists that are left.\<close>

definition combinations :: "TupleCursor list \<Rightarrow> nodeID \<Rightarrow> nat" where
  "combinations cs x = prod_list (map (\<lambda>c. count_list (remaining c) x) cs)"

lemma combinations_simps [simp]:
  "combinations [] x = 1"
  "combinations (c # cs) x = count_list (remaining c) x * combinations cs x"
  by (simp_all add: combinations_def)

lemma combinations_eq_0: "combinations cs x = 0 \<longleftrightarrow> (\<exists>c\<in>set cs. x \<notin> set (remaining c))"
  by (induction cs) (auto simp: count_list_0_iff)

lemma count_dropWhile_less:
  fixes x :: "'a::linorder"
  shows "t \<le> x \<Longrightarrow> count_list (dropWhile (\<lambda>y. y < t) xs) x = count_list xs x"
  by (induction xs) auto

lemma moved_subset: "moved t c c' \<Longrightarrow> set (remaining c') \<subseteq> set (remaining c)"
  by (auto simp: moved_def dest: set_dropWhileD)

lemma moved_sorted: "moved t c c' \<Longrightarrow> sorted (remaining c) \<Longrightarrow> sorted (remaining c')"
  by (auto simp: moved_def sorted_dropWhile)

lemma moved_length: "moved t c c' \<Longrightarrow> length (remaining c') \<le> length (remaining c)"
  by (auto simp: moved_def length_dropWhile_le)

lemma moved_same: "moved t c c' \<Longrightarrow> length (remaining c') = length (remaining c) \<Longrightarrow> remaining c' = remaining c"
  by (auto simp: moved_def) (metis append_Nil length_append length_0_conv add_cancel_left_left takeWhile_dropWhile_id)

lemma moved_combinations:
  assumes "list_all2 (moved t) cs cs'" "\<And>x. x < t \<Longrightarrow> combinations cs x = 0"
  shows "combinations cs' x = combinations cs x"
proof (cases "x < t")
  case True
  with assms obtain c where "c \<in> set cs" "x \<notin> set (remaining c)" by (auto simp: combinations_eq_0)
  then obtain i where "i < length cs" "x \<notin> set (remaining (cs ! i))" by (auto simp: in_set_conv_nth)
  then have "cs' ! i \<in> set cs'" "x \<notin> set (remaining (cs' ! i))"
    using assms(1) moved_subset[of t "cs ! i" "cs' ! i"] by (auto simp: list_all2_conv_all_nth)
  then have "combinations cs' x = 0" unfolding combinations_eq_0 by blast
  then show ?thesis using assms(2)[OF True] by simp
next
  case False
  with assms(1) show ?thesis
    by (induction rule: list_all2_induct) (auto simp: moved_def count_dropWhile_less)
qed


lemma consume_ok:
  assumes "\<forall>c\<in>set cs. cursor_ok c \<and> (\<exists>xs. remaining c = v # xs)"
  shows "\<exists>cs' t' fin'. consume v cs m t fin = Some (cs',
      m * prod_list (map (\<lambda>c. length (takeWhile (\<lambda>x. x = v) (remaining c))) cs), t', fin') \<and>
    list_all2 (\<lambda>c c'. cursor_ok c' \<and> remaining c' = dropWhile (\<lambda>x. x = v) (remaining c)) cs cs' \<and>
    (fin' \<longleftrightarrow> fin \<or> (\<exists>c\<in>set cs'. remaining c = [])) \<and>
    (t' = t \<or> (\<exists>c\<in>set cs'. remaining c \<noteq> [] \<and> hd (remaining c) = t'))"
  using assms
proof (induction cs arbitrary: m t fin)
  case Nil
  then show ?case by simp
next
  case (Cons c cs)
  then obtain xs where c: "cursor_ok c" "remaining c = v # xs" by auto
  from tc.forward_tl[OF c] obtain c1 where c1: "gotoNext c = Some c1" "cursor_ok c1" "remaining c1 = xs" by blast
  define n where "n = length (takeWhile (\<lambda>x. x = v) (remaining c))"
  from count_equal_ok[OF c1(2), of v 1] obtain c2 where c2: "count_equal v 1 c1 = Some (n, c2)" "cursor_ok c2"
    "remaining c2 = dropWhile (\<lambda>x. x = v) (remaining c)" using c c1(3) by (auto simp: n_def)
  obtain t1 fin1 where step: "(if hasFinished c2 then Some (t, True)
             else do { current \<leftarrow> getCurrentID c2; Some (if id_gt current t then current else t, fin) })
      = Some (t1, fin1)" and fin1: "fin1 \<longleftrightarrow> fin \<or> remaining c2 = []"
      and t1: "t1 = t \<or> remaining c2 \<noteq> [] \<and> hd (remaining c2) = t1"
  proof (cases "remaining c2")
    case Nil
    with c2(2) that[of t True] show ?thesis by (simp add: tc.fin_iff)
  next
    case (Cons y ys)
    with c2(2) that[of "if t < y then y else t" fin] tc.current_hd[OF c2(2) Cons] show ?thesis
      by (auto simp: tc.fin_iff)
  qed
  from Cons.IH[of "m * n" t1 fin1] Cons.prems obtain cs' t' fin' where
    "consume v cs (m * n) t1 fin1 = Some (cs',
      m * n * prod_list (map (\<lambda>c. length (takeWhile (\<lambda>x. x = v) (remaining c))) cs), t', fin')"
    "list_all2 (\<lambda>c c'. cursor_ok c' \<and> remaining c' = dropWhile (\<lambda>x. x = v) (remaining c)) cs cs'"
    "fin' \<longleftrightarrow> fin1 \<or> (\<exists>c\<in>set cs'. remaining c = [])"
    "t' = t1 \<or> (\<exists>c\<in>set cs'. remaining c \<noteq> [] \<and> hd (remaining c) = t')" by auto
  with c1(1) c2 step fin1 t1 show ?case
    by (auto simp: n_def[symmetric] mult.assoc)
qed

section \<open>The result cache\<close>

text \<open>
  Every buffer has the capacity; the vectors before the current one are full, and the ones after
  it are empty.
\<close>

definition cache_ok :: "nat \<Rightarrow> id_vector list \<Rightarrow> nat \<Rightarrow> bool" where
  "cache_ok cap cache k \<longleftrightarrow> k < length cache \<and>
     (\<forall>i < length cache. length (vdata (cache ! i)) = cap \<and> selSize (cache ! i) \<le> cap \<and>
       (i < k \<longrightarrow> selSize (cache ! i) = cap) \<and> (k < i \<longrightarrow> selSize (cache ! i) = 0))"

definition results :: "id_vector list \<Rightarrow> nodeID list" where
  "results cache = concat (map contents cache)"

lemma results_split:
  assumes "cache_ok cap cache k"
  shows "results cache = results (take k cache) @ contents (cache ! k)"
proof -
  have k: "k < length cache" using assms by (simp add: cache_ok_def)
  have "results (drop (Suc k) cache) = []"
    using assms by (auto simp: results_def cache_ok_def contents_def in_set_conv_nth)
  moreover have "cache = take k cache @ cache ! k # drop (Suc k) cache" using k by (simp add: id_take_nth_drop)
  ultimately show ?thesis
    by (metis append.right_neutral concat.simps(2) concat_append list.simps(9) map_append results_def)
qed

lemma contents_fill:
  assumes "length buf = cap" "s + n \<le> cap"
  shows "take (s + n) (fill_n buf s n v) = take s buf @ replicate n v" "length (fill_n buf s n v) = cap"
  using assms by (auto simp: fill_n_def min_def)

lemma emit_ok:
  assumes "cache_ok cap cache k" "0 < cap"
  shows "\<exists>cache' k'. emit cap v n cache k = Some (cache', k') \<and> cache_ok cap cache' k' \<and>
    results cache' = results cache @ replicate n v"
  using assms(1)
proof (induction "n + (if selSize (cache ! k) = cap then 1 else 0)" arbitrary: n cache k rule: less_induct)
  case less
  note ok = less.prems
  let ?s = "selSize (cache ! k)" and ?b = "vdata (cache ! k)"
  have k: "k < length cache" and s: "?s \<le> cap" and b: "length ?b = cap"
    using ok by (auto simp: cache_ok_def)
  show ?case
  proof (cases "n \<le> cap - ?s")
    case True
    let ?v = "\<lparr>vdata = fill_n ?b ?s n v, selSize = ?s + n\<rparr>" let ?c = "cache[k := ?v]"
    have fit: "?s + n \<le> cap" using True s by linarith
    have ok': "cache_ok cap ?c k"
      using ok fit contents_fill(2)[OF b fit] by (auto simp: cache_ok_def nth_list_update)
    have "contents ?v = contents (cache ! k) @ replicate n v"
      using contents_fill(1)[OF b fit] by (simp add: contents_def)
    then have "results ?c = results cache @ replicate n v"
      using results_split[OF ok] results_split[OF ok'] k by simp
    moreover have "emit cap v n cache k = Some (if n = 0 then cache else ?c, k)"
      using True k by (subst emit.simps) (simp add: Let_def)
    ultimately show ?thesis using ok ok' by (cases "n = 0") auto
  next
    case False
    define q where "q = cap - ?s"
    let ?v = "\<lparr>vdata = fill_n ?b ?s q v, selSize = cap\<rparr>" let ?c1 = "cache[k := ?v]"
    define c2 where "c2 = (if k + 1 = length ?c1 then ?c1 @ [new_vector cap] else ?c1)"
    have fit: "?s + q \<le> cap" "?s + q = cap" using s by (simp_all add: q_def)
    have step: "emit cap v n cache k = emit cap v (n - q) c2 (k + 1)"
      using False k by (subst emit.simps) (simp add: Let_def q_def c2_def)
    have ok2: "cache_ok cap c2 (k + 1)" and next_empty: "selSize (c2 ! (k + 1)) = 0"
      using ok contents_fill(2)[OF b fit(1)]
      by (auto simp: c2_def cache_ok_def nth_append nth_list_update new_vector_def)
    have "contents ?v = contents (cache ! k) @ replicate q v"
      using contents_fill(1)[OF b fit(1)] fit(2) by (simp add: contents_def)
    moreover have "take (k + 1) c2 = take k cache @ [?v]"
      using k by (auto simp: c2_def take_Suc_conv_app_nth nth_append)
    ultimately have res: "results c2 = results cache @ replicate q v"
      using results_split[OF ok] results_split[OF ok2] next_empty by (simp add: results_def contents_def)
    have "n - q + (if selSize (c2 ! (k + 1)) = cap then 1 else 0) < n + (if ?s = cap then 1 else 0)"
      using next_empty assms(2) False s by (auto simp: q_def)
    from less.hyps[OF this ok2] obtain c' k' where "emit cap v (n - q) c2 (k + 1) = Some (c', k')"
      "cache_ok cap c' k'" "results c' = results c2 @ replicate (n - q) v" by blast
    moreover have "replicate q v @ replicate (n - q) v = replicate n v"
      using False by (simp add: q_def flip: replicate_add)
    ultimately show ?thesis using step res by simp
  qed
qed

section \<open>The intersection\<close>

text \<open>The work that is left: the identifiers, then the cursors beyond the target.\<close>

definition work :: "TupleCursor list \<Rightarrow> nodeID \<Rightarrow> nat" where
  "work cs t = sum_list (map (\<lambda>c. length (remaining c)) cs) * Suc (length cs) +
     length (filter (\<lambda>c. t < hd (remaining c)) cs)"

lemma moved_lengths:
  "list_all2 (moved t) cs cs' \<Longrightarrow>
     sum_list (map (\<lambda>c. length (remaining c)) cs') \<le> sum_list (map (\<lambda>c. length (remaining c)) cs) \<and>
     (sum_list (map (\<lambda>c. length (remaining c)) cs') = sum_list (map (\<lambda>c. length (remaining c)) cs) \<longrightarrow>
       map remaining cs' = map remaining cs)"
proof (induction rule: list_all2_induct)
  case (Cons c cs c' cs')
  with moved_length[OF Cons(1)] moved_same[OF Cons(1)] show ?case by auto
qed simp

lemma work_less:
  assumes "length cs' = length cs"
    and "sum_list (map (\<lambda>c. length (remaining c)) cs') < sum_list (map (\<lambda>c. length (remaining c)) cs)"
  shows "work cs' t' < work cs t"
proof -
  let ?a = "sum_list (map (\<lambda>c. length (remaining c)) cs')" and ?b = "sum_list (map (\<lambda>c. length (remaining c)) cs)"
  have "Suc ?a * Suc (length cs) \<le> ?b * Suc (length cs)" using assms(2) by (intro mult_le_mono1) simp
  moreover have "length (filter (\<lambda>c. t' < hd (remaining c)) cs') \<le> length cs"
    using assms(1) by (metis length_filter_le)
  ultimately show ?thesis using assms(1) by (simp add: work_def)
qed

lemma work_missed:
  assumes mv: "list_all2 (moved t) cs cs'" and t': "t < t'" "c \<in> set cs'" "hd (remaining c) = t'"
  shows "work cs' t' < work cs t"
proof (cases "map remaining cs' = map remaining cs")
  case True
  have len: "length cs' = length cs" using mv by (simp add: list_all2_lengthD)
  have eq: "map (\<lambda>c. length (remaining c)) cs' = map (\<lambda>c. length (remaining c)) cs"
    using arg_cong[OF True, of "map length"] by (simp add: comp_def)
  let ?h = "map remaining cs'"
  have "length (filter (\<lambda>r. t' < hd r) ?h) < length (filter (\<lambda>r. t < hd r) ?h)"
  proof -
    have "filter (\<lambda>r. t' < hd r) ?h = filter (\<lambda>r. t' < hd r) (filter (\<lambda>r. t < hd r) ?h)"
      using t'(1) by (auto intro: filter_cong)
    moreover have "remaining c \<in> set (filter (\<lambda>r. t < hd r) ?h)" using t' by auto
    moreover have "\<not> t' < hd (remaining c)" using t' by simp
    ultimately show ?thesis
      using length_filter_less[of "remaining c" "filter (\<lambda>r. t < hd r) ?h" "\<lambda>r. t' < hd r"] by simp
  qed
  moreover have "length (filter (\<lambda>r. t < hd r) ?h) = length (filter (\<lambda>c. t < hd (remaining c)) cs)"
    unfolding True by (simp add: filter_map comp_def)
  ultimately have "length (filter (\<lambda>c. t' < hd (remaining c)) cs') < length (filter (\<lambda>c. t < hd (remaining c)) cs)"
    by (simp add: filter_map comp_def)
  then show ?thesis using len by (simp add: work_def eq)
next
  case False
  with moved_lengths[OF mv] have "sum_list (map (\<lambda>c. length (remaining c)) cs') <
    sum_list (map (\<lambda>c. length (remaining c)) cs)" by linarith
  with mv show ?thesis by (intro work_less) (simp_all add: list_all2_lengthD)
qed


lemma sorted_takeWhile_eq:
  fixes v :: "'a::linorder"
  assumes "sorted (v # xs)"
  shows "length (takeWhile (\<lambda>x. x = v) (v # xs)) = count_list (v # xs) v"
    and "v < x \<Longrightarrow> count_list (dropWhile (\<lambda>x. x = v) (v # xs)) x = count_list (v # xs) x"
    and "x \<in> set (dropWhile (\<lambda>x. x = v) (v # xs)) \<Longrightarrow> v < x"
proof -
  have le: "\<forall>x\<in>set xs. v \<le> x" "sorted xs" using assms by auto
  then have "length (takeWhile (\<lambda>x. x = v) xs) = count_list xs v \<and>
      (v < x \<longrightarrow> count_list (dropWhile (\<lambda>x. x = v) xs) x = count_list xs x) \<and>
      (x \<in> set (dropWhile (\<lambda>x. x = v) xs) \<longrightarrow> v < x)"
  proof (induction xs)
    case (Cons y ys)
    show ?case
    proof (cases "y = v")
      case True
      with Cons show ?thesis by auto
    next
      case False
      with Cons.prems have "v < y" "\<forall>z\<in>set ys. v < z" by auto
      then show ?thesis using False by (auto simp: count_list_0_iff[symmetric])
    qed
  qed simp
  then show "length (takeWhile (\<lambda>x. x = v) (v # xs)) = count_list (v # xs) v"
    and "v < x \<Longrightarrow> count_list (dropWhile (\<lambda>x. x = v) (v # xs)) x = count_list (v # xs) x"
    and "x \<in> set (dropWhile (\<lambda>x. x = v) (v # xs)) \<Longrightarrow> v < x" by auto
qed

text \<open>The sorted list in which every value occurs as often as it can be combined.\<close>

definition intersection_of :: "TupleCursor list \<Rightarrow> nodeID list \<Rightarrow> bool" where
  "intersection_of cs ys \<longleftrightarrow> sorted ys \<and> (\<forall>x. count_list ys x = combinations cs x)"

lemma intersection_of_Nil: "(\<And>x. combinations cs x = 0) \<Longrightarrow> intersection_of cs []"
  by (simp add: intersection_of_def)

text \<open>What \<open>consume\<close> leaves: the combinations above the common value.\<close>

lemma consumed_combinations:
  assumes rest: "list_all2 (\<lambda>c c'. cursor_ok c' \<and> remaining c' = dropWhile (\<lambda>x. x = v) (remaining c)) cs cs'"
    and hds: "\<forall>c\<in>set cs. sorted (remaining c) \<and> (\<exists>xs. remaining c = v # xs)" and ne: "cs \<noteq> []"
  shows "combinations cs' x = (if v < x then combinations cs x else 0)"
    and "prod_list (map (\<lambda>c. length (takeWhile (\<lambda>x. x = v) (remaining c))) cs) = combinations cs v"
    and "x < v \<Longrightarrow> combinations cs x = 0"
proof -
  have above: "v < x \<Longrightarrow> combinations cs' x = combinations cs x"
    using rest hds
  proof (induction rule: list_all2_induct)
    case (Cons c cs c' cs')
    then obtain xs where xs: "remaining c = v # xs" "sorted (v # xs)" by auto
    have "count_list (remaining c') x = count_list (remaining c) x"
      using sorted_takeWhile_eq(2)[OF xs(2) Cons.prems(1)] Cons.hyps(1) xs(1) by simp
    with Cons show ?case by simp
  qed simp
  have "combinations cs' x = 0" if "\<not> v < x"
  proof -
    from ne rest obtain c c' where c: "c \<in> set cs" "c' \<in> set cs'"
      "remaining c' = dropWhile (\<lambda>x. x = v) (remaining c)"
      by (cases cs; cases cs') auto
    with hds obtain xs where xs: "remaining c = v # xs" "sorted (v # xs)" by force
    have "x \<notin> set (remaining c')" using sorted_takeWhile_eq(3)[OF xs(2), of x] that c(3) xs(1) by auto
    with c(2) show ?thesis unfolding combinations_eq_0 by blast
  qed
  with above show "combinations cs' x = (if v < x then combinations cs x else 0)" by auto
  show "prod_list (map (\<lambda>c. length (takeWhile (\<lambda>x. x = v) (remaining c))) cs) = combinations cs v"
    using hds
  proof (induction cs)
    case (Cons c cs)
    then obtain xs where xs: "remaining c = v # xs" "sorted (v # xs)" by auto
    from sorted_takeWhile_eq(1)[OF xs(2)] xs(1) Cons show ?case by simp
  qed simp
  show "combinations cs x = 0" if "x < v"
  proof -
    have c: "hd cs \<in> set cs" using ne by simp
    with hds obtain xs where xs: "remaining (hd cs) = v # xs" "sorted (v # xs)" by force
    then have "x \<notin> set (remaining (hd cs))" using that by auto
    with c show ?thesis unfolding combinations_eq_0 by blast
  qed
qed

lemma intersection_of_append:
  assumes "intersection_of cs' ys" "\<And>x. combinations cs' x = (if v < x then combinations cs x else 0)"
    and "\<And>x. x < v \<Longrightarrow> combinations cs x = 0"
  shows "intersection_of cs (replicate (combinations cs v) v @ ys)"
proof -
  have gt: "v < y" if "y \<in> set ys" for y
  proof (rule ccontr)
    assume "\<not> v < y"
    then have "count_list ys y = 0" using assms(1,2) by (simp add: intersection_of_def)
    with that show False by (simp add: count_list_0_iff)
  qed
  have "count_list (replicate (combinations cs v) v @ ys) x = combinations cs x" for x
  proof -
    have r: "count_list (replicate n v) x = (if x = v then n else 0)" for n by (induction n) auto
    have "count_list ys x = combinations cs' x" using assms(1) by (simp add: intersection_of_def)
    with r assms(2)[of x] assms(3)[of x] show ?thesis by (auto simp: not_less)
  qed
  moreover have "sorted (replicate (combinations cs v) v @ ys)"
    using assms(1) gt by (auto simp: intersection_of_def sorted_append dest: less_imp_le)
  ultimately show ?thesis by (simp add: intersection_of_def)
qed


lemma consumed_shorter:
  assumes "list_all2 (\<lambda>c c'. cursor_ok c' \<and> remaining c' = dropWhile (\<lambda>x. x = v) (remaining c)) cs cs'"
    and "\<forall>c\<in>set cs. sorted (remaining c) \<and> (\<exists>xs. remaining c = v # xs)" "cs \<noteq> []"
  shows "sum_list (map (\<lambda>c. length (remaining c)) cs') < sum_list (map (\<lambda>c. length (remaining c)) cs)"
  using assms
proof (induction rule: list_all2_induct)
  case (Cons c cs c' cs')
  then obtain xs where "remaining c = v # xs" by auto
  with Cons.hyps(1) have "length (remaining c') < length (remaining c)"
    by (simp add: le_imp_less_Suc length_dropWhile_le)
  with Cons show ?case by (cases "cs = []") auto
qed simp

text \<open>
  The loop returns, and appends the intersection to the cache, as long as nothing below the target
  is common to all lists.
\<close>

lemma intersect_loop_ok:
  assumes "0 < cap" "cs \<noteq> []" "live cs" "\<forall>c\<in>set cs. sorted (remaining c)"
    and "\<And>x. x < t \<Longrightarrow> combinations cs x = 0" "cache_ok cap cache k"
  shows "\<exists>cache' k' ys e'. intersect_loop cap cs t cache k e = Some (cache', e') \<and> cache_ok cap cache' k' \<and>
    results cache' = results cache @ ys \<and> intersection_of cs ys \<and> (e' \<longleftrightarrow> e \<and> ys = [])"
  using assms(2-)
proof (induction "work cs t" arbitrary: cs t cache k e rule: less_induct)
  case less
  from forward_all_ok[OF less.prems(2), of t] obtain cs1 t1 ch fin where
    fw: "forward_all t cs = Some (cs1, t1, ch, fin)" "list_all2 (moved t) cs cs1"
    "if fin then \<exists>c\<in>set cs1. remaining c = [] \<and> (\<exists>d\<in>set cs. dropWhile (\<lambda>y. y < t) (remaining d) = [])
     else live cs1 \<and> (if ch then t < t1 \<and> (\<exists>c\<in>set cs1. hd (remaining c) = t1)
       else t1 = t \<and> (\<forall>c\<in>set cs1. hd (remaining c) = t))" by blast
  have comb: "combinations cs1 x = combinations cs x" for x
    by (rule moved_combinations[OF fw(2) less.prems(4)])
  have ne: "cs1 \<noteq> []" using fw(2) less.prems(1) by auto
  have srt: "\<forall>c\<in>set cs1. sorted (remaining c)"
    using fw(2) less.prems(3) moved_sorted by (fastforce simp: list_all2_conv_all_nth in_set_conv_nth)
  consider (exhausted) fin | (missed) "\<not> fin" ch | (found) "\<not> fin" "\<not> ch" by blast
  then show ?case
  proof cases
    case exhausted
    with fw(3) obtain d where d: "d \<in> set cs" "dropWhile (\<lambda>y. y < t) (remaining d) = []" by auto
    have "combinations cs x = 0" for x
    proof (cases "x < t")
      case False
      with d(2) have "x \<notin> set (remaining d)" by auto
      with d(1) show ?thesis unfolding combinations_eq_0 by blast
    qed (rule less.prems(4))
    then have "intersection_of cs []" by (rule intersection_of_Nil)
    moreover have "intersect_loop cap cs t cache k e = Some (cache, e)"
      using fw(1) exhausted by (subst intersect_loop.simps) simp
    ultimately show ?thesis using less.prems(5) by force
  next
    case missed
    with fw(3) obtain c where c: "live cs1" "t < t1" "c \<in> set cs1" "hd (remaining c) = t1" by auto
    have low: "combinations cs1 x = 0" if "x < t1" for x
    proof -
      have "sorted (remaining c)" "remaining c \<noteq> []" using c srt by auto
      then have "x \<notin> set (remaining c)" using c(4) that by (cases "remaining c") auto
      with c(3) show ?thesis unfolding combinations_eq_0 by blast
    qed
    have step: "intersect_loop cap cs t cache k e = intersect_loop cap cs1 t1 cache k e"
      using fw(1) missed by (subst intersect_loop.simps) simp
    from less.hyps[OF work_missed[OF fw(2) c(2-4)] ne c(1) srt low less.prems(5), of e] comb
    show ?thesis unfolding step intersection_of_def by simp
  next
    case found
    with fw(3) have "live cs1" and t1: "t1 = t" and "\<forall>c\<in>set cs1. hd (remaining c) = t" by auto
    then have hds: "\<forall>c\<in>set cs1. cursor_ok c \<and> (\<exists>xs. remaining c = t # xs)"
      by (metis list.collapse)
    then have hds': "\<forall>c\<in>set cs1. sorted (remaining c) \<and> (\<exists>xs. remaining c = t # xs)" using srt by blast
    from consume_ok[OF hds, of 1 t False] obtain cs2 t2 fin2 where
      co: "consume t cs1 1 t False = Some (cs2,
        prod_list (map (\<lambda>c. length (takeWhile (\<lambda>x. x = t) (remaining c))) cs1), t2, fin2)"
      "list_all2 (\<lambda>c c'. cursor_ok c' \<and> remaining c' = dropWhile (\<lambda>x. x = t) (remaining c)) cs1 cs2"
      "fin2 \<longleftrightarrow> (\<exists>c\<in>set cs2. remaining c = [])"
      "t2 = t \<or> (\<exists>c\<in>set cs2. remaining c \<noteq> [] \<and> hd (remaining c) = t2)" by auto
    note cc = consumed_combinations[OF co(2) hds' ne]
    let ?n = "combinations cs1 t"
    from emit_ok[OF less.prems(5) assms(1), of t ?n] obtain cache2 k2 where
      em: "emit cap t ?n cache k = Some (cache2, k2)" "cache_ok cap cache2 k2"
      "results cache2 = results cache @ replicate ?n t" by blast
    have pos: "0 < ?n" using hds' by (auto simp: combinations_eq_0 simp flip: neq0_conv)
    have step: "intersect_loop cap cs t cache k e =
        (if fin2 then Some (cache2, False) else intersect_loop cap cs2 t2 cache2 k2 False)"
      using fw(1) found co(1) em(1) cc(2) t1 by (subst intersect_loop.simps) simp
    have iff: "intersection_of cs ys \<longleftrightarrow> intersection_of cs1 ys" for ys
      by (simp add: intersection_of_def comb)
    show ?thesis
    proof (cases fin2)
      case True
      with co(3) obtain c where c: "c \<in> set cs2" "remaining c = []" by blast
      have "combinations cs2 x = 0" for x using c unfolding combinations_eq_0 by force
      then have "intersection_of cs (replicate ?n t)" unfolding iff
        using intersection_of_append[OF intersection_of_Nil cc(1,3)] by simp
      with True step em pos show ?thesis by auto
    next
      case False
      have live2: "live cs2" using False co(2,3) by (auto simp: list_all2_conv_all_nth in_set_conv_nth)
      have srt2: "\<forall>c\<in>set cs2. sorted (remaining c)"
        using co(2) srt by (fastforce simp: list_all2_conv_all_nth in_set_conv_nth intro: sorted_dropWhile)
      have low2: "combinations cs2 x = 0" if "x < t2" for x
        using co(4)
      proof
        assume "t2 = t"
        with that cc(1)[of x] show ?thesis by auto
      next
        assume "\<exists>c\<in>set cs2. remaining c \<noteq> [] \<and> hd (remaining c) = t2"
        then obtain c where c: "c \<in> set cs2" "remaining c \<noteq> []" "hd (remaining c) = t2" by blast
        then have "sorted (remaining c)" using srt2 by blast
        with c(2,3) that have "x \<notin> set (remaining c)" by (cases "remaining c") auto
        with c(1) show ?thesis unfolding combinations_eq_0 by blast
      qed
      have "sum_list (map (\<lambda>c. length (remaining c)) cs2) < sum_list (map (\<lambda>c. length (remaining c)) cs1)"
        by (rule consumed_shorter[OF co(2) hds' ne])
      with moved_lengths[OF fw(2)] have "work cs2 t2 < work cs t"
        using co(2) fw(2) by (intro work_less) (auto simp: list_all2_lengthD)
      moreover have "cs2 \<noteq> []" using co(2) ne by auto
      ultimately obtain cache3 k3 ys e' where
        rec: "intersect_loop cap cs2 t2 cache2 k2 False = Some (cache3, e')" "cache_ok cap cache3 k3"
        "results cache3 = results cache2 @ ys" "intersection_of cs2 ys" "\<not> e'"
        using less.hyps[OF _ _ live2 srt2 low2 em(2), where e = False] by blast
      have "intersection_of cs (replicate ?n t @ ys)" unfolding iff
        by (rule intersection_of_append[OF rec(4) cc(1,3)])
      with False step em rec pos show ?thesis by auto
    qed
  qed
qed


definition fresh_cache :: "nat \<Rightarrow> id_vector list \<Rightarrow> bool" where
  "fresh_cache cap cache \<longleftrightarrow> cache \<noteq> [] \<and> list_all (\<lambda>v. length (vdata v) = cap) cache"

lemma fresh_cache_reset:
  assumes "fresh_cache cap cache"
  shows "cache_ok cap (map (selSize_update (\<lambda>_. 0)) cache) 0 \<and>
    results (map (selSize_update (\<lambda>_. 0)) cache) = []"
  using assms by (auto simp: fresh_cache_def cache_ok_def list_all_length results_def contents_def)

lemma multiway_intersect_ok:
  assumes "0 < cap" "fresh_cache cap cache" "probed \<noteq> []"
    and probed: "\<forall>ts\<in>set probed. ts \<noteq> [] \<and> [] \<notin> set ts \<and> sorted (concat ts)"
  shows "\<exists>cache' k e. multiway_intersect_on_sorted_tuples cap probed cache = Some (cache', e) \<and>
    cache_ok cap cache' k \<and> sorted (results cache') \<and>
    (\<forall>x. count_list (results cache') x = prod_list (map (\<lambda>ts. count_list (concat ts) x) probed)) \<and>
    (e \<longleftrightarrow> results cache' = [])"
proof -
  let ?cs = "map new_TupleCursor probed" and ?c0 = "map (selSize_update (\<lambda>_. 0)) cache"
  have new: "cursor_ok (new_TupleCursor ts) \<and> remaining (new_TupleCursor ts) = concat ts"
    if "ts \<in> set probed" for ts using new_TupleCursor_ok[of ts] probed that by auto
  have live: "live ?cs"
  proof
    fix c assume "c \<in> set ?cs"
    then obtain ts where ts: "ts \<in> set probed" "c = new_TupleCursor ts" by auto
    with probed have "concat ts \<noteq> []" by (cases ts) auto
    with new[OF ts(1)] ts(2) show "cursor_ok c \<and> remaining c \<noteq> []" by simp
  qed
  have srt: "\<forall>c\<in>set ?cs. sorted (remaining c)" using new probed by auto
  have hd: "hd ?cs \<in> set ?cs" using assms(3) by (intro hd_in_set) simp
  then obtain x xs where x: "remaining (hd ?cs) = x # xs" "cursor_ok (hd ?cs)"
    using live by (cases "remaining (hd ?cs)") auto
  have low: "combinations ?cs y = 0" if "y < x" for y
  proof -
    have "sorted (remaining (hd ?cs))" using srt hd by blast
    then have "y \<notin> set (remaining (hd ?cs))" using x(1) that by auto
    with hd show ?thesis unfolding combinations_eq_0 by blast
  qed
  have comb: "combinations ?cs y = prod_list (map (\<lambda>ts. count_list (concat ts) y) probed)" for y
    using new by (auto simp: combinations_def comp_def intro!: arg_cong[where f = prod_list])
  have "?cs \<noteq> []" using assms(3) by simp
  from intersect_loop_ok[OF assms(1) this live srt low conjunct1[OF fresh_cache_reset[OF assms(2)]],
      of x True]
  obtain cache' k ys e where "intersect_loop cap ?cs x ?c0 0 True = Some (cache', e)" "cache_ok cap cache' k"
    "results cache' = results ?c0 @ ys" "intersection_of ?cs ys" "e \<longleftrightarrow> True \<and> ys = []" by blast
  moreover have "multiway_intersect_on_sorted_tuples cap probed cache = intersect_loop cap ?cs x ?c0 0 True"
    using assms(3) tc.current_hd[OF x(2,1)]
    by (simp add: multiway_intersect_on_sorted_tuples_def ku_assert_def Let_def)
  ultimately show ?thesis 
    using fresh_cache_reset[OF assms(2)] unfolding intersection_of_def comb by auto
qed

section \<open>Properties\<close>

abbreviation nid :: "64 word \<Rightarrow> nodeID" where
  "nid n \<equiv> InternalID n 0"

text \<open>
  C6: \<open>multiway_intersect_on_sorted_tuples\<close> terminates on non-empty neighbour lists that are
  sorted across their tuples, never reads outside a tuple or a vector, and leaves in the result
  cache the sorted list in which every identifier occurs as often as it can be combined from the
  lists; it returns true exactly when the intersection is empty.
\<close>

theorem multiway_intersect_correct:
  assumes "0 < cap" "fresh_cache cap cache" "probed \<noteq> []"
    and "\<forall>ts\<in>set probed. ts \<noteq> [] \<and> [] \<notin> set ts \<and> sorted (concat ts)"
  shows "\<exists>cache' k e. multiway_intersect_on_sorted_tuples cap probed cache = Some (cache', e) \<and>
    cache_ok cap cache' k \<and> sorted (results cache') \<and>
    (\<forall>x. count_list (results cache') x = prod_list (map (\<lambda>ts. count_list (concat ts) x) probed)) \<and>
    (e \<longleftrightarrow> results cache' = [])"
  by (rule multiway_intersect_ok) fact+

theorem multiway_intersect_correct_witness:
  "\<exists>cache' k e. multiway_intersect_on_sorted_tuples 2
      [[[nid 1, nid 2], [nid 2, nid 5]], [[nid 2, nid 2, nid 3]]] [new_vector 2] = Some (cache', e) \<and>
    cache_ok 2 cache' k \<and> sorted (results cache') \<and>
    (\<forall>x. count_list (results cache') x = prod_list (map (\<lambda>ts. count_list (concat ts) x)
      [[[nid 1, nid 2], [nid 2, nid 5]], [[nid 2, nid 2, nid 3]]])) \<and>
    (e \<longleftrightarrow> results cache' = [])"
proof (rule multiway_intersect_correct)
  show "fresh_cache 2 [new_vector 2]" by code_simp
  show "\<forall>ts\<in>set [[[nid 1, nid 2], [nid 2, nid 5]], [[nid 2, nid 2, nid 3]]].
      ts \<noteq> [] \<and> [] \<notin> set ts \<and> sorted (concat ts)" by code_simp
qed simp_all

text \<open>Four combinations of the identifier 2 fill two vectors of capacity two.\<close>

lemma multiway_intersect_example:
  "map_option (\<lambda>(cache, e). (map contents cache, e)) (multiway_intersect_on_sorted_tuples 2
      [[[nid 1, nid 2], [nid 2, nid 5]], [[nid 2, nid 2, nid 3]]] [new_vector 2]) =
   Some ([[nid 2, nid 2], [nid 2, nid 2]], False)"
  by code_simp

text \<open>
  C37: sorting every tuple on its own is not enough: there are neighbour lists whose tuples are
  all sorted and which have a common identifier, for which the intersection reports an empty result.
\<close>

theorem multiway_intersect_needs_global_order:
  "\<exists>probed cache cache' x. probed \<noteq> [] \<and> list_all (list_all sorted) probed \<and>
     list_all (\<lambda>ts. x \<in> set (concat ts)) probed \<and> fresh_cache 2 cache \<and>
     multiway_intersect_on_sorted_tuples 2 probed cache = Some (cache', True)"
proof -
  let ?p = "[[[nid 4, nid 5], [nid 1]], [[nid 1, nid 3]]]" and ?c = "[new_vector 2]"
  have "?p \<noteq> []" "list_all (list_all sorted) ?p" "list_all (\<lambda>ts. nid 1 \<in> set (concat ts)) ?p"
    "fresh_cache 2 ?c" "multiway_intersect_on_sorted_tuples 2 ?p ?c = Some (?c, True)" by code_simp+
  then show ?thesis by blast
qed

end
