(* ===== verification/FactorizedTable.thy ===== *)
theory FactorizedTable
  imports Prelude "HOL-Library.Word" "HOL-Library.Multiset"
begin

text \<open>
  The factorized table (\<open>processor/result/factorized_table.cpp\<close>, \<open>factorized_table_schema.cpp\<close>):
  rows of a fixed number of bytes in blocks of a fixed size. A column holds a value per row, or
  (an unflat column) a pointer to a list of values in an overflow block.

  A block is an array of row slots with the counters the code keeps (\<open>numTuples\<close>, \<open>freeSize\<close> in
  bytes). Overflow lists live in one heap, a list of value lists indexed by address, because the
  code moves the pointers between tables when it merges them. The page size
  (\<open>TEMP_PAGE_SIZE\<close>) is a parameter of the constructor.
\<close>

section \<open>Schemas\<close>

record ColumnSchema =
  isUnFlat :: bool
  groupID :: nat
  numBytes :: nat
  mayContainNulls :: bool

definition new_ColumnSchema :: "bool \<Rightarrow> nat \<Rightarrow> nat \<Rightarrow> ColumnSchema" where
  "new_ColumnSchema unflat g n = \<lparr>isUnFlat = unflat, groupID = g, numBytes = n, mayContainNulls = False\<rparr>"

definition isFlat :: "ColumnSchema \<Rightarrow> bool" where
  "isFlat c = (\<not> isUnFlat c)"

definition column_eq :: "ColumnSchema \<Rightarrow> ColumnSchema \<Rightarrow> bool" where
  "column_eq c d \<longleftrightarrow> isUnFlat c = isUnFlat d \<and> groupID c = groupID d \<and> numBytes c = numBytes d"

definition hasNoNullGuarantee :: "ColumnSchema \<Rightarrow> bool" where
  "hasNoNullGuarantee c = (\<not> mayContainNulls c)"

record FactorizedTableSchema =
  columns :: "ColumnSchema list"
  numBytesForDataPerTuple :: nat
  numBytesForNullMapPerTuple :: nat
  numBytesPerTuple :: nat
  colOffsets :: "nat list"

definition empty_schema :: FactorizedTableSchema where
  "empty_schema = \<lparr>columns = [], numBytesForDataPerTuple = 0, numBytesForNullMapPerTuple = 0,
     numBytesPerTuple = 0, colOffsets = []\<rparr>"

text \<open>\<open>NullBuffer::getNumBytesForNullValues\<close>: one bit per value.\<close>

definition getNumBytesForNullValues :: "nat \<Rightarrow> nat" where
  "getNumBytesForNullValues n = (n + 8 - 1) div 8"

definition appendColumn :: "FactorizedTableSchema \<Rightarrow> ColumnSchema \<Rightarrow> FactorizedTableSchema" where
  "appendColumn s c =
     (let data = numBytesForDataPerTuple s + numBytes c;
          cols = columns s @ [c];
          offs = colOffsets s @ [if colOffsets s = [] then 0
                                 else last (colOffsets s) + numBytes (cols ! (length cols - 2))];
          nulls = getNumBytesForNullValues (length cols)
      in \<lparr>columns = cols, numBytesForDataPerTuple = data, numBytesForNullMapPerTuple = nulls,
          numBytesPerTuple = data + nulls, colOffsets = offs\<rparr>)"

definition copy_schema :: "FactorizedTableSchema \<Rightarrow> FactorizedTableSchema" where
  "copy_schema s = foldl appendColumn empty_schema (columns s)"

text \<open>\<open>operator==\<close>: the null map sizes are combined with a conjunction, not compared.\<close>

definition schema_eq :: "FactorizedTableSchema \<Rightarrow> FactorizedTableSchema \<Rightarrow> bool" where
  "schema_eq s t \<longleftrightarrow>
     (if length (columns s) \<noteq> length (columns t) then False
      else if \<not> list_all (\<lambda>i. column_eq (columns s ! i) (columns t ! i)) [0..<length (columns s)] then False
      else numBytesForDataPerTuple s = numBytesForDataPerTuple t \<and>
        numBytesForNullMapPerTuple s \<noteq> 0 \<and> numBytesForNullMapPerTuple t \<noteq> 0)"

definition getNumFlatColumns :: "FactorizedTableSchema \<Rightarrow> nat" where
  "getNumFlatColumns s = foldl (\<lambda>n c. if isFlat c then n + 1 else n) 0 (columns s)"

definition getNumUnFlatColumns :: "FactorizedTableSchema \<Rightarrow> nat" where
  "getNumUnFlatColumns s = foldl (\<lambda>n c. if \<not> isFlat c then n + 1 else n) 0 (columns s)"

text \<open>The source asserts that the index is in range; here an index out of range changes nothing.\<close>

definition setMayContainsNullsToTrue :: "nat \<Rightarrow> FactorizedTableSchema \<Rightarrow> FactorizedTableSchema" where
  "setMayContainsNullsToTrue idx s =
     s\<lparr>columns := (columns s)[idx := (columns s ! idx)\<lparr>mayContainNulls := True\<rparr>]\<rparr>"

text \<open>The schemas the constructors can build: all sizes are derived from the columns.\<close>

definition schema_ok :: "FactorizedTableSchema \<Rightarrow> bool" where
  "schema_ok s \<longleftrightarrow>
     numBytesForDataPerTuple s = sum_list (map numBytes (columns s)) \<and>
     numBytesForNullMapPerTuple s = getNumBytesForNullValues (length (columns s)) \<and>
     numBytesPerTuple s = numBytesForDataPerTuple s + numBytesForNullMapPerTuple s \<and>
     length (colOffsets s) = length (columns s) \<and>
     (\<forall>i < length (columns s). colOffsets s ! i = sum_list (map numBytes (take i (columns s))))"

lemma schema_ok_empty [simp]: "schema_ok empty_schema"
  by (simp add: schema_ok_def empty_schema_def getNumBytesForNullValues_def)

lemma schema_ok_appendColumn:
  assumes "schema_ok s"
  shows "schema_ok (appendColumn s c) \<and> columns (appendColumn s c) = columns s @ [c]"
proof -
  let ?n = "length (columns s)"
  have "colOffsets (appendColumn s c) ! i = sum_list (map numBytes (take i (columns s @ [c])))"
    if "i < Suc ?n" for i
  proof (cases "i = ?n")
    case False
    with that assms show ?thesis by (auto simp: appendColumn_def Let_def schema_ok_def nth_append)
  next
    case last: True
    show ?thesis
    proof (cases "columns s = []")
      case True
      with last assms show ?thesis by (auto simp: appendColumn_def Let_def schema_ok_def)
    next
      case False
      then obtain m where m: "?n = Suc m" by (cases ?n) auto
      then have ne: "colOffsets s \<noteq> []" "length (colOffsets s) = Suc m"
        using assms by (auto simp: schema_ok_def)
      have "last (colOffsets s) = sum_list (map numBytes (take m (columns s)))"
        using assms ne m by (simp add: schema_ok_def last_conv_nth)
      moreover have cols: "columns s = take m (columns s) @ [columns s ! m]"
        using take_Suc_conv_app_nth[of m "columns s"] take_all[of "columns s" "Suc m"] m by simp
      have "sum_list (map numBytes (columns s)) = sum_list (map numBytes (take m (columns s))) + numBytes (columns s ! m)"
        by (subst cols) simp
      ultimately show ?thesis
        using last ne m by (simp add: appendColumn_def Let_def nth_append)
    qed
  qed
  then show ?thesis using assms
    by (simp add: schema_ok_def appendColumn_def Let_def)
qed

lemma schema_ok_unique:
  assumes "schema_ok s" "schema_ok t" "columns s = columns t"
  shows "s = t"
proof -
  have "colOffsets s = colOffsets t" using assms by (auto simp: schema_ok_def intro: nth_equalityI)
  with assms show ?thesis by (intro FactorizedTableSchema.equality) (auto simp: schema_ok_def)
qed

lemma copy_schema_ok: "schema_ok s \<Longrightarrow> copy_schema s = s"
proof -
  assume s: "schema_ok s"
  have "schema_ok (foldl appendColumn s0 cs) \<and> columns (foldl appendColumn s0 cs) = columns s0 @ cs"
    if "schema_ok s0" for s0 cs
    using that
  proof (induction cs arbitrary: s0)
    case (Cons c cs)
    with schema_ok_appendColumn[OF Cons.prems, of c] show ?case by simp
  qed simp
  from this[OF schema_ok_empty, of "columns s"] schema_ok_unique[OF _ s] show ?thesis
    by (simp add: copy_schema_def empty_schema_def)
qed

lemma schema_eq_iff:
  assumes "schema_ok s" "schema_ok t"
  shows "schema_eq s t \<longleftrightarrow> columns s \<noteq> [] \<and> list_all2 column_eq (columns s) (columns t)"
proof -
  have null: "getNumBytesForNullValues n \<noteq> 0 \<longleftrightarrow> n \<noteq> 0" for n
    by (auto simp: getNumBytesForNullValues_def)
  have data: "list_all2 column_eq cs ds \<Longrightarrow> sum_list (map numBytes cs) = sum_list (map numBytes ds)" for cs ds
    by (induction rule: list_all2_induct) (auto simp: column_eq_def)
  have "list_all2 column_eq (columns s) (columns t) \<longleftrightarrow> length (columns s) = length (columns t) \<and>
      list_all (\<lambda>i. column_eq (columns s ! i) (columns t ! i)) [0..<length (columns s)]"
    by (auto simp: list_all2_conv_all_nth list_all_iff)
  with data[of "columns s" "columns t"] assms null show ?thesis
    by (auto simp: schema_eq_def schema_ok_def)
qed


section \<open>Rows and blocks\<close>

text \<open>
  A cell of a row: a value, an overflow pointer (number of elements and address), the chain pointer
  (block and slot of a row) of a join hash table, or memory that is still zero. A row has its cells
  and its null map, one bit per column.
\<close>

type_synonym tuple_ptr = "nat \<times> nat"

datatype 'v cell = Value 'v | Overflow nat nat | PrevPtr "tuple_ptr option" | Zeroed

type_synonym 'v row = "'v cell list \<times> bool list"

record 'v DataBlock =
  slots :: "'v row list"
  numTuples :: nat
  freeSize :: nat

record 'v DataBlockCollection =
  blk_numBytesPerTuple :: nat
  numTuplesPerBlock :: nat
  blocks :: "'v DataBlock list"

definition new_DataBlock :: "nat \<Rightarrow> nat \<Rightarrow> nat \<Rightarrow> 'v DataBlock" where
  "new_DataBlock sz perBlock ncols =
     \<lparr>slots = replicate perBlock (replicate ncols Zeroed, replicate ncols False), numTuples = 0, freeSize = sz\<rparr>"

definition new_DataBlockCollection :: "nat \<Rightarrow> nat \<Rightarrow> 'v DataBlockCollection" where
  "new_DataBlockCollection bytes perBlock =
     \<lparr>blk_numBytesPerTuple = bytes, numTuplesPerBlock = perBlock, blocks = []\<rparr>"

definition needAllocation :: "'v DataBlockCollection \<Rightarrow> nat \<Rightarrow> bool" where
  "needAllocation c sz \<longleftrightarrow> blocks c = [] \<or> freeSize (last (blocks c)) < sz"

definition resetNumTuplesAndFreeSize :: "nat \<Rightarrow> 'v DataBlock \<Rightarrow> 'v DataBlock" where
  "resetNumTuplesAndFreeSize sz b = b\<lparr>numTuples := 0, freeSize := sz\<rparr>"

text \<open>
  \<open>DataBlock::copyTuples\<close>: one row at a time, so the source and the target may be the same block.
  The second version is the call with the same block on both sides.
\<close>

definition copyTuples :: "'v DataBlock \<Rightarrow> nat \<Rightarrow> 'v DataBlock \<Rightarrow> nat \<Rightarrow> nat \<Rightarrow> nat \<Rightarrow> 'v DataBlock" where
  "copyTuples src i dst k n bytes =
     (let ss = foldl (\<lambda>ss j. ss[k + j := slots src ! (i + j)]) (slots dst) [0..<n]
      in dst\<lparr>slots := ss, numTuples := numTuples dst + n, freeSize := freeSize dst - n * bytes\<rparr>)"

definition moveTuples :: "'v DataBlock \<Rightarrow> nat \<Rightarrow> nat \<Rightarrow> nat \<Rightarrow> nat \<Rightarrow> 'v DataBlock" where
  "moveTuples b i k n bytes =
     (let ss = foldl (\<lambda>ss j. ss[k + j := ss ! (i + j)]) (slots b) [0..<n]
      in b\<lparr>slots := ss, numTuples := numTuples b + n, freeSize := freeSize b - n * bytes\<rparr>)"

text \<open>\<open>DataBlockCollection::merge\<close>; the block size is what \<open>resetNumTuplesAndFreeSize\<close> reads.\<close>

definition merge_blocks :: "nat \<Rightarrow> 'v DataBlockCollection \<Rightarrow> 'v DataBlockCollection \<Rightarrow> 'v DataBlockCollection" where
  "merge_blocks sz c d =
     (if blocks c = [] then c\<lparr>blocks := blocks d\<rparr>
      else let oldLast = last (blocks c); bs = butlast (blocks c) @ blocks d; newLast = last bs;
               n = min (numTuplesPerBlock c - numTuples newLast) (numTuples oldLast);
               newLast' = copyTuples oldLast 0 newLast (numTuples newLast) n (blk_numBytesPerTuple c);
               rest = numTuples oldLast - n;
               bs' = butlast bs @ [newLast']
           in if rest > 0
              then c\<lparr>blocks := bs' @ [moveTuples (resetNumTuplesAndFreeSize sz oldLast) n 0 rest (blk_numBytesPerTuple c)]\<rparr>
              else c\<lparr>blocks := bs'\<rparr>)"

text \<open>The rows of a collection, in the order of the blocks.\<close>

definition block_rows :: "'v DataBlock \<Rightarrow> 'v row list" where
  "block_rows b = take (numTuples b) (slots b)"

definition rows :: "'v DataBlockCollection \<Rightarrow> 'v row list" where
  "rows c = concat (map block_rows (blocks c))"

text \<open>
  The invariant of a block of the given size, and of a collection: only the last block may have
  free slots, which is what the arithmetic of \<open>getTuple\<close> relies on.
\<close>

definition block_ok :: "nat \<Rightarrow> nat \<Rightarrow> nat \<Rightarrow> 'v DataBlock \<Rightarrow> bool" where
  "block_ok sz bytes perBlock b \<longleftrightarrow> length (slots b) = perBlock \<and> 0 < numTuples b \<and>
     numTuples b \<le> perBlock \<and> freeSize b = sz - numTuples b * bytes"

definition blocks_ok :: "nat \<Rightarrow> 'v DataBlockCollection \<Rightarrow> bool" where
  "blocks_ok sz c \<longleftrightarrow> 0 < blk_numBytesPerTuple c \<and> blk_numBytesPerTuple c \<le> sz \<and>
     numTuplesPerBlock c = sz div blk_numBytesPerTuple c \<and>
     list_all (block_ok sz (blk_numBytesPerTuple c) (numTuplesPerBlock c)) (blocks c) \<and>
     list_all (\<lambda>b. numTuples b = numTuplesPerBlock c) (butlast (blocks c))"

lemma perBlock_pos: "blocks_ok sz c \<Longrightarrow> 0 < numTuplesPerBlock c"
  by (simp add: blocks_ok_def div_greater_zero_iff)

lemma blocks_okD:
  "blocks_ok sz c \<Longrightarrow> b \<in> set (blocks c) \<Longrightarrow> block_ok sz (blk_numBytesPerTuple c) (numTuplesPerBlock c) b"
  unfolding blocks_ok_def list_all_iff by blast

section \<open>Copying rows\<close>

lemma length_foldl_update: "length (foldl (\<lambda>ss j. ss[k + j := f ss j]) ss js) = length ss"
  by (induction js arbitrary: ss) auto

lemma copy_slots:
  assumes "k + n \<le> length ss" "i + n \<le> length src"
  shows "foldl (\<lambda>ss j. ss[k + j := src ! (i + j)]) ss [0..<n] = take k ss @ take n (drop i src) @ drop (k + n) ss"
  using assms
proof (induction n)
  case (Suc n)
  have "take (Suc n) (drop i src) = take n (drop i src) @ [src ! (i + n)]"
    using Suc.prems by (simp add: take_Suc_conv_app_nth)
  moreover have "drop (k + n) ss = ss ! (k + n) # drop (Suc (k + n)) ss"
    using Suc.prems by (simp add: Cons_nth_drop_Suc)
  ultimately show ?case using Suc by (simp add: list_update_append)
qed simp

text \<open>Shifting rows to the front inside one block reads every slot before it is overwritten.\<close>

lemma move_slots:
  assumes "i + n \<le> length ss"
  shows "foldl (\<lambda>ss j. ss[j := ss ! (i + j)]) ss [0..<n] = take n (drop i ss) @ drop n ss"
  using assms
proof (induction n)
  case (Suc n)
  have "take (Suc n) (drop i ss) = take n (drop i ss) @ [ss ! (i + n)]"
    using Suc.prems by (simp add: take_Suc_conv_app_nth)
  moreover have "drop n ss = ss ! n # drop (Suc n) ss"
    using Suc.prems by (simp add: Cons_nth_drop_Suc)
  moreover have "(take n (drop i ss) @ drop n ss) ! (i + n) = ss ! (i + n)"
    using Suc.prems by (simp add: nth_append add.commute)
  ultimately show ?case using Suc by (simp add: list_update_append)
qed simp

lemma copyTuples_ok:
  assumes "block_ok sz bytes per src" "block_ok sz bytes per dst" "n \<le> numTuples src"
    and "numTuples dst + n \<le> per"
  shows "block_ok sz bytes per (copyTuples src 0 dst (numTuples dst) n bytes) \<and>
    block_rows (copyTuples src 0 dst (numTuples dst) n bytes) = block_rows dst @ take n (block_rows src)"
proof -
  have len: "length (slots src) = per" "length (slots dst) = per" "n \<le> per"
    using assms by (auto simp: block_ok_def)
  have "foldl (\<lambda>ss j. ss[numTuples dst + j := slots src ! (0 + j)]) (slots dst) [0..<n] =
      take (numTuples dst) (slots dst) @ take n (drop 0 (slots src)) @ drop (numTuples dst + n) (slots dst)"
    using assms len by (intro copy_slots) auto
  then have "slots (copyTuples src 0 dst (numTuples dst) n bytes) =
      take (numTuples dst) (slots dst) @ take n (slots src) @ drop (numTuples dst + n) (slots dst)"
    by (simp add: copyTuples_def Let_def)
  moreover have "numTuples (copyTuples src 0 dst (numTuples dst) n bytes) = numTuples dst + n"
    "freeSize (copyTuples src 0 dst (numTuples dst) n bytes) = freeSize dst - n * bytes"
    by (simp_all add: copyTuples_def Let_def)
  ultimately show ?thesis using assms len
    by (auto simp: block_ok_def block_rows_def add_mult_distrib min_def)
qed

lemma moveTuples_ok:
  assumes "block_ok sz bytes per b" "k < numTuples b"
  defines "n \<equiv> numTuples b - k"
  shows "block_ok sz bytes per (moveTuples (resetNumTuplesAndFreeSize sz b) k 0 n bytes) \<and>
    block_rows (moveTuples (resetNumTuplesAndFreeSize sz b) k 0 n bytes) = drop k (block_rows b)"
proof -
  have len: "length (slots b) = per" "k + n = numTuples b" "k + n \<le> per" "0 < n"
    using assms by (auto simp: block_ok_def)
  have "foldl (\<lambda>ss j. ss[0 + j := ss ! (k + j)]) (slots b) [0..<n] = take n (drop k (slots b)) @ drop n (slots b)"
    using move_slots[of k n "slots b"] len by simp
  then have s: "slots (moveTuples (resetNumTuplesAndFreeSize sz b) k 0 n bytes) = take n (drop k (slots b)) @ drop n (slots b)"
    by (simp add: moveTuples_def resetNumTuplesAndFreeSize_def Let_def)
  have "drop k (take (numTuples b) (slots b)) = take n (drop k (slots b))"
    using len by (simp add: drop_take n_def)
  with s len show ?thesis
    by (auto simp: block_ok_def block_rows_def moveTuples_def resetNumTuplesAndFreeSize_def Let_def)
qed


section \<open>Merging and addressing blocks\<close>

lemma merge_blocks_ok:
  assumes c: "blocks_ok sz c" and d: "blocks_ok sz d" "blocks d \<noteq> []"
    and bytes: "blk_numBytesPerTuple d = blk_numBytesPerTuple c"
  shows "blocks_ok sz (merge_blocks sz c d) \<and> mset (rows (merge_blocks sz c d)) = mset (rows c) + mset (rows d) \<and>
    blk_numBytesPerTuple (merge_blocks sz c d) = blk_numBytesPerTuple c"
proof (cases "blocks c = []")
  case True
  with c d bytes show ?thesis by (auto simp: merge_blocks_def blocks_ok_def rows_def)
next
  case False
  define by' per where "by' = blk_numBytesPerTuple c" and "per = numTuplesPerBlock c"
  have per: "numTuplesPerBlock d = per" using c d bytes by (simp add: blocks_ok_def per_def)
  obtain cs old where cs: "blocks c = cs @ [old]" using False by (metis append_butlast_last_id)
  obtain ds nl where ds: "blocks d = ds @ [nl]" using d(2) by (metis append_butlast_last_id)
  have ok: "list_all (block_ok sz by' per) cs" "block_ok sz by' per old" "list_all (block_ok sz by' per) ds"
    "block_ok sz by' per nl" and full: "list_all (\<lambda>b. numTuples b = per) cs" "list_all (\<lambda>b. numTuples b = per) ds"
    using c d(1) bytes per by (auto simp: blocks_ok_def cs ds by'_def per_def)
  define n where "n = min (per - numTuples nl) (numTuples old)"
  have nl: "numTuples nl \<le> per" using ok(4) by (simp add: block_ok_def)
  define nl' where "nl' = copyTuples old 0 nl (numTuples nl) n by'"
  have nl': "block_ok sz by' per nl' \<and> block_rows nl' = block_rows nl @ take n (block_rows old)"
    unfolding nl'_def using ok nl by (intro copyTuples_ok) (auto simp: n_def)
  have num: "numTuples nl' = numTuples nl + n" by (simp add: nl'_def copyTuples_def Let_def)
  have len: "length (block_rows old) = numTuples old" using ok(2) by (simp add: block_ok_def block_rows_def)
  show ?thesis
  proof (cases "numTuples old - n > 0")
    case True
    define old' where "old' = moveTuples (resetNumTuplesAndFreeSize sz old) n 0 (numTuples old - n) by'"
    have old': "block_ok sz by' per old' \<and> block_rows old' = drop n (block_rows old)"
      unfolding old'_def using ok(2) True by (intro moveTuples_ok) auto
    have "merge_blocks sz c d = c\<lparr>blocks := cs @ ds @ [nl', old']\<rparr>"
      using True by (simp add: merge_blocks_def cs ds Let_def nl'_def old'_def n_def by'_def per_def butlast_append)
    moreover have "numTuples nl' = per" using True num nl by (auto simp: n_def)
    moreover have "mset (block_rows nl') + mset (block_rows old') = mset (block_rows nl) + mset (block_rows old)"
      using nl' old' by (metis append_take_drop_id mset_append union_assoc)
    ultimately show ?thesis
      using c ok full nl' old' by (auto simp: blocks_ok_def rows_def cs ds by'_def per_def butlast_append)
  next
    case rest: False
    then have "take n (block_rows old) = block_rows old" using len by simp
    moreover have "merge_blocks sz c d = c\<lparr>blocks := cs @ ds @ [nl']\<rparr>"
      using rest by (simp add: merge_blocks_def cs ds Let_def nl'_def n_def by'_def per_def butlast_append)
    ultimately show ?thesis
      using c ok full nl' by (auto simp: blocks_ok_def rows_def cs ds by'_def per_def butlast_append)
  qed
qed

text \<open>Row \<open>i\<close> is in block \<open>i div n\<close> when all blocks but the last have \<open>n\<close> rows.\<close>

lemma nth_concat_blocks:
  assumes "list_all (\<lambda>xs. length xs = n) (butlast xss)" "list_all (\<lambda>xs. length xs \<le> n) xss" "0 < n"
    and "i < length (concat xss)"
  shows "i div n < length xss \<and> i mod n < length (xss ! (i div n)) \<and> xss ! (i div n) ! (i mod n) = concat xss ! i"
  using assms(1,2,4)
proof (induction xss arbitrary: i)
  case (Cons xs xss)
  show ?case
  proof (cases "i < length xs")
    case True
    with Cons.prems show ?thesis by (simp add: nth_append)
  next
    case False
    then have ne: "xss \<noteq> []" using Cons.prems(3) by auto
    with Cons.prems have n: "length xs = n" by simp
    from Cons.IH[of "i - n"] Cons.prems ne False n assms(3) show ?thesis
      by (auto simp: nth_append le_div_geq le_mod_geq)
  qed
qed simp

text \<open>\<open>getBlockIdxAndTupleIdxInBlock\<close> and \<open>getTuple\<close>.\<close>

definition getBlockIdxAndTupleIdxInBlock :: "'v DataBlockCollection \<Rightarrow> nat \<Rightarrow> nat \<times> nat" where
  "getBlockIdxAndTupleIdxInBlock c i = (i div numTuplesPerBlock c, i mod numTuplesPerBlock c)"

definition row_at :: "'v DataBlockCollection \<Rightarrow> tuple_ptr \<Rightarrow> 'v row option" where
  "row_at c p = (case p of (b, k) \<Rightarrow>
     if b < length (blocks c) \<and> k < length (slots (blocks c ! b)) then Some (slots (blocks c ! b) ! k) else None)"

lemma row_at_block_idx:
  assumes "blocks_ok sz c" "i < length (rows c)"
  shows "row_at c (getBlockIdxAndTupleIdxInBlock c i) = Some (rows c ! i)"
proof -
  let ?n = "numTuplesPerBlock c"
  have len: "b \<in> set (blocks c) \<Longrightarrow> length (block_rows b) = numTuples b \<and> numTuples b \<le> ?n \<and> length (slots b) = ?n" for b
    using assms(1) by (auto simp: blocks_ok_def block_ok_def block_rows_def list_all_iff)
  have but: "list_all (\<lambda>xs. length xs = ?n) (butlast (map block_rows (blocks c)))"
    unfolding list_all_iff map_butlast[symmetric]
  proof
    fix xs assume "xs \<in> set (map block_rows (butlast (blocks c)))"
    then obtain b where b: "b \<in> set (butlast (blocks c))" "xs = block_rows b" by auto
    then have "numTuples b = ?n" using assms(1) by (auto simp: blocks_ok_def list_all_iff)
    with len[OF in_set_butlastD[OF b(1)]] b(2) show "length xs = ?n" by simp
  qed
  have le: "list_all (\<lambda>xs. length xs \<le> ?n) (map block_rows (blocks c))"
    using len by (auto simp: list_all_iff)
  have i: "i < length (concat (map block_rows (blocks c)))" using assms(2) by (simp add: rows_def)
  from nth_concat_blocks[OF but le perBlock_pos[OF assms(1)] i]
  have b: "i div ?n < length (blocks c)" "i mod ?n < length (block_rows (blocks c ! (i div ?n)))"
    "block_rows (blocks c ! (i div ?n)) ! (i mod ?n) = rows c ! i" by (auto simp: rows_def)
  moreover have "slots (blocks c ! (i div ?n)) ! (i mod ?n) = block_rows (blocks c ! (i div ?n)) ! (i mod ?n)"
    using b(2) by (simp add: block_rows_def)
  moreover have "i mod ?n < length (slots (blocks c ! (i div ?n)))"
    using b(2) by (simp add: block_rows_def)
  ultimately show ?thesis by (simp add: row_at_def getBlockIdxAndTupleIdxInBlock_def)
qed


section \<open>Allocating rows\<close>

text \<open>
  \<open>allocateFlatTupleBlocks\<close>: the block, the first slot and the number of rows of every piece. The
  writable part of a block is the end of its buffer, so the slot follows from the free size.
\<close>

type_synonym append_info = "nat \<times> nat \<times> nat"

definition add_block :: "nat \<Rightarrow> nat \<Rightarrow> 'v DataBlockCollection \<Rightarrow> 'v DataBlockCollection" where
  "add_block sz ncols c = c\<lparr>blocks := blocks c @ [new_DataBlock sz (numTuplesPerBlock c) ncols]\<rparr>"

definition take_slots :: "nat \<Rightarrow> 'v DataBlockCollection \<Rightarrow> 'v DataBlockCollection" where
  "take_slots k c =
     (let b = last (blocks c)
      in c\<lparr>blocks := butlast (blocks c) @
           [b\<lparr>freeSize := freeSize b - k * blk_numBytesPerTuple c, numTuples := numTuples b + k\<rparr>]\<rparr>)"

partial_function (option) allocateFlatTupleBlocks ::
  "nat \<Rightarrow> nat \<Rightarrow> 'v DataBlockCollection \<Rightarrow> nat \<Rightarrow> ('v DataBlockCollection \<times> append_info list) option" where
  "allocateFlatTupleBlocks sz ncols c n =
     (if n = 0 then Some (c, [])
      else let c1 = (if needAllocation c (blk_numBytesPerTuple c) then add_block sz ncols c else c);
               b = last (blocks c1);
               k = min n (freeSize b div blk_numBytesPerTuple c1);
               start = (sz - freeSize b) div blk_numBytesPerTuple c1
           in Option.bind (allocateFlatTupleBlocks sz ncols (take_slots k c1) (n - k)) (\<lambda>(c', infos).
                Some (c', (length (blocks c1) - 1, start, k) # infos)))"

declare allocateFlatTupleBlocks.simps [code]

definition info_ptrs :: "append_info \<Rightarrow> tuple_ptr list" where
  "info_ptrs = (\<lambda>(b, start, k). map (\<lambda>i. (b, start + i)) [0..<k])"

text \<open>
  Slots that were never used have no null bit set. Merging may leave used slots behind the rows of
  a block, so a table is clean only if the free slots of its last block are.
\<close>

definition clean_slots :: "nat \<Rightarrow> 'v DataBlock \<Rightarrow> bool" where
  "clean_slots ncols b \<longleftrightarrow> list_all (\<lambda>(cells, nulls). length cells = ncols \<and> nulls = replicate ncols False)
     (drop (numTuples b) (slots b))"

definition clean :: "nat \<Rightarrow> 'v DataBlockCollection \<Rightarrow> bool" where
  "clean ncols c \<longleftrightarrow> blocks c \<noteq> [] \<longrightarrow> clean_slots ncols (last (blocks c))"

text \<open>A collection whose last block may be empty, which is the state right after an allocation.\<close>

definition open_ok :: "nat \<Rightarrow> 'v DataBlockCollection \<Rightarrow> bool" where
  "open_ok sz c \<longleftrightarrow> 0 < blk_numBytesPerTuple c \<and> blk_numBytesPerTuple c \<le> sz \<and>
     numTuplesPerBlock c = sz div blk_numBytesPerTuple c \<and> blocks c \<noteq> [] \<and>
     list_all (block_ok sz (blk_numBytesPerTuple c) (numTuplesPerBlock c)) (butlast (blocks c)) \<and>
     list_all (\<lambda>b. numTuples b = numTuplesPerBlock c) (butlast (blocks c)) \<and>
     (let b = last (blocks c) in length (slots b) = numTuplesPerBlock c \<and> numTuples b < numTuplesPerBlock c \<and>
        freeSize b = sz - numTuples b * blk_numBytesPerTuple c)"

lemma free_rows:
  fixes bytes :: nat
  assumes "0 < bytes" "n \<le> sz div bytes"
  shows "(sz - n * bytes) div bytes = sz div bytes - n" "sz - (sz - n * bytes) = n * bytes"
    and "sz - n * bytes < bytes \<longleftrightarrow> n = sz div bytes"
proof -
  have "n * bytes \<le> sz div bytes * bytes" using assms(2) by (rule mult_le_mono1)
  also have "\<dots> \<le> sz" by (rule div_times_less_eq_dividend)
  finally have le: "n * bytes \<le> sz" .
  define r where "r = sz - n * bytes"
  then have sz: "sz = r + n * bytes" using le by simp
  show d: "(sz - n * bytes) div bytes = sz div bytes - n"
    unfolding sz using assms(1) by simp
  show "sz - (sz - n * bytes) = n * bytes" using le by simp
  have "sz - n * bytes < bytes \<longleftrightarrow> (sz - n * bytes) div bytes = 0"
    using assms(1) by (simp add: div_eq_0_iff)
  then show "sz - n * bytes < bytes \<longleftrightarrow> n = sz div bytes" using d assms(2) by auto
qed


lemma full_blocks_length:
  "list_all (block_ok sz bytes per) bs \<Longrightarrow> list_all (\<lambda>b. numTuples b = per) bs \<Longrightarrow>
     length (concat (map block_rows bs)) = length bs * per"
  by (induction bs) (auto simp: block_ok_def block_rows_def)

text \<open>Before rows are taken, the last block has a free slot.\<close>

lemma open_block:
  fixes c :: "'v DataBlockCollection" and ncols :: nat
  assumes "blocks_ok sz c"
  defines "c1 \<equiv> (if needAllocation c (blk_numBytesPerTuple c) then add_block sz ncols c else c)"
  shows "open_ok sz c1 \<and> rows c1 = rows c \<and> numTuplesPerBlock c1 = numTuplesPerBlock c \<and>
    blk_numBytesPerTuple c1 = blk_numBytesPerTuple c \<and> (clean ncols c \<longrightarrow> clean ncols c1)"
proof -
  let ?by = "blk_numBytesPerTuple c" and ?per = "numTuplesPerBlock c"
  have pos: "0 < ?by" "?per = sz div ?by" "0 < ?per"
    using assms(1) perBlock_pos[OF assms(1)] by (auto simp: blocks_ok_def)
  show ?thesis
  proof (cases "needAllocation c ?by")
    case True
    have full: "list_all (\<lambda>b. numTuples b = ?per) (blocks c)"
    proof (cases "blocks c = []")
      case False
      then have l: "last (blocks c) \<in> set (blocks c)" by simp
      then have "block_ok sz ?by ?per (last (blocks c))" by (rule blocks_okD[OF assms(1)])
      then have "numTuples (last (blocks c)) = ?per"
        using True False free_rows(3)[OF pos(1)] pos(2) by (auto simp: block_ok_def needAllocation_def)
      moreover have "list_all (\<lambda>b. numTuples b = ?per) (butlast (blocks c))" using assms(1) unfolding blocks_ok_def by blast
      ultimately show ?thesis by (cases "blocks c" rule: rev_cases) auto
    qed simp
    with True assms(1) pos show ?thesis
      unfolding c1_def by (auto simp: add_block_def open_ok_def blocks_ok_def rows_def new_DataBlock_def block_rows_def
          clean_def clean_slots_def list_all_iff)
  next
    case False
    then have ne: "blocks c \<noteq> []" and free: "\<not> freeSize (last (blocks c)) < ?by" by (auto simp: needAllocation_def)
    then have l: "last (blocks c) \<in> set (blocks c)" by simp
    then have ok: "block_ok sz ?by ?per (last (blocks c))" by (rule blocks_okD[OF assms(1)])
    then have "numTuples (last (blocks c)) \<noteq> ?per"
      using free free_rows(3)[OF pos(1)] pos(2) by (auto simp: block_ok_def)
    with ok have lt: "numTuples (last (blocks c)) < ?per" by (auto simp: block_ok_def)
    have but: "list_all (block_ok sz ?by ?per) (butlast (blocks c))"
      using blocks_okD[OF assms(1)] by (auto simp: list_all_iff dest: in_set_butlastD)
    have c1: "c1 = c" using False by (simp add: c1_def)
    have "length (slots (last (blocks c))) = ?per" "freeSize (last (blocks c)) = sz - numTuples (last (blocks c)) * ?by"
      using ok by (auto simp: block_ok_def)
    then have "open_ok sz c"
      unfolding open_ok_def Let_def using lt but ne assms(1) unfolding blocks_ok_def by blast
    with c1 show ?thesis by simp
  qed
qed

lemma take_slots_ok:
  assumes c: "open_ok sz c" and k: "0 < k" "k \<le> numTuplesPerBlock c - numTuples (last (blocks c))"
  defines "b \<equiv> last (blocks c)"
  shows "blocks_ok sz (take_slots k c) \<and> rows (take_slots k c) = rows c @ take k (drop (numTuples b) (slots b)) \<and>
    length (rows c) = (length (blocks c) - 1) * numTuplesPerBlock c + numTuples b \<and>
    (clean ncols c \<longrightarrow> clean ncols (take_slots k c))"
proof -
  obtain bs where bs: "blocks c = bs @ [b]" using c unfolding b_def open_ok_def
    by (metis append_butlast_last_id)
  have facts: "length (slots b) = numTuplesPerBlock c" "numTuples b < numTuplesPerBlock c"
    "freeSize b = sz - numTuples b * blk_numBytesPerTuple c"
    "list_all (block_ok sz (blk_numBytesPerTuple c) (numTuplesPerBlock c)) bs"
    "list_all (\<lambda>b. numTuples b = numTuplesPerBlock c) bs"
    using c by (auto simp: open_ok_def bs Let_def)
  have k': "numTuples b + k \<le> numTuplesPerBlock c" using k facts(2) by (simp add: bs)
  have r: "take (numTuples b + k) (slots b) = take (numTuples b) (slots b) @ take k (drop (numTuples b) (slots b))"
    by (rule take_add)
  have "blocks_ok sz (take_slots k c)"
    using c facts k k' by (auto simp: blocks_ok_def open_ok_def take_slots_def bs Let_def block_ok_def add_mult_distrib)
  moreover have "rows (take_slots k c) = rows c @ take k (drop (numTuples b) (slots b))"
    by (simp add: take_slots_def rows_def bs Let_def block_rows_def r)
  moreover have "length (rows c) = (length (blocks c) - 1) * numTuplesPerBlock c + numTuples b"
    using full_blocks_length[OF facts(4,5)] facts(1,2) by (simp add: rows_def bs block_rows_def)
  moreover have "clean ncols c \<longrightarrow> clean ncols (take_slots k c)"
  proof
    assume cl: "clean ncols c"
    have "set (drop (numTuples b + k) (slots b)) \<subseteq> set (drop (numTuples b) (slots b))"
      by (rule set_drop_subset_set_drop) simp
    with cl show "clean ncols (take_slots k c)"
      by (simp add: clean_def clean_slots_def take_slots_def bs Let_def list_all_iff) blast
  qed
  ultimately show ?thesis by blast
qed

lemma block_idx_in_block:
  assumes "m + i < per"
  shows "(q * per + (m + i)) div per = q" "(q * per + (m + i)) mod per = (m + i :: nat)"
  using assms by auto

lemma allocate_ok:
  assumes "blocks_ok sz c"
  shows "\<exists>c' infos stale. allocateFlatTupleBlocks sz ncols c n = Some (c', infos) \<and> blocks_ok sz c' \<and>
    rows c' = rows c @ stale \<and> length stale = n \<and> numTuplesPerBlock c' = numTuplesPerBlock c \<and>
    blk_numBytesPerTuple c' = blk_numBytesPerTuple c \<and>
    concat (map info_ptrs infos) = map (\<lambda>i. getBlockIdxAndTupleIdxInBlock c (length (rows c) + i)) [0..<n] \<and>
    (clean ncols c \<longrightarrow> clean ncols c' \<and> (\<forall>r\<in>set stale. length (fst r) = ncols \<and> snd r = replicate ncols False))"
  using assms
proof (induction n arbitrary: c rule: less_induct)
  case (less n)
  show ?case
  proof (cases "n = 0")
    case True
    with less.prems show ?thesis by (subst allocateFlatTupleBlocks.simps) simp
  next
    case False
    define c1 where "c1 = (if needAllocation c (blk_numBytesPerTuple c) then add_block sz ncols c else c)"
    note c1 = open_block[OF less.prems, of ncols, folded c1_def]
    define b where "b = last (blocks c1)"
    define by' per where "by' = blk_numBytesPerTuple c" and "per = numTuplesPerBlock c"
    have pos: "0 < by'" "per = sz div by'" using less.prems by (auto simp: blocks_ok_def by'_def per_def)
    have b: "numTuples b < per" "freeSize b = sz - numTuples b * by'" "length (slots b) = per"
      using c1 by (auto simp: open_ok_def b_def per_def by'_def Let_def)
    then have nb: "numTuples b \<le> sz div by'" using pos by simp
    define k where "k = min n (freeSize b div blk_numBytesPerTuple c1)"
    have k: "k = min n (per - numTuples b)" "0 < k" "k \<le> n"
      using c1 b free_rows(1)[OF pos(1) nb] pos False by (auto simp: k_def by'_def[symmetric])
    have start: "(sz - freeSize b) div blk_numBytesPerTuple c1 = numTuples b"
      using c1 b(2) free_rows(2)[OF pos(1) nb] pos(1) by (simp add: by'_def[symmetric])
    define c2 where "c2 = take_slots k c1"
    have "k \<le> numTuplesPerBlock c1 - numTuples (last (blocks c1))" using k(1) c1 by (simp add: b_def per_def)
    note c2 = take_slots_ok[OF conjunct1[OF c1] k(2) this, of ncols, folded c2_def b_def]
    define new where "new = take k (drop (numTuples b) (slots b))"
    have new: "length new = k" using b k(1) by (simp add: new_def)
    from less.IH[of "n - k" c2] k False c2 obtain c' infos stale where
      rec: "allocateFlatTupleBlocks sz ncols c2 (n - k) = Some (c', infos)" "blocks_ok sz c'"
      "rows c' = rows c2 @ stale" "length stale = n - k" "numTuplesPerBlock c' = numTuplesPerBlock c2"
      "blk_numBytesPerTuple c' = blk_numBytesPerTuple c2"
      "concat (map info_ptrs infos) = map (\<lambda>i. getBlockIdxAndTupleIdxInBlock c2 (length (rows c2) + i)) [0..<n - k]"
      "clean ncols c2 \<longrightarrow> clean ncols c' \<and> (\<forall>r\<in>set stale. length (fst r) = ncols \<and> snd r = replicate ncols False)"
      by auto
    have same: "numTuplesPerBlock c2 = per" "blk_numBytesPerTuple c2 = by'"
      using c1 by (simp_all add: c2_def take_slots_def Let_def per_def by'_def)
    have rows2: "rows c2 = rows c @ new" using c2 c1 by (simp add: new_def)
    define q where "q = length (blocks c1) - 1"
    have len: "length (rows c) = q * per + numTuples b" using c2 c1 by (simp add: q_def per_def)
    have ptrs1: "info_ptrs (q, numTuples b, k) = map (\<lambda>i. getBlockIdxAndTupleIdxInBlock c (length (rows c) + i)) [0..<k]"
      using b(1) k(1) block_idx_in_block[of "numTuples b" _ per q]
      by (auto simp: info_ptrs_def getBlockIdxAndTupleIdxInBlock_def len per_def[symmetric] add.assoc)
    have "map (\<lambda>i. getBlockIdxAndTupleIdxInBlock c2 (length (rows c2) + i)) [0..<n - k] =
        map (\<lambda>i. getBlockIdxAndTupleIdxInBlock c (length (rows c) + i)) (map (\<lambda>i. i + k) [0..<n - k])"
      by (simp add: getBlockIdxAndTupleIdxInBlock_def same per_def[symmetric] rows2 new ac_simps)
    moreover have "map (\<lambda>i. i + k) [0..<n - k] = [k..<n]" using k(3) by (simp add: map_add_upt)
    moreover have "[0..<n] = [0..<k] @ [k..<n]" using k(3) by (metis le_add_diff_inverse le0 upt_add_eq_append plus_nat.add_0)
    ultimately have ptrs: "concat (map info_ptrs ((q, numTuples b, k) # infos)) =
        map (\<lambda>i. getBlockIdxAndTupleIdxInBlock c (length (rows c) + i)) [0..<n]"
      using ptrs1 rec(7) by simp
    have cl: "length (fst r) = ncols \<and> snd r = replicate ncols False" if "clean ncols c" "r \<in> set new" for r
    proof -
      have "clean_slots ncols b" using c1 that(1) by (auto simp: clean_def b_def open_ok_def)
      with that(2) show ?thesis
        by (auto simp: clean_slots_def list_all_iff new_def case_prod_beta dest!: in_set_takeD)
    qed
    have "allocateFlatTupleBlocks sz ncols c n = Some (c', (q, numTuples b, k) # infos)"
      using False rec(1) start
      by (subst allocateFlatTupleBlocks.simps) (simp add: Let_def c1_def[symmetric] b_def[symmetric] k_def[symmetric] c2_def[symmetric] q_def)
    moreover have "rows c' = rows c @ new @ stale" using rec(3) rows2 by simp
    moreover have "length (new @ stale) = n" using new rec(4) k(3) by simp
    ultimately show ?thesis using rec same ptrs cl c1 c2 by (auto simp: per_def by'_def)
  qed
qed

end
