(* ===== verification/FactorizedAppend.thy ===== *)
theory FactorizedAppend
  imports FactorizedTable
begin

text \<open>
  Writing to and reading from a factorized table: value vectors are copied column by column into
  freshly allocated rows, unflat columns through overflow blocks.

  A value vector is its buffer (\<open>None\<close> is a null), its selected positions and its flat flag; the
  width of a value in a row is a field, because it is read from the type of the vector.
\<close>

section \<open>Vectors, overflow blocks and tables\<close>

record 'v ValueVector =
  vflat :: bool
  vsel :: "nat list"
  vvals :: "'v option list"
  vbytes :: nat

definition selected :: "'v ValueVector \<Rightarrow> 'v option list" where
  "selected v = map (\<lambda>pos. vvals v ! pos) (vsel v)"

type_synonym 'v overflow_heap = "'v option list list"

record unflat_block =
  ublk_size :: "64 word"
  ublk_free :: "64 word"

record 'v FactorizedTable =
  tableSchema :: FactorizedTableSchema
  ft_numTuples :: nat
  flatTupleBlockSize :: nat
  flatTupleBlockCollection :: "'v DataBlockCollection"
  unFlatTupleBlocks :: "unflat_block list"

text \<open>The constructor throws when a row does not fit into a page.\<close>

definition new_FactorizedTable :: "nat \<Rightarrow> FactorizedTableSchema \<Rightarrow> 'v FactorizedTable option" where
  "new_FactorizedTable pageSize s =
     (if numBytesPerTuple s > pageSize then None
      else Some \<lparr>tableSchema = s, ft_numTuples = 0, flatTupleBlockSize = pageSize,
             flatTupleBlockCollection = new_DataBlockCollection (numBytesPerTuple s) (pageSize div numBytesPerTuple s),
             unFlatTupleBlocks = []\<rparr>)"

text \<open>The number of bytes is a 32-bit number, and so is the size of a block of its own: it wraps around to zero.\<close>

definition getDataBlockSize :: "nat \<Rightarrow> 32 word \<Rightarrow> 64 word" where
  "getDataBlockSize pageSize n = (if unat n < pageSize then of_nat pageSize else ucast (n + 1))"

text \<open>
  \<open>allocateUnflatTupleBlock\<close>: the blocks with the free size reduced, the block and the offset of
  the region in it. The writable part of a block is the end of its buffer.
\<close>

definition allocateUnflatTupleBlock :: "nat \<Rightarrow> unflat_block list \<Rightarrow> 32 word \<Rightarrow> unflat_block list \<times> nat \<times> nat" where
  "allocateUnflatTupleBlock pageSize bs n =
     (let new = \<lparr>ublk_size = getDataBlockSize pageSize n, ublk_free = getDataBlockSize pageSize n\<rparr>;
          bs1 = (if bs = [] then [new] else bs); b = last bs1
      in if ublk_free b > ucast n
         then (butlast bs1 @ [b\<lparr>ublk_free := ublk_free b - ucast n\<rparr>], length bs1 - 1, unat (ublk_size b - ublk_free b))
         else (bs1 @ [new\<lparr>ublk_free := ublk_free new - ucast n\<rparr>], length bs1, 0))"

section \<open>Copying a vector into a column\<close>

definition set_row :: "tuple_ptr \<Rightarrow> ('v row \<Rightarrow> 'v row) \<Rightarrow> 'v DataBlockCollection \<Rightarrow> 'v DataBlockCollection" where
  "set_row p f c = (case p of (b, k) \<Rightarrow>
     c\<lparr>blocks := (blocks c)[b := (blocks c ! b)\<lparr>slots := (slots (blocks c ! b))[k := f (slots (blocks c ! b) ! k)]\<rparr>]\<rparr>)"

text \<open>A value overwrites the cell and leaves the null bit; a null sets the bit and leaves the cell.\<close>

definition write_value :: "nat \<Rightarrow> 'v option \<Rightarrow> 'v row \<Rightarrow> 'v row" where
  "write_value col x r = (case x of None \<Rightarrow> (fst r, (snd r)[col := True]) | Some v \<Rightarrow> ((fst r)[col := Value v], snd r))"

definition write_flat :: "nat \<Rightarrow> 'v option \<Rightarrow> tuple_ptr \<Rightarrow> 'v FactorizedTable \<Rightarrow> 'v FactorizedTable" where
  "write_flat col x p t =
     t\<lparr>flatTupleBlockCollection := set_row p (write_value col x) (flatTupleBlockCollection t),
       tableSchema := (if x = None then setMayContainsNullsToTrue col (tableSchema t) else tableSchema t)\<rparr>"

definition copyFlatVectorToFlatColumn ::
  "'v ValueVector \<Rightarrow> append_info \<Rightarrow> nat \<Rightarrow> 'v FactorizedTable \<Rightarrow> 'v FactorizedTable" where
  "copyFlatVectorToFlatColumn v info col t =
     (let pos = vsel v ! 0 in foldl (\<lambda>t p. write_flat col (vvals v ! pos) p t) t (info_ptrs info))"

definition copyUnflatVectorToFlatColumn ::
  "'v ValueVector \<Rightarrow> append_info \<Rightarrow> nat \<Rightarrow> nat \<Rightarrow> 'v FactorizedTable \<Rightarrow> 'v FactorizedTable" where
  "copyUnflatVectorToFlatColumn v info numAppended col t =
     (case info of (b, start, n) \<Rightarrow>
        foldl (\<lambda>t i. write_flat col (vvals v ! (vsel v ! (numAppended + i))) (b, start + i) t) t [0..<n])"

definition copyVectorToFlatColumn ::
  "'v ValueVector \<Rightarrow> append_info \<Rightarrow> nat \<Rightarrow> nat \<Rightarrow> 'v FactorizedTable \<Rightarrow> 'v FactorizedTable" where
  "copyVectorToFlatColumn v info numAppended col t =
     (if vflat v then copyFlatVectorToFlatColumn v info col t
      else copyUnflatVectorToFlatColumn v info numAppended col t)"

definition appendVectorToUnflatTupleBlocks ::
  "'v ValueVector \<Rightarrow> nat \<Rightarrow> 'v overflow_heap \<times> 'v FactorizedTable \<Rightarrow> ('v cell \<times> 'v overflow_heap \<times> 'v FactorizedTable) option" where
  "appendVectorToUnflatTupleBlocks v col = (\<lambda>(heap, t).
     do { ku_assert (\<not> vflat v);
          let n = length (vsel v);
          let (bs, b, off) = allocateUnflatTupleBlock (flatTupleBlockSize t) (unFlatTupleBlocks t)
                (of_nat (vbytes v * n + getNumBytesForNullValues n));
          let s = (if None \<in> set (selected v) then setMayContainsNullsToTrue col (tableSchema t) else tableSchema t);
          Some (Overflow n (length heap), heap @ [selected v], t\<lparr>unFlatTupleBlocks := bs, tableSchema := s\<rparr>) })"

definition copyVectorToUnflatColumn ::
  "'v ValueVector \<Rightarrow> append_info \<Rightarrow> nat \<Rightarrow> 'v overflow_heap \<times> 'v FactorizedTable \<Rightarrow> ('v overflow_heap \<times> 'v FactorizedTable) option" where
  "copyVectorToUnflatColumn v info col st =
     do { (x, heap, t) \<leftarrow> appendVectorToUnflatTupleBlocks v col st;
          Some (heap, foldl (\<lambda>t p. t\<lparr>flatTupleBlockCollection :=
                set_row p (\<lambda>r. ((fst r)[col := x], snd r)) (flatTupleBlockCollection t)\<rparr>) t (info_ptrs info)) }"

definition copyVectorToColumn ::
  "'v ValueVector \<Rightarrow> append_info \<Rightarrow> nat \<Rightarrow> nat \<Rightarrow> 'v overflow_heap \<times> 'v FactorizedTable \<Rightarrow> ('v overflow_heap \<times> 'v FactorizedTable) option" where
  "copyVectorToColumn v info numAppended col st =
     (if isFlat (columns (tableSchema (snd st)) ! col)
      then Some (fst st, copyVectorToFlatColumn v info numAppended col (snd st))
      else copyVectorToUnflatColumn v info col st)"

text \<open>One column of all pieces; the second component counts the rows already written.\<close>

definition append_column ::
  "nat \<Rightarrow> append_info list \<Rightarrow> 'v overflow_heap \<times> 'v FactorizedTable \<Rightarrow> nat \<times> 'v ValueVector \<Rightarrow> ('v overflow_heap \<times> 'v FactorizedTable) option" where
  "append_column n infos st = (\<lambda>(col, v).
     do { (st', numAppended) \<leftarrow> foldM (\<lambda>(st, numAppended) info.
            do { st' \<leftarrow> copyVectorToColumn v info numAppended col st; Some (st', numAppended + snd (snd info)) })
          (st, 0) infos;
          ku_assert (numAppended = n);
          Some st' })"

definition computeNumTuplesToAppend :: "FactorizedTableSchema \<Rightarrow> 'v ValueVector list \<Rightarrow> nat option" where
  "computeNumTuplesToAppend s vectors =
     do { ku_assert (vectors \<noteq> []);
          Some (foldl (\<lambda>n i. if isFlat (columns s ! i) \<and> \<not> vflat (vectors ! i) then length (vsel (vectors ! i)) else n)
       1 [0..<length vectors]) }"

text \<open>Appending a given number of rows, as \<open>append\<close> and the join hash table do.\<close>

definition append_vectors ::
  "nat \<Rightarrow> 'v ValueVector list \<Rightarrow> 'v overflow_heap \<times> 'v FactorizedTable \<Rightarrow> ('v overflow_heap \<times> 'v FactorizedTable) option" where
  "append_vectors n vectors = (\<lambda>(heap, t).
     do { (c, infos) \<leftarrow> allocateFlatTupleBlocks (flatTupleBlockSize t) (length (columns (tableSchema t)))
            (flatTupleBlockCollection t) n;
          (heap', t') \<leftarrow> foldM (append_column n infos) (heap, t\<lparr>flatTupleBlockCollection := c\<rparr>) (enumerate 0 vectors);
          Some (heap', t'\<lparr>ft_numTuples := ft_numTuples t' + n\<rparr>) })"

definition append ::
  "'v ValueVector list \<Rightarrow> 'v overflow_heap \<times> 'v FactorizedTable \<Rightarrow> ('v overflow_heap \<times> 'v FactorizedTable) option" where
  "append vectors st =
     do { n \<leftarrow> computeNumTuplesToAppend (tableSchema (snd st)) vectors; append_vectors n vectors st }"

section \<open>Rows and pointers\<close>

lemma nth_update_if: "xs[i := x] ! j = (if i = j \<and> j < length xs then x else xs ! j)"
  by (cases "i < length xs") (auto simp: nth_list_update list_update_beyond)

lemma concat_update_blocks:
  assumes "list_all (\<lambda>xs. length xs = n) (butlast xss)" "list_all (\<lambda>xs. length xs \<le> n) xss" "0 < n"
    and "i < length (concat xss)"
  shows "concat (xss[i div n := (xss ! (i div n))[i mod n := v]]) = (concat xss)[i := v]"
  using assms(1,2,4)
proof (induction xss arbitrary: i)
  case (Cons xs xss)
  show ?case
  proof (cases "i < length xs")
    case True
    with Cons.prems show ?thesis by (simp add: list_update_append)
  next
    case False
    then have ne: "xss \<noteq> []" using Cons.prems(3) by auto
    with Cons.prems have n: "length xs = n" by simp
    from Cons.IH[of "i - n"] Cons.prems ne False n assms(3) show ?thesis
      by (auto simp: list_update_append le_div_geq le_mod_geq)
  qed
qed simp

lemma block_row_lengths:
  assumes "blocks_ok sz c"
  shows "list_all (\<lambda>xs. length xs = numTuplesPerBlock c) (butlast (map block_rows (blocks c)))"
    and "list_all (\<lambda>xs. length xs \<le> numTuplesPerBlock c) (map block_rows (blocks c))"
proof -
  have len: "b \<in> set (blocks c) \<Longrightarrow> length (block_rows b) = numTuples b \<and> numTuples b \<le> numTuplesPerBlock c" for b
    using blocks_okD[OF assms] by (auto simp: block_ok_def block_rows_def)
  show "list_all (\<lambda>xs. length xs \<le> numTuplesPerBlock c) (map block_rows (blocks c))"
    using len by (auto simp: list_all_iff)
  show "list_all (\<lambda>xs. length xs = numTuplesPerBlock c) (butlast (map block_rows (blocks c)))"
    unfolding list_all_iff map_butlast[symmetric]
  proof
    fix xs assume "xs \<in> set (map block_rows (butlast (blocks c)))"
    then obtain b where b: "b \<in> set (butlast (blocks c))" "xs = block_rows b" by auto
    then have "numTuples b = numTuplesPerBlock c" using assms unfolding blocks_ok_def list_all_iff by blast
    with len[OF in_set_butlastD[OF b(1)]] b(2) show "length xs = numTuplesPerBlock c" by simp
  qed
qed

text \<open>Updating the row at the address of row \<open>i\<close> updates row \<open>i\<close>.\<close>

lemma set_row_ok:
  fixes f :: "'v row \<Rightarrow> 'v row"
  assumes "blocks_ok sz c" "i < length (rows c)"
  defines "c' \<equiv> set_row (getBlockIdxAndTupleIdxInBlock c i) f c"
  shows "blocks_ok sz c' \<and> rows c' = (rows c)[i := f (rows c ! i)] \<and> numTuplesPerBlock c' = numTuplesPerBlock c \<and>
    blk_numBytesPerTuple c' = blk_numBytesPerTuple c \<and> (clean ncols c \<longrightarrow> clean ncols c')"
proof -
  let ?n = "numTuplesPerBlock c"
  define b k where "b = i div ?n" and "k = i mod ?n"
  define B where "B = (blocks c ! b)\<lparr>slots := (slots (blocks c ! b))[k := f (slots (blocks c ! b) ! k)]\<rparr>"
  note lens = block_row_lengths[OF assms(1)]
  have i: "i < length (concat (map block_rows (blocks c)))" using assms(2) by (simp add: rows_def)
  from nth_concat_blocks[OF lens perBlock_pos[OF assms(1)] i]
  have bk: "b < length (blocks c)" "k < length (block_rows (blocks c ! b))"
    "block_rows (blocks c ! b) ! k = rows c ! i" by (auto simp: rows_def b_def k_def)
  then have kn: "k < numTuples (blocks c ! b)" "k < length (slots (blocks c ! b))"
    by (auto simp: block_rows_def)
  have c': "c' = c\<lparr>blocks := (blocks c)[b := B]\<rparr>"
    by (simp add: c'_def set_row_def getBlockIdxAndTupleIdxInBlock_def b_def k_def B_def)
  have B: "block_rows B = (block_rows (blocks c ! b))[k := f (rows c ! i)]"
    using bk kn by (simp add: B_def block_rows_def take_update_swap)
  have "rows c' = concat ((map block_rows (blocks c))[b := (map block_rows (blocks c) ! b)[k := f (rows c ! i)]])"
    using bk(1) by (simp add: c' rows_def B map_update)
  also have "\<dots> = (rows c)[i := f (rows c ! i)]"
    unfolding rows_def b_def k_def by (rule concat_update_blocks[OF lens perBlock_pos[OF assms(1)] i])
  finally have rows: "rows c' = (rows c)[i := f (rows c ! i)]" .
  have num: "numTuples B = numTuples (blocks c ! b)" "length (slots B) = length (slots (blocks c ! b))"
    "freeSize B = freeSize (blocks c ! b)" by (simp_all add: B_def)
  have Bok: "block_ok sz (blk_numBytesPerTuple c) ?n B"
    using blocks_okD[OF assms(1), of "blocks c ! b"] bk(1) num by (simp add: block_ok_def)
  have all: "list_all (block_ok sz (blk_numBytesPerTuple c) ?n) ((blocks c)[b := B])"
    using blocks_okD[OF assms(1)] Bok by (auto simp: list_all_iff dest!: set_update_subset_insert[THEN subsetD])
  have but: "list_all (\<lambda>b. numTuples b = ?n) (butlast ((blocks c)[b := B]))"
    using assms(1) num bk(1) unfolding blocks_ok_def list_all_length
    by (auto simp: butlast_list_update nth_list_update nth_butlast)
  have "blocks_ok sz c'" using assms(1) all but unfolding blocks_ok_def c' by simp
  moreover have "clean ncols c \<longrightarrow> clean ncols c'"
  proof (cases "b = length (blocks c) - 1")
    case True
    moreover have "blocks c \<noteq> []" using bk(1) by auto
    ultimately have "last ((blocks c)[b := B]) = B" "last (blocks c) = blocks c ! b"
      by (simp_all add: last_list_update last_conv_nth)
    moreover have "drop (numTuples B) (slots B) = drop (numTuples (blocks c ! b)) (slots (blocks c ! b))"
      using kn by (simp add: B_def)
    ultimately show ?thesis by (auto simp: clean_def clean_slots_def c')
  next
    case False
    moreover have "blocks c \<noteq> []" using bk(1) by auto
    ultimately have "last ((blocks c)[b := B]) = last (blocks c)" by (simp add: last_list_update)
    then show ?thesis by (auto simp: clean_def c')
  qed
  ultimately show ?thesis using rows by (simp add: c')
qed


section \<open>What a row shows\<close>

text \<open>A cell as a reader sees it: a null, a value, or the list behind an overflow pointer.\<close>

datatype 'v view = VNull | VVal 'v | VList "'v option list" | VOther

definition cell_view :: "'v overflow_heap \<Rightarrow> 'v row \<Rightarrow> nat \<Rightarrow> 'v view" where
  "cell_view heap r col =
     (if snd r ! col then VNull else case fst r ! col of Value v \<Rightarrow> VVal v | Overflow n a \<Rightarrow> VList (take n (heap ! a)) | _ \<Rightarrow> VOther)"

definition flat_value :: "'v ValueVector \<Rightarrow> nat \<Rightarrow> 'v option" where
  "flat_value v i = vvals v ! (vsel v ! (if vflat v then 0 else i))"

definition view_of :: "bool \<Rightarrow> 'v ValueVector \<Rightarrow> nat \<Rightarrow> 'v view" where
  "view_of flat_col v i =
     (if flat_col then (case flat_value v i of None \<Rightarrow> VNull | Some x \<Rightarrow> VVal x) else VList (selected v))"

text \<open>The update of one row by one column.\<close>

definition only_col :: "nat \<Rightarrow> 'v row \<Rightarrow> 'v row \<Rightarrow> bool" where
  "only_col col r r' \<longleftrightarrow> length (fst r') = length (fst r) \<and> length (snd r') = length (snd r) \<and>
     (\<forall>j. j \<noteq> col \<longrightarrow> fst r' ! j = fst r ! j \<and> snd r' ! j = snd r ! j)"

lemma only_col_write: "only_col col r (write_value col x r)" "only_col col r ((fst r)[col := y], snd r)"
  by (auto simp: only_col_def write_value_def split: option.split)

text \<open>
  A null bit is only read when the column is flagged, so every null bit must be covered by the flag
  of its column.
\<close>

definition flagged :: "'v FactorizedTable \<Rightarrow> bool" where
  "flagged t \<longleftrightarrow> (\<forall>r\<in>set (rows (flatTupleBlockCollection t)). \<forall>c < length (columns (tableSchema t)).
     snd r ! c \<longrightarrow> mayContainNulls (columns (tableSchema t) ! c))"

text \<open>The invariant of a table, and the state all operations keep.\<close>

definition table_ok :: "'v FactorizedTable \<Rightarrow> bool" where
  "table_ok t \<longleftrightarrow> blocks_ok (flatTupleBlockSize t) (flatTupleBlockCollection t) \<and>
     schema_ok (tableSchema t) \<and> blk_numBytesPerTuple (flatTupleBlockCollection t) = numBytesPerTuple (tableSchema t) \<and>
     ft_numTuples t = length (rows (flatTupleBlockCollection t)) \<and> flagged t \<and>
     clean (length (columns (tableSchema t))) (flatTupleBlockCollection t)"

definition layout :: "FactorizedTableSchema \<Rightarrow> (bool \<times> nat \<times> nat) list" where
  "layout s = map (\<lambda>c. (isUnFlat c, groupID c, numBytes c)) (columns s)"

lemma setMayContainsNulls_ok:
  assumes "schema_ok s"
  shows "schema_ok (setMayContainsNullsToTrue col s) \<and> layout (setMayContainsNullsToTrue col s) = layout s \<and>
    numBytesPerTuple (setMayContainsNullsToTrue col s) = numBytesPerTuple s"
proof (cases "col < length (columns s)")
  case True
  have nb: "map numBytes ((columns s)[col := (columns s ! col)\<lparr>mayContainNulls := True\<rparr>]) = map numBytes (columns s)"
    using True by (simp add: map_update list_update_same_conv)
  then have nbt: "map numBytes (take i ((columns s)[col := (columns s ! col)\<lparr>mayContainNulls := True\<rparr>])) = map numBytes (take i (columns s))" for i
    by (metis take_map)
  have id: "(map f (columns s))[col := f (columns s ! col)] = map f (columns s)" for f :: "ColumnSchema \<Rightarrow> 'b"
    using True by (simp add: list_update_same_conv)
  show ?thesis using assms nbt True id[of numBytes] id[of "\<lambda>c. (isUnFlat c, groupID c, numBytes c)"]
    by (simp add: schema_ok_def setMayContainsNullsToTrue_def layout_def map_update)
next
  case False
  then have "setMayContainsNullsToTrue col s = s" by (simp add: setMayContainsNullsToTrue_def list_update_beyond)
  then show ?thesis using assms by simp
qed

lemma layout_columns:
  "layout s = layout s' \<Longrightarrow> length (columns s) = length (columns s') \<and>
     (i < length (columns s) \<longrightarrow> isFlat (columns s ! i) = isFlat (columns s' ! i))"
  unfolding layout_def isFlat_def by (metis (no_types, lifting) fst_conv length_map nth_map)

text \<open>
  A pass over consecutive rows: every step updates the row at the address of its index. The
  steps may also change the schema flags.
\<close>

definition same_shape :: "'v FactorizedTable \<Rightarrow> 'v FactorizedTable \<Rightarrow> bool" where
  "same_shape t t' \<longleftrightarrow> blocks_ok (flatTupleBlockSize t) (flatTupleBlockCollection t') \<and>
     schema_ok (tableSchema t') \<and> layout (tableSchema t') = layout (tableSchema t) \<and>
     numBytesPerTuple (tableSchema t') = numBytesPerTuple (tableSchema t) \<and>
     blk_numBytesPerTuple (flatTupleBlockCollection t') = blk_numBytesPerTuple (flatTupleBlockCollection t) \<and>
     numTuplesPerBlock (flatTupleBlockCollection t') = numTuplesPerBlock (flatTupleBlockCollection t) \<and>
     ft_numTuples t' = ft_numTuples t \<and> flatTupleBlockSize t' = flatTupleBlockSize t \<and>
     (flagged t \<longrightarrow> flagged t') \<and>
     (\<forall>ncols. clean ncols (flatTupleBlockCollection t) \<longrightarrow> clean ncols (flatTupleBlockCollection t'))"

lemma same_shape_trans: "same_shape a b \<Longrightarrow> same_shape b c \<Longrightarrow> same_shape a c"
  by (auto simp: same_shape_def)

abbreviation trows :: "'v FactorizedTable \<Rightarrow> 'v row list" where
  "trows t \<equiv> rows (flatTupleBlockCollection t)"

abbreviation tptr :: "'v FactorizedTable \<Rightarrow> nat \<Rightarrow> tuple_ptr" where
  "tptr t i \<equiv> getBlockIdxAndTupleIdxInBlock (flatTupleBlockCollection t) i"

lemma same_shape_ptr: "same_shape t t' \<Longrightarrow> tptr t' i = tptr t i"
  by (simp add: same_shape_def getBlockIdxAndTupleIdxInBlock_def)

lemma foldl_rows:
  assumes step: "\<And>t i. blocks_ok (flatTupleBlockSize t) (flatTupleBlockCollection t) \<Longrightarrow> schema_ok (tableSchema t) \<Longrightarrow>
      i < length (trows t) \<Longrightarrow> same_shape t (w i (tptr t i) t) \<and> trows (w i (tptr t i) t) = (trows t)[i := f i (trows t ! i)]"
    and t: "blocks_ok (flatTupleBlockSize t) (flatTupleBlockCollection t)" "schema_ok (tableSchema t)"
    and ptr0: "\<And>i. tptr t0 i = tptr t i" and n: "base + n \<le> length (trows t)"
  shows "same_shape t (foldl (\<lambda>t i. w (base + i) (tptr t0 (base + i)) t) t [0..<n]) \<and>
    trows (foldl (\<lambda>t i. w (base + i) (tptr t0 (base + i)) t) t [0..<n]) =
      take base (trows t) @ map (\<lambda>i. f (base + i) (trows t ! (base + i))) [0..<n] @ drop (base + n) (trows t)"
  using n
proof (induction n)
  case 0
  show ?case using t by (simp add: same_shape_def)
next
  case (Suc n)
  let ?t = "foldl (\<lambda>t i. w (base + i) (tptr t0 (base + i)) t) t [0..<n]"
  have IH: "same_shape t ?t" "trows ?t = take base (trows t) @ map (\<lambda>i. f (base + i) (trows t ! (base + i))) [0..<n] @ drop (base + n) (trows t)"
    using Suc by auto
  have ok: "blocks_ok (flatTupleBlockSize ?t) (flatTupleBlockCollection ?t)" "schema_ok (tableSchema ?t)"
    using IH(1) by (auto simp: same_shape_def)
  have len: "base + n < length (trows ?t)" using IH(2) Suc.prems by simp
  have ptr: "tptr t0 (base + n) = tptr ?t (base + n)" using ptr0 same_shape_ptr[OF IH(1)] by simp
  have nth: "trows ?t ! (base + n) = trows t ! (base + n)" using IH(2) Suc.prems by (simp add: nth_append)
  have d: "drop (base + n) (trows t) = trows t ! (base + n) # drop (Suc (base + n)) (trows t)"
    using Suc.prems by (simp add: Cons_nth_drop_Suc)
  from step[OF ok len] have st: "same_shape ?t (w (base + n) (tptr ?t (base + n)) ?t)"
    "trows (w (base + n) (tptr ?t (base + n)) ?t) = (trows ?t)[base + n := f (base + n) (trows t ! (base + n))]"
    using nth by auto
  have "(trows ?t)[base + n := f (base + n) (trows t ! (base + n))] = take base (trows t) @
      map (\<lambda>i. f (base + i) (trows t ! (base + i))) [0..<Suc n] @ drop (base + Suc n) (trows t)"
    unfolding IH(2) d using Suc.prems by (simp add: list_update_append)
  then show ?case using st same_shape_trans[OF IH(1) st(1)] ptr by simp
qed


section \<open>Copying one column\<close>

text \<open>What a reader sees does not change when the heap grows.\<close>

definition shows_as :: "'v overflow_heap \<Rightarrow> 'v row \<Rightarrow> nat \<Rightarrow> 'v view \<Rightarrow> bool" where
  "shows_as heap r col x \<longleftrightarrow> cell_view heap r col = x \<and>
     (\<not> snd r ! col \<longrightarrow> (\<forall>n a. fst r ! col = Overflow n a \<longrightarrow> a < length heap))"

lemma shows_as_append: "shows_as heap r col x \<Longrightarrow> shows_as (heap @ ext) r col x"
  by (auto simp: shows_as_def cell_view_def nth_append split: cell.splits)

lemma shows_as_only_col: "shows_as heap r j x \<Longrightarrow> only_col col r r' \<Longrightarrow> j \<noteq> col \<Longrightarrow> shows_as heap r' j x"
  by (auto simp: shows_as_def cell_view_def only_col_def)

lemma write_flat_ok:
  assumes "blocks_ok (flatTupleBlockSize t) (flatTupleBlockCollection t)" "schema_ok (tableSchema t)" "i < length (trows t)"
  shows "same_shape t (write_flat col x (tptr t i) t) \<and>
    trows (write_flat col x (tptr t i) t) = (trows t)[i := write_value col x (trows t ! i)]"
proof -
  have "flagged (write_flat col x (tptr t i) t)" if "flagged t"
  proof -
    let ?s = "tableSchema (write_flat col x (tptr t i) t)"
    have len: "length (columns ?s) = length (columns (tableSchema t))"
      by (simp add: write_flat_def setMayContainsNullsToTrue_def)
    have mono: "mayContainNulls (columns ?s ! c)"
      if "mayContainNulls (columns (tableSchema t) ! c) \<or> x = None \<and> c = col" "c < length (columns ?s)" for c
      using that by (auto simp: write_flat_def setMayContainsNullsToTrue_def nth_update_if)
    have "mayContainNulls (columns ?s ! c)" if r: "r \<in> set ((trows t)[i := write_value col x (trows t ! i)])"
      and c: "c < length (columns ?s)" "snd r ! c" for r c
    proof (cases "r = write_value col x (trows t ! i)")
      case True
      then have "snd (trows t ! i) ! c \<or> x = None \<and> c = col"
        using c(2) by (auto simp: write_value_def nth_update_if split: option.splits if_splits)
      then show ?thesis using \<open>flagged t\<close> c(1) len assms(3) by (intro mono) (auto simp: flagged_def)
    next
      case False
      then have "r \<in> set (trows t)" using r set_update_subset_insert[of "trows t" i] by blast
      then show ?thesis using \<open>flagged t\<close> c len by (intro mono) (auto simp: flagged_def)
    qed
    moreover have "trows (write_flat col x (tptr t i) t) = (trows t)[i := write_value col x (trows t ! i)]"
      using set_row_ok[OF assms(1,3), of "write_value col x"] by (simp add: write_flat_def)
    ultimately show ?thesis unfolding flagged_def by metis
  qed
  then show ?thesis
    using set_row_ok[OF assms(1,3), of "write_value col x"] setMayContainsNulls_ok[OF assms(2), of col] assms(2)
    by (auto simp: same_shape_def write_flat_def)
qed

lemma write_overflow_ok:
  assumes f: "\<And>r. snd (f r) = snd r"
    and "blocks_ok (flatTupleBlockSize t) (flatTupleBlockCollection t)" "schema_ok (tableSchema t)" "i < length (trows t)"
  shows "same_shape t (t\<lparr>flatTupleBlockCollection := set_row (tptr t i) f (flatTupleBlockCollection t)\<rparr>) \<and>
    trows (t\<lparr>flatTupleBlockCollection := set_row (tptr t i) f (flatTupleBlockCollection t)\<rparr>) = (trows t)[i := f (trows t ! i)]"
proof -
  note row = set_row_ok[OF assms(2,4), of f]
  have "flagged (t\<lparr>flatTupleBlockCollection := set_row (tptr t i) f (flatTupleBlockCollection t)\<rparr>)" if fl: "flagged t"
    unfolding flagged_def
  proof (intro ballI allI impI)
    fix r c assume r: "r \<in> set (trows (t\<lparr>flatTupleBlockCollection := set_row (tptr t i) f (flatTupleBlockCollection t)\<rparr>))"
      and c: "c < length (columns (tableSchema (t\<lparr>flatTupleBlockCollection := set_row (tptr t i) f (flatTupleBlockCollection t)\<rparr>)))"
        "snd r ! c"
    have "r \<in> insert (f (trows t ! i)) (set (trows t))"
      using r row set_update_subset_insert[of "trows t" i "f (trows t ! i)"] by auto
    then consider "r = f (trows t ! i)" | "r \<in> set (trows t)" by blast
    then obtain r' where "r' \<in> set (trows t)" "snd r' ! c"
    proof cases
      case 1
      then have "snd (trows t ! i) ! c" using c(2) by (simp only: f)
      with nth_mem[OF assms(4)] show ?thesis by (rule that)
    next
      case 2
      from that[OF this c(2)] show ?thesis .
    qed
    then show "mayContainNulls (columns (tableSchema (t\<lparr>flatTupleBlockCollection := set_row (tptr t i) f (flatTupleBlockCollection t)\<rparr>)) ! c)"
      using fl c(1) by (auto simp: flagged_def)
  qed
  then show ?thesis using row assms(3) by (auto simp: same_shape_def)
qed

lemma foldl_ptrs:
  assumes "info_ptrs info = map (\<lambda>i. tptr t0 (base + i)) [0..<n]"
  shows "foldl (\<lambda>t p. w p t) t (info_ptrs info) = foldl (\<lambda>t i. w (tptr t0 (base + i)) t) t [0..<n]"
  unfolding assms by (simp add: foldl_map)

text \<open>One piece of a flat column.\<close>

lemma flat_piece_ok:
  assumes t: "blocks_ok (flatTupleBlockSize t) (flatTupleBlockCollection t)" "schema_ok (tableSchema t)"
    and ptrs: "info_ptrs info = map (\<lambda>i. tptr t (base + i)) [0..<n]" "n = snd (snd info)"
    and n: "base + n \<le> length (trows t)"
  shows "same_shape t (copyVectorToFlatColumn v info na col t) \<and>
    trows (copyVectorToFlatColumn v info na col t) = take base (trows t) @
      map (\<lambda>i. write_value col (flat_value v (na + i)) (trows t ! (base + i))) [0..<n] @ drop (base + n) (trows t)"
proof -
  let ?w = "\<lambda>j p t. write_flat col (flat_value v (na + (j - base))) p t"
  have "copyVectorToFlatColumn v info na col t = foldl (\<lambda>t' i. ?w (base + i) (tptr t (base + i)) t') t [0..<n]"
  proof (cases "vflat v")
    case True
    then show ?thesis
      by (simp add: copyVectorToFlatColumn_def copyFlatVectorToFlatColumn_def foldl_ptrs[OF ptrs(1)] flat_value_def)
  next
    case False
    obtain b start k where info: "info = (b, start, k)" by (cases info)
    then have k: "k = n" using ptrs(2) by simp
    have "(b, start + i) = tptr t (base + i)" if "i < n" for i
      using arg_cong[OF ptrs(1), of "\<lambda>xs. xs ! i"] that by (simp add: info info_ptrs_def k)
    then have "foldl (\<lambda>t' i. write_flat col (vvals v ! (vsel v ! (na + i))) (b, start + i) t') t [0..<n] =
        foldl (\<lambda>t' i. ?w (base + i) (tptr t (base + i)) t') t [0..<n]"
      using False by (intro foldl_cong) (auto simp: flat_value_def)
    with False show ?thesis
      by (simp add: copyVectorToFlatColumn_def copyUnflatVectorToFlatColumn_def info k)
  qed
  moreover note foldl_rows[of ?w "\<lambda>j. write_value col (flat_value v (na + (j - base)))" t t base n, OF write_flat_ok t refl n]
  ultimately show ?thesis by simp
qed

text \<open>One piece of any column.\<close>

lemma piece_ok:
  assumes t: "blocks_ok (flatTupleBlockSize t) (flatTupleBlockCollection t)" "schema_ok (tableSchema t)"
    and ptrs: "info_ptrs info = map (\<lambda>i. tptr t (base + i)) [0..<n]" "n = snd (snd info)"
    and n: "base + n \<le> length (trows t)"
    and col: "isFlat (columns (tableSchema t) ! col) \<or> \<not> vflat v"
  shows "\<exists>heap' t' f. copyVectorToColumn v info na col (heap, t) = Some (heap', t') \<and> same_shape t t' \<and>
    (\<exists>ext. heap' = heap @ ext) \<and>
    trows t' = take base (trows t) @ map (\<lambda>i. f i (trows t ! (base + i))) [0..<n] @ drop (base + n) (trows t) \<and>
    (\<forall>i r. only_col col r (f i r) \<and> (col < length (fst r) \<and> col < length (snd r) \<and> \<not> snd r ! col \<longrightarrow>
       shows_as heap' (f i r) col (view_of (isFlat (columns (tableSchema t) ! col)) v (na + i))))"
proof (cases "isFlat (columns (tableSchema t) ! col)")
  case True
  let ?f = "\<lambda>i. write_value col (flat_value v (na + i))"
  have "shows_as heap (?f i r) col (view_of True v (na + i))"
    if "col < length (fst r) \<and> col < length (snd r) \<and> \<not> snd r ! col" for i r
    using that by (auto simp: shows_as_def cell_view_def view_of_def write_value_def split: option.split)
  then have f: "\<forall>i r. only_col col r (?f i r) \<and> (col < length (fst r) \<and> col < length (snd r) \<and> \<not> snd r ! col \<longrightarrow>
      shows_as heap (?f i r) col (view_of True v (na + i)))"
    by (intro allI conjI impI only_col_write(1))
  have "copyVectorToColumn v info na col (heap, t) = Some (heap, copyVectorToFlatColumn v info na col t)"
    using True by (simp add: copyVectorToColumn_def)
  moreover note flat_piece_ok[OF t ptrs n, of v na col]
  moreover have "\<exists>ext. heap = heap @ ext" by simp
  ultimately show ?thesis unfolding eqTrueI[OF True] using f
    by (rule_tac exI[of _ heap], rule_tac exI[of _ "copyVectorToFlatColumn v info na col t"], rule_tac exI[of _ ?f])
       (intro conjI; (elim conjE)?; assumption)
next
  case False
  with col have nf: "\<not> vflat v" by simp
  let ?x = "Overflow (length (vsel v)) (length heap)" and ?heap = "heap @ [selected v]"
  let ?f = "\<lambda>r. ((fst r)[col := ?x], snd r)"
  obtain bs b off where al: "allocateUnflatTupleBlock (flatTupleBlockSize t) (unFlatTupleBlocks t)
      (of_nat (vbytes v * length (vsel v) + getNumBytesForNullValues (length (vsel v)))) = (bs, b, off)"
    by (cases "allocateUnflatTupleBlock (flatTupleBlockSize t) (unFlatTupleBlocks t)
      (of_nat (vbytes v * length (vsel v) + getNumBytesForNullValues (length (vsel v))))")
  define t1 where "t1 = t\<lparr>unFlatTupleBlocks := bs, tableSchema :=
    (if None \<in> set (selected v) then setMayContainsNullsToTrue col (tableSchema t) else tableSchema t)\<rparr>"
  have t1: "same_shape t t1" "trows t1 = trows t"
    using t setMayContainsNulls_ok[OF t(2), of col]
    by (auto simp: t1_def same_shape_def flagged_def setMayContainsNullsToTrue_def nth_update_if)
  have ok1: "blocks_ok (flatTupleBlockSize t1) (flatTupleBlockCollection t1)" "schema_ok (tableSchema t1)"
    using t1(1) by (auto simp: same_shape_def)
  let ?w = "\<lambda>(j::nat) p t. t\<lparr>flatTupleBlockCollection := set_row p ?f (flatTupleBlockCollection t)\<rparr>"
  define t2 where "t2 = foldl (\<lambda>t' i. ?w (base + i) (tptr t (base + i)) t') t1 [0..<n]"
  have call: "copyVectorToColumn v info na col (heap, t) = Some (?heap, t2)"
    using False nf al
    by (simp add: copyVectorToColumn_def copyVectorToUnflatColumn_def appendVectorToUnflatTupleBlocks_def
        ku_assert_def Let_def t1_def[symmetric] foldl_ptrs[OF ptrs(1)] t2_def)
  have rows2: "same_shape t1 t2 \<and> trows t2 = take base (trows t) @ map (\<lambda>i. ?f (trows t ! (base + i))) [0..<n] @ drop (base + n) (trows t)"
    unfolding t2_def t1(2)[symmetric]
    using foldl_rows[of ?w "\<lambda>_. ?f" t1 t base n, OF write_overflow_ok[of ?f] ok1] n t1 same_shape_ptr[OF t1(1)] by simp
  have "shows_as ?heap (?f r) col (view_of False v (na + i))"
    if "col < length (fst r) \<and> col < length (snd r) \<and> \<not> snd r ! col" for i r
    using that by (simp add: shows_as_def cell_view_def view_of_def selected_def)
  then have f: "\<forall>i r. only_col col r (?f r) \<and> (col < length (fst r) \<and> col < length (snd r) \<and> \<not> snd r ! col \<longrightarrow>
      shows_as ?heap (?f r) col (view_of False v (na + i)))"
    by (intro allI conjI impI only_col_write(2))
  have "same_shape t t2" using rows2 same_shape_trans[OF t1(1)] by blast
  moreover have "\<exists>ext. ?heap = heap @ ext" by simp
  moreover note call rows2
  ultimately show ?thesis unfolding eq_False[THEN iffD2, OF False] using f
    by (rule_tac exI[of _ ?heap], rule_tac exI[of _ t2], rule_tac exI[of _ "\<lambda>_. ?f"])
       (intro conjI; (elim conjE)?; assumption)
qed

section \<open>Appending\<close>

lemma column_ok:
  assumes t: "blocks_ok (flatTupleBlockSize t) (flatTupleBlockCollection t)" "schema_ok (tableSchema t)"
    and rows: "trows t = old @ cur" "na + m = length cur"
    and ptrs: "concat (map info_ptrs infos) = map (\<lambda>i. tptr t (length old + na + i)) [0..<m]"
    and col: "isFlat (columns (tableSchema t) ! col) \<or> \<not> vflat v" "col < length (columns (tableSchema t))"
    and cells: "\<forall>r\<in>set cur. col < length (fst r) \<and> col < length (snd r)"
  shows "\<exists>heap' t' cur'. foldM (\<lambda>(st, numAppended) info.
         do { st' \<leftarrow> copyVectorToColumn v info numAppended col st; Some (st', numAppended + snd (snd info)) })
       ((heap, t), na) infos = Some ((heap', t'), na + m) \<and> same_shape t t' \<and> trows t' = old @ cur' \<and>
    length cur' = length cur \<and> (\<exists>ext. heap' = heap @ ext) \<and> (\<forall>i < na. cur' ! i = cur ! i) \<and>
    (\<forall>i < length cur. na \<le> i \<longrightarrow> only_col col (cur ! i) (cur' ! i) \<and>
      (\<not> snd (cur ! i) ! col \<longrightarrow> shows_as heap' (cur' ! i) col (view_of (isFlat (columns (tableSchema t) ! col)) v i)))"
  using assms
proof (induction infos arbitrary: heap t na m cur)
  case Nil
  then show ?case by (auto simp: same_shape_def)
next
  case (Cons info infos)
  let ?base = "length old + na"
  obtain b start k where info: "info = (b, start, k)" by (cases info)
  have len: "length (info_ptrs info) = k" by (simp add: info info_ptrs_def)
  have "length (concat (map info_ptrs (info # infos))) = m" unfolding Cons.prems(5) by simp
  then have km: "k \<le> m" using len by simp
  have p1: "info_ptrs info = map (\<lambda>i. tptr t (?base + i)) [0..<k]"
    using arg_cong[OF Cons.prems(5), of "take k"] len km by (simp add: take_map)
  have p2: "concat (map info_ptrs infos) = map (\<lambda>i. tptr t (length old + (na + k) + i)) [0..<m - k]"
  proof -
    have "concat (map info_ptrs infos) = map (\<lambda>i. tptr t (?base + i)) (drop k [0..<m])"
      using arg_cong[OF Cons.prems(5), of "drop k"] len by (simp add: drop_map)
    also have "drop k [0..<m] = map (\<lambda>i. i + k) [0..<m - k]" using km by (simp add: map_add_upt)
    finally show ?thesis by (simp add: comp_def add.assoc add.commute[of k])
  qed
  have n: "?base + k \<le> length (trows t)" using Cons.prems(3,4) km by simp
  have kinfo: "k = snd (snd info)" by (simp add: info)
  from piece_ok[OF Cons.prems(1,2) p1 kinfo n Cons.prems(6), of na heap] obtain heap1 t1 f where
    s1: "copyVectorToColumn v info na col (heap, t) = Some (heap1, t1)" "same_shape t t1" "\<exists>ext. heap1 = heap @ ext"
    "trows t1 = take ?base (trows t) @ map (\<lambda>i. f i (trows t ! (?base + i))) [0..<k] @ drop (?base + k) (trows t)"
    "\<And>i r. only_col col r (f i r)" "\<And>i r. col < length (fst r) \<Longrightarrow> col < length (snd r) \<Longrightarrow> \<not> snd r ! col \<Longrightarrow>
       shows_as heap1 (f i r) col (view_of (isFlat (columns (tableSchema t) ! col)) v (na + i))"
    by blast
  define cur1 where "cur1 = take na cur @ map (\<lambda>i. f i (cur ! (na + i))) [0..<k] @ drop (na + k) cur"
  have rows1: "trows t1 = old @ cur1"
    using s1(4) Cons.prems(3,4) km by (simp add: cur1_def nth_append)
  have len1: "length cur1 = length cur" using Cons.prems(4) km by (simp add: cur1_def)
  have nth1: "cur1 ! i = (if na \<le> i \<and> i < na + k then f (i - na) (cur ! i) else cur ! i)" if "i < length cur" for i
    using that Cons.prems(4) km by (auto simp: cur1_def nth_append)
  have ok1: "blocks_ok (flatTupleBlockSize t1) (flatTupleBlockCollection t1)" "schema_ok (tableSchema t1)"
    using s1(2) by (auto simp: same_shape_def)
  have lay: "length (columns (tableSchema t1)) = length (columns (tableSchema t))"
    "isFlat (columns (tableSchema t1) ! col) = isFlat (columns (tableSchema t) ! col)"
    using s1(2) layout_columns[of "tableSchema t1" "tableSchema t" col] Cons.prems(7) by (auto simp: same_shape_def)
  have lens: "length (fst (cur1 ! i)) = length (fst (cur ! i)) \<and> length (snd (cur1 ! i)) = length (snd (cur ! i))"
    if "i < length cur" for i using nth1[OF that] s1(5) by (simp add: only_col_def)
  have cells1: "\<forall>r\<in>set cur1. col < length (fst r) \<and> col < length (snd r)"
  proof
    fix r assume "r \<in> set cur1"
    then obtain i where i: "i < length cur" "r = cur1 ! i" using len1 by (metis in_set_conv_nth)
    from bspec[OF Cons.prems(8) nth_mem[OF i(1)]] lens[OF i(1)] i(2)
    show "col < length (fst r) \<and> col < length (snd r)" by simp
  qed
  have p2': "concat (map info_ptrs infos) = map (\<lambda>i. tptr t1 (length old + (na + k) + i)) [0..<m - k]"
    using p2 same_shape_ptr[OF s1(2)] by simp
  from Cons.IH[OF ok1 rows1 _ p2' _ _ cells1, of heap1] len1 Cons.prems(4,6,7) km lay
  obtain heap2 t2 cur2 where
    s2: "foldM (\<lambda>(st, numAppended) info.
         do { st' \<leftarrow> copyVectorToColumn v info numAppended col st; Some (st', numAppended + snd (snd info)) })
       ((heap1, t1), na + k) infos = Some ((heap2, t2), na + m)" "same_shape t1 t2" "trows t2 = old @ cur2"
    "length cur2 = length cur1" "\<exists>ext. heap2 = heap1 @ ext" "\<forall>i < na + k. cur2 ! i = cur1 ! i"
    "\<forall>i < length cur1. na + k \<le> i \<longrightarrow> only_col col (cur1 ! i) (cur2 ! i) \<and>
      (\<not> snd (cur1 ! i) ! col \<longrightarrow> shows_as heap2 (cur2 ! i) col (view_of (isFlat (columns (tableSchema t) ! col)) v i))"
    by auto
  have "only_col col (cur ! i) (cur2 ! i) \<and>
      (\<not> snd (cur ! i) ! col \<longrightarrow> shows_as heap2 (cur2 ! i) col (view_of (isFlat (columns (tableSchema t) ! col)) v i))"
    if i: "i < length cur" "na \<le> i" for i
  proof (cases "i < na + k")
    case True
    then have eq: "cur2 ! i = f (i - na) (cur ! i)" using s2(6) nth1[OF i(1)] i(2) by simp
    have "col < length (fst (cur ! i))" "col < length (snd (cur ! i))" using Cons.prems(8) i(1) by auto
    from s1(6)[OF this, of "i - na"] s2(5) i(2) show ?thesis
      unfolding eq using s1(5) by (auto intro: shows_as_append)
  next
    case False
    then have eq: "cur1 ! i = cur ! i" using nth1[OF i(1)] by simp
    from s2(7)[rule_format, of i] False i len1 show ?thesis unfolding eq by simp
  qed
  moreover have "\<forall>i < na. cur2 ! i = cur ! i" using s2(6) nth1 Cons.prems(4) by simp
  moreover have "\<exists>ext. heap2 = heap @ ext" using s1(3) s2(5) by auto
  ultimately show ?case
    using s1(1) s2(1-4) len1 same_shape_trans[OF s1(2)] info by simp
qed

lemma columns_ok:
  assumes t: "blocks_ok (flatTupleBlockSize t) (flatTupleBlockCollection t)" "schema_ok (tableSchema t)"
    and rows: "trows t = old @ cur"
    and ptrs: "concat (map info_ptrs infos) = map (\<lambda>i. tptr t (length old + i)) [0..<length cur]"
    and col: "\<forall>j < length vs. isFlat (columns (tableSchema t) ! (c + j)) \<or> \<not> vflat (vs ! j)"
      "c + length vs \<le> length (columns (tableSchema t))"
    and cells: "\<forall>r\<in>set cur. length (fst r) = length (columns (tableSchema t)) \<and> length (snd r) = length (columns (tableSchema t)) \<and>
      (\<forall>j < length vs. \<not> snd r ! (c + j))"
  shows "\<exists>heap' t' cur'. foldM (append_column (length cur) infos) (heap, t) (enumerate c vs) = Some (heap', t') \<and>
    same_shape t t' \<and> trows t' = old @ cur' \<and> length cur' = length cur \<and> (\<exists>ext. heap' = heap @ ext) \<and>
    (\<forall>i < length cur. length (fst (cur' ! i)) = length (columns (tableSchema t)) \<and>
       length (snd (cur' ! i)) = length (columns (tableSchema t)) \<and>
       (\<forall>j. j < c \<or> c + length vs \<le> j \<longrightarrow> fst (cur' ! i) ! j = fst (cur ! i) ! j \<and> snd (cur' ! i) ! j = snd (cur ! i) ! j) \<and>
       (\<forall>j < length vs. shows_as heap' (cur' ! i) (c + j) (view_of (isFlat (columns (tableSchema t) ! (c + j))) (vs ! j) i)))"
  using assms
proof (induction vs arbitrary: c heap t cur)
  case Nil
  then show ?case by (auto simp: same_shape_def)
next
  case (Cons v vs)
  have c: "c < length (columns (tableSchema t))" "isFlat (columns (tableSchema t) ! c) \<or> \<not> vflat v"
    using Cons.prems(5,6) by (auto dest: spec[of _ 0])
  have cc: "\<forall>r\<in>set cur. c < length (fst r) \<and> c < length (snd r)" using Cons.prems(7) c(1) by simp
  from column_ok[OF Cons.prems(1,2,3), of 0 "length cur" infos c v heap] Cons.prems(4) c cc
  obtain heap1 t1 cur1 where s1: "append_column (length cur) infos (heap, t) (c, v) = Some (heap1, t1)" "same_shape t t1"
    "trows t1 = old @ cur1" "length cur1 = length cur" "\<exists>ext. heap1 = heap @ ext"
    "\<forall>i < length cur. only_col c (cur ! i) (cur1 ! i) \<and>
      (\<not> snd (cur ! i) ! c \<longrightarrow> shows_as heap1 (cur1 ! i) c (view_of (isFlat (columns (tableSchema t) ! c)) v i))"
    by (auto simp: append_column_def)
  have null: "\<not> snd (cur ! i) ! (c + j)" if "i < length cur" "j < length (v # vs)" for i j
    using Cons.prems(7) that by auto
  have ok1: "blocks_ok (flatTupleBlockSize t1) (flatTupleBlockCollection t1)" "schema_ok (tableSchema t1)"
    using s1(2) by (auto simp: same_shape_def)
  have lay: "length (columns (tableSchema t1)) = length (columns (tableSchema t))"
    "\<And>j. j < length (columns (tableSchema t)) \<Longrightarrow> isFlat (columns (tableSchema t1) ! j) = isFlat (columns (tableSchema t) ! j)"
    using s1(2) layout_columns[of "tableSchema t1" "tableSchema t"] by (auto simp: same_shape_def)
  have cells1: "\<forall>r\<in>set cur1. length (fst r) = length (columns (tableSchema t1)) \<and> length (snd r) = length (columns (tableSchema t1)) \<and>
      (\<forall>j < length vs. \<not> snd r ! (Suc c + j))"
  proof
    fix r assume "r \<in> set cur1"
    then obtain i where i: "i < length cur" "r = cur1 ! i" using s1(4) by (auto simp: in_set_conv_nth)
    then have "only_col c (cur ! i) r" "cur ! i \<in> set cur" using s1(6) by auto
    with Cons.prems(7) lay(1) null[OF i(1), of "Suc _"] show "length (fst r) = length (columns (tableSchema t1)) \<and>
        length (snd r) = length (columns (tableSchema t1)) \<and> (\<forall>j < length vs. \<not> snd r ! (Suc c + j))"
      by (auto simp: only_col_def)
  qed
  have p1: "concat (map info_ptrs infos) = map (\<lambda>i. tptr t1 (length old + i)) [0..<length cur1]"
    using Cons.prems(4) same_shape_ptr[OF s1(2)] s1(4) by simp
  have col1: "\<forall>j < length vs. isFlat (columns (tableSchema t1) ! (Suc c + j)) \<or> \<not> vflat (vs ! j)"
    "Suc c + length vs \<le> length (columns (tableSchema t1))"
    using Cons.prems(5,6) lay by (auto dest: spec[of _ "Suc _"])
  from Cons.IH[OF ok1 s1(3) p1 col1 cells1, of heap1] obtain heap2 t2 cur2 where
    s2: "foldM (append_column (length cur) infos) (heap1, t1) (enumerate (Suc c) vs) = Some (heap2, t2)" "same_shape t1 t2"
    "trows t2 = old @ cur2" "length cur2 = length cur1" "\<exists>ext. heap2 = heap1 @ ext"
    "\<And>i. i < length cur \<Longrightarrow> length (fst (cur2 ! i)) = length (columns (tableSchema t)) \<and>
       length (snd (cur2 ! i)) = length (columns (tableSchema t)) \<and>
       (\<forall>j. j < Suc c \<or> Suc c + length vs \<le> j \<longrightarrow> fst (cur2 ! i) ! j = fst (cur1 ! i) ! j \<and> snd (cur2 ! i) ! j = snd (cur1 ! i) ! j) \<and>
       (\<forall>j < length vs. shows_as heap2 (cur2 ! i) (Suc c + j) (view_of (isFlat (columns (tableSchema t1) ! (Suc c + j))) (vs ! j) i))"
    using s1(4) lay(1) by auto
  have rows: "length (fst (cur2 ! i)) = length (columns (tableSchema t)) \<and>
       length (snd (cur2 ! i)) = length (columns (tableSchema t)) \<and>
       (\<forall>j. j < c \<or> c + length (v # vs) \<le> j \<longrightarrow> fst (cur2 ! i) ! j = fst (cur ! i) ! j \<and> snd (cur2 ! i) ! j = snd (cur ! i) ! j) \<and>
       (\<forall>j < length (v # vs). shows_as heap2 (cur2 ! i) (c + j) (view_of (isFlat (columns (tableSchema t) ! (c + j))) ((v # vs) ! j) i))"
    if i: "i < length cur" for i
  proof -
    have oc: "only_col c (cur ! i) (cur1 ! i)" using s1(6) i by blast
    have "shows_as heap1 (cur1 ! i) c (view_of (isFlat (columns (tableSchema t) ! c)) v i)"
      using s1(6) i null[OF i, of 0] by simp
    then have "shows_as heap2 (cur1 ! i) c (view_of (isFlat (columns (tableSchema t) ! c)) v i)"
      using s2(5) by (auto intro: shows_as_append)
    moreover have "fst (cur2 ! i) ! c = fst (cur1 ! i) ! c" "snd (cur2 ! i) ! c = snd (cur1 ! i) ! c"
      using s2(6)[OF i] by auto
    ultimately have first: "shows_as heap2 (cur2 ! i) c (view_of (isFlat (columns (tableSchema t) ! c)) v i)"
      by (auto simp: shows_as_def cell_view_def)
    have "shows_as heap2 (cur2 ! i) (c + j) (view_of (isFlat (columns (tableSchema t) ! (c + j))) ((v # vs) ! j) i)"
      if "j < length (v # vs)" for j
      using first s2(6)[OF i] that lay Cons.prems(6) by (cases j) auto
    with s2(6)[OF i] oc show ?thesis by (auto simp: only_col_def)
  qed
  have "foldM (append_column (length cur) infos) (heap, t) (enumerate c (v # vs)) = Some (heap2, t2)"
    using s1(1) s2(1) by simp
  moreover have "\<exists>ext. heap2 = heap @ ext" using s1(5) s2(5) by auto
  moreover have "same_shape t t2" by (rule same_shape_trans[OF s1(2) s2(2)])
  moreover have "length cur2 = length cur" using s2(4) s1(4) by simp
  ultimately show ?case using s2(3) rows by blast
qed


text \<open>
  Appending keeps the invariant, leaves the old rows alone, and every new row shows the values of
  the vectors.
\<close>

definition appended :: "'v overflow_heap \<Rightarrow> 'v row list \<Rightarrow> FactorizedTableSchema \<Rightarrow> 'v ValueVector list \<Rightarrow> bool" where
  "appended heap new s vectors \<longleftrightarrow> (\<forall>i < length new. length (fst (new ! i)) = length (columns s) \<and>
     (\<forall>j < length vectors. shows_as heap (new ! i) j (view_of (isFlat (columns s ! j)) (vectors ! j) i)))"

lemma append_vectors_ok:
  assumes t: "table_ok t" and len: "length vs \<le> length (columns (tableSchema t))"
    and col: "\<forall>j < length vs. isFlat (columns (tableSchema t) ! j) \<or> \<not> vflat (vs ! j)"
  shows "\<exists>heap' t' new. append_vectors n vs (heap, t) = Some (heap', t') \<and> table_ok t' \<and>
    trows t' = trows t @ new \<and> length new = n \<and> (\<exists>ext. heap' = heap @ ext) \<and>
    layout (tableSchema t') = layout (tableSchema t) \<and> flatTupleBlockSize t' = flatTupleBlockSize t \<and>
    appended heap' new (tableSchema t) vs"
proof -
  let ?nc = "length (columns (tableSchema t))" and ?c = "flatTupleBlockCollection t"
  have ok: "blocks_ok (flatTupleBlockSize t) ?c" "schema_ok (tableSchema t)" "clean ?nc ?c"
    using t by (auto simp: table_ok_def)
  from allocate_ok[OF ok(1), of ?nc n] ok(3) obtain c infos stale where al:
    "allocateFlatTupleBlocks (flatTupleBlockSize t) ?nc ?c n = Some (c, infos)" "blocks_ok (flatTupleBlockSize t) c"
    "rows c = trows t @ stale" "length stale = n" "numTuplesPerBlock c = numTuplesPerBlock ?c"
    "blk_numBytesPerTuple c = blk_numBytesPerTuple ?c"
    "concat (map info_ptrs infos) = map (\<lambda>i. tptr t (length (trows t) + i)) [0..<n]"
    "clean ?nc c" "\<forall>r\<in>set stale. length (fst r) = ?nc \<and> snd r = replicate ?nc False" by blast
  have fl: "flagged (t\<lparr>flatTupleBlockCollection := c\<rparr>)"
    unfolding flagged_def
  proof (intro ballI allI impI)
    fix r k assume r: "r \<in> set (trows (t\<lparr>flatTupleBlockCollection := c\<rparr>))"
      "k < length (columns (tableSchema (t\<lparr>flatTupleBlockCollection := c\<rparr>)))" "snd r ! k"
    have "r \<notin> set stale" using al(9) r(2,3) by auto
    with r al(3) t show "mayContainNulls (columns (tableSchema (t\<lparr>flatTupleBlockCollection := c\<rparr>)) ! k)"
      by (auto simp: table_ok_def flagged_def)
  qed
  let ?t1 = "t\<lparr>flatTupleBlockCollection := c\<rparr>"
  have p1: "concat (map info_ptrs infos) = map (\<lambda>i. tptr ?t1 (length (trows t) + i)) [0..<length stale]"
    using al(4,5,7) by (simp add: getBlockIdxAndTupleIdxInBlock_def)
  have cells: "\<forall>r\<in>set stale. length (fst r) = ?nc \<and> length (snd r) = ?nc \<and> (\<forall>j < length vs. \<not> snd r ! (0 + j))"
  proof
    fix r assume "r \<in> set stale"
    with al(9) have r: "length (fst r) = ?nc" "snd r = replicate ?nc False" by auto
    show "length (fst r) = ?nc \<and> length (snd r) = ?nc \<and> (\<forall>j < length vs. \<not> snd r ! (0 + j))"
      unfolding r(2) using r(1) len by auto
  qed
  have ok1: "blocks_ok (flatTupleBlockSize ?t1) (flatTupleBlockCollection ?t1)" "schema_ok (tableSchema ?t1)"
    "trows ?t1 = trows t @ stale" using al ok by auto
  have col1: "\<forall>j < length vs. isFlat (columns (tableSchema ?t1) ! (0 + j)) \<or> \<not> vflat (vs ! j)"
    "0 + length vs \<le> length (columns (tableSchema ?t1))" using col len by auto
  have cells1: "\<forall>r\<in>set stale. length (fst r) = length (columns (tableSchema ?t1)) \<and>
     length (snd r) = length (columns (tableSchema ?t1)) \<and> (\<forall>j < length vs. \<not> snd r ! (0 + j))"
    using cells by simp
  from columns_ok[OF ok1 p1 col1 cells1, of heap] obtain heap' t' cur where res:
    "foldM (append_column n infos) (heap, ?t1) (enumerate 0 vs) = Some (heap', t')" "same_shape ?t1 t'"
    "trows t' = trows t @ cur" "length cur = length stale" "\<exists>ext. heap' = heap @ ext"
    "\<forall>i < length stale. length (fst (cur ! i)) = ?nc \<and>
       (\<forall>j < length vs. shows_as heap' (cur ! i) (0 + j) (view_of (isFlat (columns (tableSchema t) ! (0 + j))) (vs ! j) i))"
    using al(4) by auto
  let ?t2 = "t'\<lparr>ft_numTuples := ft_numTuples t' + n\<rparr>"
  have "append_vectors n vs (heap, t) = Some (heap', ?t2)"
    using al(1) res(1) by (simp add: append_vectors_def)
  moreover have "table_ok ?t2"
    using res(2,3,4) t al(4,6,8) fl layout_columns[of "tableSchema t'" "tableSchema t"]
    by (auto simp: same_shape_def table_ok_def flagged_def)
  moreover have "appended heap' cur (tableSchema t) vs"
    using res(4,6) by (simp add: appended_def)
  ultimately show ?thesis using res(2-5) al(4)
    by (intro exI[of _ heap'] exI[of _ ?t2] exI[of _ cur]) (auto simp: same_shape_def)
qed

end
