(* ===== verification/SelVector.thy ===== *)
theory SelVector
  imports Prelude
begin

text \<open>
  Selection vectors (\<open>common/data_chunk/sel_vector.h\<close>, \<open>sel_vector.cpp\<close>) and the removal of
  null positions from them (\<open>common/vector/value_vector.cpp\<close>).

  A selection vector owns a buffer and points either to it (\<open>DYNAMIC\<close>) or to the constant array of
  incremental positions (\<open>STATIC\<close>). The pointer is therefore determined by the state, and a write
  to the buffer is seen through it exactly in the dynamic state. The vector capacity the program is
  built with, the length of the incremental array, is the parameter \<open>cap\<close>. Reads and writes
  outside an array, and writes to the constant array, have no defined result.
\<close>

section \<open>Views and vectors\<close>

datatype sel_state = DYNAMIC | STATIC

record SelectionView =
  selectedPositions :: "nat list"
  viewState :: sel_state

record SelectionVector =
  selectedPositionsBuffer :: "nat list"
  selectedSize :: nat
  selState :: sel_state

definition INCREMENTAL_SELECTED_POS :: "nat \<Rightarrow> nat list" where
  "INCREMENTAL_SELECTED_POS cap = [0..<cap]"

definition getCapacity :: "SelectionVector \<Rightarrow> nat" where
  "getCapacity v = length (selectedPositionsBuffer v)"

text \<open>The array the vector points to.\<close>

definition pointee :: "nat \<Rightarrow> SelectionVector \<Rightarrow> nat list" where
  "pointee cap v = (case selState v of STATIC \<Rightarrow> INCREMENTAL_SELECTED_POS cap | DYNAMIC \<Rightarrow> selectedPositionsBuffer v)"

definition setToUnfiltered :: "SelectionVector \<Rightarrow> SelectionVector" where
  "setToUnfiltered v = v\<lparr>selState := STATIC\<rparr>"

definition new_SelectionVector :: "nat \<Rightarrow> SelectionVector" where
  "new_SelectionVector capacity =
     setToUnfiltered \<lparr>selectedPositionsBuffer = replicate capacity 0, selectedSize = 0, selState = STATIC\<rparr>"

definition setToUnfiltered_size :: "nat \<Rightarrow> SelectionVector \<Rightarrow> SelectionVector option" where
  "setToUnfiltered_size n v =
     do { ku_assert (n \<le> getCapacity v); Some (v\<lparr>selectedSize := n, selState := STATIC\<rparr>) }"

definition setRange :: "nat \<Rightarrow> nat \<Rightarrow> SelectionVector \<Rightarrow> SelectionVector option" where
  "setRange startPos n v =
     do { ku_assert (startPos + n \<le> getCapacity v);
          let buf = foldl (\<lambda>buf i. buf[i := startPos + i]) (selectedPositionsBuffer v) [0..<n];
          Some (v\<lparr>selectedPositionsBuffer := buf, selectedSize := n, selState := DYNAMIC\<rparr>) }"

definition setToFiltered :: "SelectionVector \<Rightarrow> SelectionVector" where
  "setToFiltered v = v\<lparr>selState := DYNAMIC\<rparr>"

definition setToFiltered_size :: "nat \<Rightarrow> SelectionVector \<Rightarrow> SelectionVector option" where
  "setToFiltered_size n v =
     do { ku_assert (n \<le> getCapacity v); Some ((setToFiltered v)\<lparr>selectedSize := n\<rparr>) }"

text \<open>\<open>makeDynamic\<close> copies the selected positions into the buffer.\<close>

definition makeDynamic :: "nat \<Rightarrow> SelectionVector \<Rightarrow> SelectionVector option" where
  "makeDynamic cap v =
     do { ku_assert (selectedSize v \<le> length (pointee cap v) \<and> selectedSize v \<le> getCapacity v);
          Some (v\<lparr>selectedPositionsBuffer := take (selectedSize v) (pointee cap v) @
                     drop (selectedSize v) (selectedPositionsBuffer v),
                  selState := DYNAMIC\<rparr>) }"

definition setSelSize :: "nat \<Rightarrow> SelectionVector \<Rightarrow> SelectionVector option" where
  "setSelSize n v = do { ku_assert (n \<le> getCapacity v); Some (v\<lparr>selectedSize := n\<rparr>) }"

definition incrementSelSize :: "nat \<Rightarrow> SelectionVector \<Rightarrow> SelectionVector option" where
  "incrementSelSize k v =
     do { ku_assert (selectedSize v < getCapacity v); Some (v\<lparr>selectedSize := selectedSize v + k\<rparr>) }"

definition sel_at :: "nat \<Rightarrow> SelectionVector \<Rightarrow> nat \<Rightarrow> nat option" where
  "sel_at cap v i =
     do { ku_assert (i < getCapacity v); ku_assert (i < length (pointee cap v)); Some (pointee cap v ! i) }"

definition sel_set :: "SelectionVector \<Rightarrow> nat \<Rightarrow> nat \<Rightarrow> SelectionVector option" where
  "sel_set v i x =
     do { ku_assert (i < getCapacity v); ku_assert (selState v = DYNAMIC);
          Some (v\<lparr>selectedPositionsBuffer := (selectedPositionsBuffer v)[i := x]\<rparr>) }"

definition getSelectedPositions :: "nat \<Rightarrow> SelectionVector \<Rightarrow> nat list" where
  "getSelectedPositions cap v = take (selectedSize v) (pointee cap v)"

definition isStatic :: "SelectionVector \<Rightarrow> bool" where
  "isStatic v = (selState v = STATIC)"

definition isUnfiltered :: "nat \<Rightarrow> SelectionVector \<Rightarrow> bool" where
  "isUnfiltered cap v = (selState v = STATIC \<and> pointee cap v ! 0 = 0)"

definition slice :: "nat \<Rightarrow> SelectionVector \<Rightarrow> nat \<Rightarrow> nat \<Rightarrow> SelectionView option" where
  "slice cap v startIndex n =
     do { ku_assert (startIndex + n \<le> length (getSelectedPositions cap v));
          Some \<lparr>selectedPositions = take n (drop startIndex (getSelectedPositions cap v)), viewState = selState v\<rparr> }"

text \<open>
  \<open>forEach\<close> as the list of positions the callback gets: a static view counts up from its first
  position. \<open>forEachBreakWhenFalse\<close> stops after the first position at which the callback fails.
\<close>

definition forEach :: "SelectionView \<Rightarrow> nat list" where
  "forEach s = (case viewState s of
       DYNAMIC \<Rightarrow> map (\<lambda>i. selectedPositions s ! i) [0..<length (selectedPositions s)]
     | STATIC \<Rightarrow> (let start = selectedPositions s ! 0 in [start..<start + length (selectedPositions s)]))"

fun until_false :: "(nat \<Rightarrow> bool) \<Rightarrow> nat list \<Rightarrow> nat list" where
  "until_false f [] = []"
| "until_false f (x # xs) = (if f x then x # until_false f xs else [x])"

definition forEachBreakWhenFalse :: "(nat \<Rightarrow> bool) \<Rightarrow> SelectionView \<Rightarrow> nat list" where
  "forEachBreakWhenFalse f s = until_false f (forEach s)"

section \<open>Discarding nulls\<close>

text \<open>
  \<open>ValueVector::discardNull\<close>. An unfiltered selection is compacted into the buffer. On a filtered
  one the loop writes every position back to the index it was read from.
\<close>

definition discard_unfiltered :: "bool list \<Rightarrow> SelectionVector \<Rightarrow> nat list \<times> nat" where
  "discard_unfiltered nulls v =
     foldl (\<lambda>(buf, k) i. (buf[k := i], if nulls ! i then k else k + 1))
       (selectedPositionsBuffer v, 0) [0..<selectedSize v]"

definition discard_filtered :: "nat \<Rightarrow> bool list \<Rightarrow> SelectionVector \<Rightarrow> (SelectionVector \<times> nat) option" where
  "discard_filtered cap nulls v =
     foldM (\<lambda>(v, k) i. do { pos \<leftarrow> sel_at cap v i; v' \<leftarrow> sel_set v i pos; Some (v', if nulls ! pos then k else k + 1) })
       (v, 0) [0..<selectedSize v]"

definition discardNull :: "nat \<Rightarrow> bool \<Rightarrow> bool list \<Rightarrow> SelectionVector \<Rightarrow> (SelectionVector \<times> bool) option" where
  "discardNull cap noNullsGuarantee nulls v =
     (if noNullsGuarantee then Some (v, True)
      else do { (v', k) \<leftarrow>
                  (if isUnfiltered cap v
                   then (let (buf, k) = discard_unfiltered nulls v
                         in Some (setToFiltered (v\<lparr>selectedPositionsBuffer := buf\<rparr>), k))
                   else discard_filtered cap nulls v);
                v'' \<leftarrow> setSelSize k v';
                Some (v'', k > 0) })"

section \<open>Reachable selection vectors\<close>

text \<open>
  The operations as steps. The assertion of \<open>incrementSelSize\<close> tests the size before the increment,
  so only an increment by one is covered by it; a client that adds more positions
  (\<open>TopKBuffer::appendSelState\<close>, \<open>DataChunkCollection::append\<close>) has to leave room for them,
  which is the second premise of \<open>increment\<close>.
\<close>

inductive sel_step :: "nat \<Rightarrow> SelectionVector \<Rightarrow> SelectionVector \<Rightarrow> bool" for cap where
  unfiltered: "sel_step cap v (setToUnfiltered v)"
| unfiltered_size: "setToUnfiltered_size n v = Some v' \<Longrightarrow> sel_step cap v v'"
| range: "setRange s n v = Some v' \<Longrightarrow> sel_step cap v v'"
| filtered: "sel_step cap v (setToFiltered v)"
| filtered_size: "setToFiltered_size n v = Some v' \<Longrightarrow> sel_step cap v v'"
| dynamic: "makeDynamic cap v = Some v' \<Longrightarrow> sel_step cap v v'"
| set_size: "setSelSize n v = Some v' \<Longrightarrow> sel_step cap v v'"
| increment: "incrementSelSize k v = Some v' \<Longrightarrow> selectedSize v + k \<le> getCapacity v \<Longrightarrow> sel_step cap v v'"
| store: "sel_set v i x = Some v' \<Longrightarrow> sel_step cap v v'"
| discard: "discardNull cap g nulls v = Some (v', b) \<Longrightarrow> sel_step cap v v'"

definition sel_ok :: "nat \<Rightarrow> SelectionVector \<Rightarrow> bool" where
  "sel_ok cap v \<longleftrightarrow> selectedSize v \<le> getCapacity v \<and> getCapacity v \<le> cap"

lemmas sel_defs = sel_ok_def getCapacity_def setToUnfiltered_def setToUnfiltered_size_def setToFiltered_def
  setToFiltered_size_def setSelSize_def incrementSelSize_def sel_set_def

lemma foldl_update_length [simp]: "length (foldl (\<lambda>buf i. buf[g i := h i]) buf xs) = length buf"
  by (induction xs arbitrary: buf) auto

lemma discard_unfiltered_length: "length (fst (discard_unfiltered nulls v)) = length (selectedPositionsBuffer v)"
proof -
  have "length (fst (foldl (\<lambda>(buf, k) i. (buf[k := i], if nulls ! i then k else k + 1)) (buf, k) xs)) = length buf"
    for buf k xs by (induction xs arbitrary: buf k) auto
  then show ?thesis by (simp add: discard_unfiltered_def)
qed

lemma discard_filtered_shape:
  "discard_filtered cap nulls v = Some (v', k) \<Longrightarrow> getCapacity v' = getCapacity v \<and> selectedSize v' = selectedSize v"
proof -
  have "getCapacity v' = getCapacity v \<and> selectedSize v' = selectedSize v"
    if "foldM (\<lambda>(v, k) i. do { pos \<leftarrow> sel_at cap v i; v' \<leftarrow> sel_set v i pos; Some (v', if nulls ! pos then k else k + 1) })
       (v, j) xs = Some (v', k)" for v j xs
    using that
  proof (induction xs arbitrary: v j)
    case (Cons i xs)
    then obtain pos v1 where "sel_set v i pos = Some v1"
      and "foldM (\<lambda>(v, k) i. do { pos \<leftarrow> sel_at cap v i; v' \<leftarrow> sel_set v i pos; Some (v', if nulls ! pos then k else k + 1) })
         (v1, if nulls ! pos then j else j + 1) xs = Some (v', k)"
      by (auto split: Option.bind_splits)
    with Cons.IH[of v1] show ?case by (auto simp: sel_set_def getCapacity_def split: Option.bind_splits)
  qed simp
  then show "discard_filtered cap nulls v = Some (v', k) \<Longrightarrow> ?thesis" unfolding discard_filtered_def .
qed

lemma discardNull_shape:
  assumes "discardNull cap g nulls v = Some (v', b)" "selectedSize v \<le> getCapacity v"
  shows "getCapacity v' = getCapacity v \<and> selectedSize v' \<le> getCapacity v'"
proof (cases g)
  case True
  with assms show ?thesis by (simp add: discardNull_def)
next
  case False
  show ?thesis
  proof (cases "isUnfiltered cap v")
    case True
    with False assms discard_unfiltered_length[of nulls v] show ?thesis
      by (auto simp: discardNull_def sel_defs split: prod.splits Option.bind_splits)
  next
    case nf: False
    from False nf assms(1) obtain v1 k where v1: "discard_filtered cap nulls v = Some (v1, k)"
      and v': "setSelSize k v1 = Some v'" by (auto simp: discardNull_def split: Option.bind_splits)
    from discard_filtered_shape[OF v1] v' show ?thesis by (auto simp: sel_defs split: Option.bind_splits)
  qed
qed

lemma sel_step_ok: "sel_step cap v v' \<Longrightarrow> sel_ok cap v \<Longrightarrow> sel_ok cap v'"
proof (induction rule: sel_step.induct)
  case (discard g nulls v v' b)
  then show ?case using discardNull_shape[OF discard.hyps] by (simp add: sel_ok_def)
next
  case (range s n v v')
  then show ?case by (auto simp: setRange_def sel_defs Let_def split: Option.bind_splits)
next
  case (dynamic v v')
  then show ?case by (auto simp: makeDynamic_def sel_defs split: Option.bind_splits)
qed (auto simp: sel_defs split: Option.bind_splits)

lemma sel_at_below:
  assumes "sel_ok cap v" "i < selectedSize v"
  shows "sel_at cap v i = Some (getSelectedPositions cap v ! i)"
  using assms by (cases "selState v")
    (auto simp: sel_at_def sel_ok_def getSelectedPositions_def pointee_def INCREMENTAL_SELECTED_POS_def getCapacity_def)

lemma sel_reachable_ok:
  assumes "(sel_step cap)\<^sup>*\<^sup>* (new_SelectionVector n) v" "n \<le> cap"
  shows "sel_ok cap v"
proof -
  have "sel_ok cap (new_SelectionVector n)" using assms(2) by (simp add: new_SelectionVector_def sel_defs)
  with assms(1) show ?thesis by (induction rule: rtranclp_induct) (auto intro: sel_step_ok)
qed

text \<open>Without that premise the assertion holds and the size leaves the capacity.\<close>

lemma incrementSelSize_unchecked:
  assumes "selectedSize v < getCapacity v" "getCapacity v < selectedSize v + k"
  shows "\<exists>v'. incrementSelSize k v = Some v' \<and> getCapacity v' < selectedSize v'"
  using assms by (simp add: incrementSelSize_def getCapacity_def)

section \<open>What the operations compute\<close>

lemma until_false_eq: "until_false f xs = (let ok = takeWhile f xs in ok @ take 1 (drop (length ok) xs))"
  by (induction xs) (auto simp: Let_def)

text \<open>
  Counting up from the first position, which \<open>forEach\<close> does for a static view,
  visits the same positions as reading them one by one: on every slice of a selection vector,
  \<open>forEach\<close> visits exactly the selected positions of the slice, in order.
\<close>

lemma forEach_positions:
  assumes "sel_ok cap v" "slice cap v a n = Some s"
  shows "forEach s = take n (drop a (getSelectedPositions cap v))"
proof (cases "selState v")
  case DYNAMIC
  with assms(2) have s: "selectedPositions s = take n (drop a (getSelectedPositions cap v))" "viewState s = DYNAMIC"
    by (auto simp: slice_def split: Option.bind_splits)
  then show ?thesis by (simp only: forEach_def sel_state.case map_nth)
next
  case STATIC
  with assms have s: "s = \<lparr>selectedPositions = take n (drop a [0..<selectedSize v]), viewState = STATIC\<rparr>" "a + n \<le> selectedSize v"
    by (auto simp: slice_def getSelectedPositions_def pointee_def INCREMENTAL_SELECTED_POS_def sel_ok_def take_upt
        split: Option.bind_splits)
  then have sp: "selectedPositions s = [a..<a + n]" "viewState s = STATIC" by (simp_all add: drop_upt take_upt)
  then have "forEach s = [a..<a + n]"
    by (cases "n = 0") (simp_all add: forEach_def nth_upt Let_def)
  moreover have "getSelectedPositions cap v = [0..<selectedSize v]"
    using STATIC assms(1) by (simp add: getSelectedPositions_def pointee_def INCREMENTAL_SELECTED_POS_def sel_ok_def take_upt)
  ultimately show ?thesis using s(2) by (simp add: drop_upt take_upt)
qed


definition ex_range :: SelectionVector where
  "ex_range = the (incrementSelSize 2 (the (setRange 2 3 (new_SelectionVector 8))))"


lemma discard_unfiltered_ok:
  assumes "m \<le> length buf"
  shows "\<exists>buf'. foldl (\<lambda>(buf, k) i. (buf[k := i], if nulls ! i then k else k + 1)) (buf, 0) [0..<m] =
      (buf', length (filter (\<lambda>i. \<not> nulls ! i) [0..<m])) \<and>
      length buf' = length buf \<and>
      take (length (filter (\<lambda>i. \<not> nulls ! i) [0..<m])) buf' = filter (\<lambda>i. \<not> nulls ! i) [0..<m]"
  using assms
proof (induction m)
  case (Suc m)
  then obtain buf' where b: "foldl (\<lambda>(buf, k) i. (buf[k := i], if nulls ! i then k else k + 1)) (buf, 0) [0..<m] =
      (buf', length (filter (\<lambda>i. \<not> nulls ! i) [0..<m]))" "length buf' = length buf"
      "take (length (filter (\<lambda>i. \<not> nulls ! i) [0..<m])) buf' = filter (\<lambda>i. \<not> nulls ! i) [0..<m]" by auto
  have "length (filter (\<lambda>i. \<not> nulls ! i) [0..<m]) \<le> m"
    by (metis diff_zero length_filter_le length_upt)
  then have "length (filter (\<lambda>i. \<not> nulls ! i) [0..<m]) < length buf'" using Suc.prems b(2) by simp
  with b show ?case by (auto simp: take_Suc_conv_app_nth)
qed simp

text \<open>
  On an unfiltered selection \<open>discardNull\<close> selects exactly the positions that are not null, in
  order, and reports whether any is left.
\<close>

lemma discardNull_unfiltered_correct:
  assumes "sel_ok cap v" "isUnfiltered cap v"
  shows "\<exists>v'. discardNull cap False nulls v =
      Some (v', filter (\<lambda>p. \<not> nulls ! p) (getSelectedPositions cap v) \<noteq> []) \<and>
    getSelectedPositions cap v' = filter (\<lambda>p. \<not> nulls ! p) (getSelectedPositions cap v)"
proof -
  let ?m = "selectedSize v" and ?f = "filter (\<lambda>p. \<not> nulls ! p) [0..<selectedSize v]"
  have m: "?m \<le> length (selectedPositionsBuffer v)" "getSelectedPositions cap v = [0..<?m]"
    using assms by (auto simp: sel_ok_def getCapacity_def isUnfiltered_def getSelectedPositions_def pointee_def
        INCREMENTAL_SELECTED_POS_def take_upt)
  from discard_unfiltered_ok[OF m(1), of nulls] obtain buf' where
    b: "discard_unfiltered nulls v = (buf', length ?f)" "length buf' = length (selectedPositionsBuffer v)"
      "take (length ?f) buf' = ?f" by (auto simp: discard_unfiltered_def)
  have "length ?f \<le> ?m" by (metis diff_zero length_filter_le length_upt)
  with m b assms(2) show ?thesis
    by (auto simp: discardNull_def setSelSize_def getCapacity_def setToFiltered_def getSelectedPositions_def pointee_def)
qed

text \<open>
  C29: On a filtered selection \<open>discardNull\<close> does not compact: it keeps the right number of
  positions but takes them from the front of the selection, so it is right only if all nulls come
  last. With a null in front, a null stays selected and a value is dropped.
\<close>

theorem discardNull_filtered_keeps_prefix:
  assumes "sel_ok cap v" "selState v = DYNAMIC"
  shows "\<exists>v' b. discardNull cap False nulls v = Some (v', b) \<and>
    getSelectedPositions cap v' =
      take (length (filter (\<lambda>p. \<not> nulls ! p) (getSelectedPositions cap v))) (getSelectedPositions cap v)"
proof -
  let ?P = "getSelectedPositions cap v" and ?step = "\<lambda>(v, k) i. do { pos \<leftarrow> sel_at cap v i; v' \<leftarrow> sel_set v i pos;
       Some (v', if nulls ! pos then k else k + 1) }"
  have len: "selectedSize v \<le> length (selectedPositionsBuffer v)" "?P = take (selectedSize v) (selectedPositionsBuffer v)"
    using assms by (auto simp: sel_ok_def getCapacity_def getSelectedPositions_def pointee_def)
  have "foldM ?step (v, 0) [0..<m] = Some (v, length (filter (\<lambda>p. \<not> nulls ! p) (take m ?P)))" if "m \<le> selectedSize v" for m
    using that
  proof (induction m)
    case (Suc m)
    have at: "sel_at cap v m = Some (?P ! m)" using sel_at_below[OF assms(1)] Suc.prems by simp
    have "sel_set v m (?P ! m) = Some v"
      using assms(2) Suc.prems len by (simp add: sel_set_def getCapacity_def)
    with at Suc len show ?case by (simp add: foldM_append take_Suc_conv_app_nth)
  qed simp
  then have d: "discard_filtered cap nulls v = Some (v, length (filter (\<lambda>p. \<not> nulls ! p) ?P))"
    using len by (auto simp: discard_filtered_def)
  have "length (filter (\<lambda>p. \<not> nulls ! p) ?P) \<le> length ?P" by (rule length_filter_le)
  with d assms(2) len show ?thesis
    by (auto simp: discardNull_def isUnfiltered_def setSelSize_def getCapacity_def getSelectedPositions_def pointee_def
        min_absorb1)
qed

theorem discardNull_filtered_keeps_prefix_witness:
  "\<exists>v' b. discardNull 4 False [True, False, True, False]
      \<lparr>selectedPositionsBuffer = [2, 3, 0, 0], selectedSize = 2, selState = DYNAMIC\<rparr> = Some (v', b) \<and>
    getSelectedPositions 4 v' = [2]"
proof -
  let ?v = "\<lparr>selectedPositionsBuffer = [2, 3, 0, 0], selectedSize = 2, selState = DYNAMIC\<rparr>"
  have f: "take (length (filter (\<lambda>p. \<not> [True, False, True, False] ! p) (getSelectedPositions 4 ?v))) (getSelectedPositions 4 ?v) = [2]"
    by code_simp
  have "sel_ok 4 ?v" "selState ?v = DYNAMIC" by code_simp+
  from discardNull_filtered_keeps_prefix[OF this, of "[True, False, True, False]"] show ?thesis unfolding f .
qed

end
