(* ===== verification/FactorizedOps.thy ===== *)
theory FactorizedOps
  imports FactorizedAppend SelVector
begin

text \<open>
  The other operations of a factorized table: merging two tables, reading columns back into
  vectors, counting flat tuples, single-row updates, \<open>resize\<close> and \<open>clear\<close>; and the properties of
  the component.
\<close>

section \<open>Operations\<close>

definition getTuple :: "'v FactorizedTable \<Rightarrow> nat \<Rightarrow> 'v row option" where
  "getTuple t i =
     do { ku_assert (i < ft_numTuples t);
          row_at (flatTupleBlockCollection t) (getBlockIdxAndTupleIdxInBlock (flatTupleBlockCollection t) i) }"

definition mergeMayContainNulls :: "FactorizedTableSchema \<Rightarrow> FactorizedTableSchema \<Rightarrow> FactorizedTableSchema" where
  "mergeMayContainNulls s s' =
     foldl (\<lambda>s i. if \<not> hasNoNullGuarantee (columns s' ! i) then setMayContainsNullsToTrue i s else s)
       s [0..<length (columns s')]"

text \<open>The overflow pointers of the other table stay valid: its blocks are moved, not copied.\<close>

definition merge_tables :: "'v FactorizedTable \<Rightarrow> 'v FactorizedTable \<Rightarrow> 'v FactorizedTable option" where
  "merge_tables t u =
     do { ku_assert (schema_eq (tableSchema t) (tableSchema u));
          Some (if ft_numTuples u = 0 then t
                else t\<lparr>tableSchema := mergeMayContainNulls (tableSchema t) (tableSchema u),
                       unFlatTupleBlocks := unFlatTupleBlocks t @ unFlatTupleBlocks u,
                       flatTupleBlockCollection := merge_blocks (flatTupleBlockSize t)
                         (flatTupleBlockCollection t) (flatTupleBlockCollection u),
                       ft_numTuples := ft_numTuples t + ft_numTuples u\<rparr>) }"

definition hasUnflatCol :: "'v FactorizedTable \<Rightarrow> bool" where
  "hasUnflatCol t = list_ex (\<lambda>i. \<not> isFlat (columns (tableSchema t) ! i)) [0..<length (columns (tableSchema t))]"

text \<open>
  \<open>getNumFlatTuples\<close>: the product of the sizes of the groups, each counted at its first column.
\<close>

definition cell_size :: "FactorizedTableSchema \<Rightarrow> 'v row \<Rightarrow> nat \<Rightarrow> nat" where
  "cell_size s r i =
     (if isFlat (columns s ! i) then 1 else case fst r ! i of Overflow n a \<Rightarrow> n | _ \<Rightarrow> 0)"

definition getNumFlatTuples :: "FactorizedTableSchema \<Rightarrow> 'v row \<Rightarrow> nat" where
  "getNumFlatTuples s r =
     snd (foldl (\<lambda>(groups, n) i. let g = groupID (columns s ! i) in
            if g \<in> set groups then (groups, n) else (g # groups, n * cell_size s r i))
          ([], 1) [0..<length (columns s)])"

definition getTotalNumFlatTuples :: "'v FactorizedTable \<Rightarrow> nat option" where
  "getTotalNumFlatTuples t =
     foldM (\<lambda>n i. do { r \<leftarrow> getTuple t i; Some (n + getNumFlatTuples (tableSchema t) r) }) 0 [0..<ft_numTuples t]"

definition updateFlatCell :: "tuple_ptr \<Rightarrow> nat \<Rightarrow> 'v ValueVector \<Rightarrow> nat \<Rightarrow> 'v FactorizedTable \<Rightarrow> 'v FactorizedTable" where
  "updateFlatCell p col v pos t =
     (case vvals v ! pos of
        None \<Rightarrow> write_flat col None p t
      | Some x \<Rightarrow> t\<lparr>flatTupleBlockCollection := set_row p (\<lambda>r. ((fst r)[col := Value x], (snd r)[col := False]))
            (flatTupleBlockCollection t)\<rparr>)"

definition appendEmptyTuple :: "'v FactorizedTable \<Rightarrow> 'v FactorizedTable \<times> tuple_ptr" where
  "appendEmptyTuple t =
     (let c = flatTupleBlockCollection t; bytes = numBytesPerTuple (tableSchema t);
          c1 = (if needAllocation c bytes then add_block (flatTupleBlockSize t) (length (columns (tableSchema t))) c else c);
          b = last (blocks c1);
          p = (length (blocks c1) - 1, (flatTupleBlockSize t - freeSize b) div bytes)
      in (t\<lparr>flatTupleBlockCollection := take_slots 1 c1, ft_numTuples := ft_numTuples t + 1\<rparr>, p))"

definition clear :: "'v FactorizedTable \<Rightarrow> 'v FactorizedTable" where
  "clear t = t\<lparr>ft_numTuples := 0,
     flatTupleBlockCollection := new_DataBlockCollection (numBytesPerTuple (tableSchema t))
       (numTuplesPerBlock (flatTupleBlockCollection t)),
     unFlatTupleBlocks := []\<rparr>"

text \<open>
  \<open>resize\<close> to more rows: while the rows to add do not fit into the last block, a new block is
  appended and filled, whatever is still free in the block before it.
\<close>

partial_function (option) grow_blocks :: "nat \<Rightarrow> nat \<Rightarrow> 'v DataBlockCollection \<Rightarrow> nat \<Rightarrow> ('v DataBlockCollection \<times> nat) option" where
  "grow_blocks sz ncols c n =
     (if needAllocation c (n * blk_numBytesPerTuple c) then
        let k = min n (numTuplesPerBlock c) in grow_blocks sz ncols (take_slots k (add_block sz ncols c)) (n - k)
      else Some (c, n))"

declare grow_blocks.simps [code]

definition resize_up :: "nat \<Rightarrow> 'v FactorizedTable \<Rightarrow> 'v FactorizedTable option" where
  "resize_up n t =
     do { (c, k) \<leftarrow> grow_blocks (flatTupleBlockSize t) (length (columns (tableSchema t)))
            (flatTupleBlockCollection t) (n - ft_numTuples t);
          ku_assert (k < numTuplesPerBlock c);
          Some (t\<lparr>flatTupleBlockCollection := take_slots k c, ft_numTuples := n\<rparr>) }"

text \<open>\<open>resize\<close> to fewer rows redistributes the counters over the blocks that are there.\<close>

definition resize_down :: "nat \<Rightarrow> 'v FactorizedTable \<Rightarrow> 'v FactorizedTable option" where
  "resize_down n t =
     (let c = flatTupleBlockCollection t; bytes = numBytesPerTuple (tableSchema t) in
      do { ku_assert (length (blocks c) = 1);
           let (bs, rest) = foldl (\<lambda>(bs, rest) b.
                  let k = min rest (numTuplesPerBlock c)
                  in (bs @ [b\<lparr>numTuples := k, freeSize := flatTupleBlockSize t - k * bytes\<rparr>], rest - k))
                ([], n) (blocks c);
           ku_assert (rest = 0);
           Some (t\<lparr>flatTupleBlockCollection := c\<lparr>blocks := bs\<rparr>, ft_numTuples := n\<rparr>) })"

definition resize :: "nat \<Rightarrow> 'v FactorizedTable \<Rightarrow> 'v FactorizedTable option" where
  "resize n t = (if n > ft_numTuples t then resize_up n t else resize_down n t)"

section \<open>Reading columns\<close>

text \<open>The value a flat column shows; without the null flag of the column the null bit is not read.\<close>

definition read_flat :: "FactorizedTableSchema \<Rightarrow> 'v row \<Rightarrow> nat \<Rightarrow> 'v option option" where
  "read_flat s r col =
     (if mayContainNulls (columns s ! col) \<and> snd r ! col then Some None
      else case fst r ! col of Value v \<Rightarrow> Some (Some v) | _ \<Rightarrow> None)"

text \<open>
  A vector that is read into: its selection vector decides where the values go. The capacity of the static
  selection is an argument of the readers.
\<close>

record 'v dst_vector =
  dflat :: bool
  dsel :: SelectionVector
  dvals :: "'v option list"

definition put_value :: "nat \<Rightarrow> 'v option \<Rightarrow> 'v dst_vector \<Rightarrow> 'v dst_vector option" where
  "put_value pos x v = do { ku_assert (pos < length (dvals v)); Some (v\<lparr>dvals := (dvals v)[pos := x]\<rparr>) }"

definition readFlatColToFlatVector :: "FactorizedTableSchema \<Rightarrow> 'v row \<Rightarrow> nat \<Rightarrow> 'v dst_vector \<Rightarrow> nat \<Rightarrow> 'v dst_vector option" where
  "readFlatColToFlatVector s r col v pos = do { x \<leftarrow> read_flat s r col; put_value pos x v }"

text \<open>Reading into an unflat vector sets the selected size; row \<open>i\<close> goes to the selected position \<open>i\<close>.\<close>

definition readFlatColToUnflatVector :: "nat \<Rightarrow> FactorizedTableSchema \<Rightarrow> 'v row list \<Rightarrow> nat \<Rightarrow> 'v dst_vector \<Rightarrow> 'v dst_vector option" where
  "readFlatColToUnflatVector cap s rs col v =
     do { sel \<leftarrow> setSelSize (length rs) (dsel v);
          foldM (\<lambda>v i. do { pos \<leftarrow> sel_at cap (dsel v) i; x \<leftarrow> read_flat s (rs ! i) col; put_value pos x v })
            (v\<lparr>dsel := sel\<rparr>) [0..<length rs] }"

definition readFlatCol :: "nat \<Rightarrow> FactorizedTableSchema \<Rightarrow> 'v row list \<Rightarrow> nat \<Rightarrow> 'v dst_vector \<Rightarrow> 'v dst_vector option" where
  "readFlatCol cap s rs col v =
     (if dflat v then do { pos \<leftarrow> sel_at cap (dsel v) 0; readFlatColToFlatVector s (rs ! 0) col v pos }
      else readFlatColToUnflatVector cap s rs col v)"

text \<open>
  Reading an overflow list into an unfiltered vector. With the no-null guarantee of the column the
  null bits are not read, so a null in the list has no defined value then.
\<close>

definition readUnflatCol :: "nat \<Rightarrow> 'v overflow_heap \<Rightarrow> FactorizedTableSchema \<Rightarrow> 'v row \<Rightarrow> nat \<Rightarrow> 'v dst_vector \<Rightarrow> 'v dst_vector option" where
  "readUnflatCol cap heap s r col v =
     (case fst r ! col of
        Overflow n a \<Rightarrow>
          do { ku_assert (isUnfiltered cap (dsel v));
               ku_assert (\<not> (hasNoNullGuarantee (columns s ! col) \<and> None \<in> set (take n (heap ! a))));
               v' \<leftarrow> foldM (\<lambda>v i. put_value i (heap ! a ! i) v) v [0..<n];
               sel \<leftarrow> setSelSize n (dsel v');
               Some (v'\<lparr>dsel := sel\<rparr>) }
      | _ \<Rightarrow> None)"

definition lookup_column ::
  "nat \<Rightarrow> 'v overflow_heap \<Rightarrow> FactorizedTableSchema \<Rightarrow> 'v row list \<Rightarrow> nat \<Rightarrow> 'v dst_vector \<Rightarrow> 'v dst_vector option" where
  "lookup_column cap heap s rs col v =
     (if isFlat (columns s ! col)
      then do { ku_assert (\<not> (dflat v \<and> length rs > 1)); readFlatCol cap s rs col v }
      else do { ku_assert (\<not> dflat v \<and> length rs = 1); readUnflatCol cap heap s (rs ! 0) col v })"

definition lookup_rows ::
  "nat \<Rightarrow> 'v overflow_heap \<Rightarrow> FactorizedTableSchema \<Rightarrow> 'v row list \<Rightarrow> (nat \<times> 'v dst_vector) list \<Rightarrow> 'v dst_vector list option" where
  "lookup_rows cap heap s rs cols =
     foldM (\<lambda>vs (col, v). do { v' \<leftarrow> lookup_column cap heap s rs col v; Some (vs @ [v']) }) [] cols"

definition scan ::
  "nat \<Rightarrow> 'v overflow_heap \<Rightarrow> 'v FactorizedTable \<Rightarrow> nat \<Rightarrow> nat \<Rightarrow> (nat \<times> 'v dst_vector) list \<Rightarrow> 'v dst_vector list option" where
  "scan cap heap t i n cols =
     do { ku_assert (i + n \<le> ft_numTuples t);
          rs \<leftarrow> foldM (\<lambda>rs k. do { r \<leftarrow> getTuple t (i + k); Some (rs @ [r]) }) [] [0..<n];
          lookup_rows cap heap (tableSchema t) rs cols }"

section \<open>Rows by index\<close>

lemma getTuple_ok: "table_ok t \<Longrightarrow> i < ft_numTuples t \<Longrightarrow> getTuple t i = Some (trows t ! i)"
  by (auto simp: getTuple_def ku_assert_def table_ok_def intro!: row_at_block_idx)

lemma layout_mergeMayContainNulls:
  assumes "schema_ok s"
  shows "schema_ok (mergeMayContainNulls s s') \<and> layout (mergeMayContainNulls s s') = layout s \<and>
    numBytesPerTuple (mergeMayContainNulls s s') = numBytesPerTuple s"
  unfolding mergeMayContainNulls_def
  by (rule foldl_invariant[where I = "\<lambda>x. schema_ok x \<and> layout x = layout s \<and> numBytesPerTuple x = numBytesPerTuple s"])
     (auto simp: assms setMayContainsNulls_ok)


section \<open>Merging\<close>

text \<open>The part of the invariant that survives a merge: the free slots may hold old rows.\<close>

definition merged_ok :: "'v FactorizedTable \<Rightarrow> bool" where
  "merged_ok t \<longleftrightarrow> blocks_ok (flatTupleBlockSize t) (flatTupleBlockCollection t) \<and>
     schema_ok (tableSchema t) \<and> blk_numBytesPerTuple (flatTupleBlockCollection t) = numBytesPerTuple (tableSchema t) \<and>
     ft_numTuples t = length (trows t) \<and> flagged t"

lemma table_ok_merged: "table_ok t \<Longrightarrow> merged_ok t"
  by (simp add: table_ok_def merged_ok_def)

lemma getTuple_merged: "merged_ok t \<Longrightarrow> i < ft_numTuples t \<Longrightarrow> getTuple t i = Some (trows t ! i)"
  by (auto simp: getTuple_def ku_assert_def merged_ok_def intro!: row_at_block_idx)

lemma mayContainNulls_merge:
  assumes "length (columns s') = length (columns s)" "c < length (columns s)"
  shows "mayContainNulls (columns (mergeMayContainNulls s s') ! c) \<longleftrightarrow>
    mayContainNulls (columns s ! c) \<or> mayContainNulls (columns s' ! c)"
    and "length (columns (mergeMayContainNulls s s')) = length (columns s)"
proof -
  let ?step = "\<lambda>s i. if \<not> hasNoNullGuarantee (columns s' ! i) then setMayContainsNullsToTrue i s else s"
  have "length (columns (foldl ?step s [0..<n])) = length (columns s) \<and>
     (c < length (columns s) \<longrightarrow> mayContainNulls (columns (foldl ?step s [0..<n]) ! c) =
       (mayContainNulls (columns s ! c) \<or> c < n \<and> mayContainNulls (columns s' ! c)))" for n
    by (induction n) (auto simp: setMayContainsNullsToTrue_def hasNoNullGuarantee_def nth_update_if less_Suc_eq)
  from this[of "length (columns s')"] assms
  show "mayContainNulls (columns (mergeMayContainNulls s s') ! c) \<longleftrightarrow>
    mayContainNulls (columns s ! c) \<or> mayContainNulls (columns s' ! c)"
    and "length (columns (mergeMayContainNulls s s')) = length (columns s)"
    by (simp_all add: mergeMayContainNulls_def)
qed

lemma merge_tables_ok:
  assumes t: "merged_ok t" and u: "merged_ok u" and same: "schema_eq (tableSchema t) (tableSchema u)"
    and size: "flatTupleBlockSize u = flatTupleBlockSize t"
  shows "\<exists>m. merge_tables t u = Some m \<and> merged_ok m \<and> mset (trows m) = mset (trows t) + mset (trows u) \<and>
    ft_numTuples m = ft_numTuples t + ft_numTuples u"
proof (cases "ft_numTuples u = 0")
  case True
  then have "trows u = []" using u by (simp add: merged_ok_def)
  with True t same show ?thesis by (simp add: merge_tables_def ku_assert_def)
next
  case False
  let ?c = "flatTupleBlockCollection t" and ?d = "flatTupleBlockCollection u"
  let ?m = "merge_blocks (flatTupleBlockSize t) ?c ?d" and ?s = "mergeMayContainNulls (tableSchema t) (tableSchema u)"
  have cols: "list_all2 column_eq (columns (tableSchema t)) (columns (tableSchema u))"
    using same t u by (simp add: merged_ok_def schema_eq_iff)
  then have len: "length (columns (tableSchema u)) = length (columns (tableSchema t))" by (simp add: list_all2_lengthD)
  have "map numBytes (columns (tableSchema t)) = map numBytes (columns (tableSchema u))"
    using cols by (induction rule: list_all2_induct) (auto simp: column_eq_def)
  then have bytes: "numBytesPerTuple (tableSchema u) = numBytesPerTuple (tableSchema t)"
    using t u len by (simp add: merged_ok_def schema_ok_def)
  have ne: "blocks ?d \<noteq> []" using False u by (auto simp: merged_ok_def rows_def)
  have blk: "blocks_ok (flatTupleBlockSize t) ?m \<and> mset (rows ?m) = mset (trows t) + mset (trows u) \<and>
      blk_numBytesPerTuple ?m = blk_numBytesPerTuple ?c"
    using t u size bytes ne by (intro merge_blocks_ok) (auto simp: merged_ok_def)
  then have set: "set (rows ?m) = set (trows t) \<union> set (trows u)" by (metis set_mset_mset set_mset_union)
  have lenm: "length (rows ?m) = length (trows t) + length (trows u)" using blk by (metis size_mset size_union)
  note lay = layout_mergeMayContainNulls[of "tableSchema t" "tableSchema u"]
  have fl: "mayContainNulls (columns ?s ! c)" if "r \<in> set (rows ?m)" "c < length (columns ?s)" "snd r ! c" for r c
  proof -
    have c: "c < length (columns (tableSchema t))" using that(2) mayContainNulls_merge(2)[OF len, of 0] len
      by (cases "columns (tableSchema t)") (auto simp: mergeMayContainNulls_def)
    then show ?thesis using that(1,3) set t u len mayContainNulls_merge(1)[OF len c]
      by (auto simp: merged_ok_def flagged_def)
  qed
  define m where "m = t\<lparr>tableSchema := ?s, unFlatTupleBlocks := unFlatTupleBlocks t @ unFlatTupleBlocks u,
    flatTupleBlockCollection := ?m, ft_numTuples := ft_numTuples t + ft_numTuples u\<rparr>"
  have "merge_tables t u = Some m" using same False by (simp add: merge_tables_def ku_assert_def m_def)
  moreover have "merged_ok m"
    unfolding merged_ok_def flagged_def using blk t u lay lenm fl by (auto simp: m_def merged_ok_def)
  ultimately show ?thesis using blk by (simp add: m_def)
qed

section \<open>Reading back\<close>

lemma read_flat_ok:
  assumes "shows_as heap r col (view_of True v i)" "snd r ! col \<Longrightarrow> mayContainNulls (columns s ! col)"
  shows "read_flat s r col = Some (flat_value v i)"
  using assms by (auto simp: shows_as_def cell_view_def view_of_def read_flat_def split: if_splits option.splits cell.splits)

text \<open>A selection vector with room for \<open>n\<close> values at different positions of the buffer.\<close>

definition room_for :: "nat \<Rightarrow> nat \<Rightarrow> 'v dst_vector \<Rightarrow> bool" where
  "room_for cap n v \<longleftrightarrow> n \<le> getCapacity (dsel v) \<and> n \<le> length (pointee cap (dsel v)) \<and> distinct (take n (pointee cap (dsel v))) \<and>
     (\<forall>p\<in>set (take n (pointee cap (dsel v))). p < length (dvals v))"

lemma resized_selection: "pointee cap (v\<lparr>selectedSize := n\<rparr>) = pointee cap v" "getCapacity (v\<lparr>selectedSize := n\<rparr>) = getCapacity v"
  by (simp_all add: pointee_def getCapacity_def split: sel_state.split)

lemma readFlatColToUnflatVector_ok:
  assumes read: "\<And>i. i < length rs \<Longrightarrow> read_flat s (rs ! i) col = Some (x i)" and room: "room_for cap (length rs) v"
  shows "\<exists>v'. readFlatColToUnflatVector cap s rs col v = Some v' \<and> dsel v' = (dsel v)\<lparr>selectedSize := length rs\<rparr> \<and>
    (\<forall>i < length rs. dvals v' ! (pointee cap (dsel v) ! i) = x i) \<and> length (dvals v') = length (dvals v) \<and>
    (\<forall>p. p \<notin> set (take (length rs) (pointee cap (dsel v))) \<longrightarrow> dvals v' ! p = dvals v ! p)"
proof -
  let ?sel = "(dsel v)\<lparr>selectedSize := length rs\<rparr>" and ?P = "pointee cap (dsel v)"
  let ?f = "\<lambda>v i. do { pos \<leftarrow> sel_at cap (dsel v) i; x \<leftarrow> read_flat s (rs ! i) col; put_value pos x v }"
  have r: "length rs \<le> getCapacity (dsel v)" "length rs \<le> length ?P" "distinct (take (length rs) ?P)"
    "\<And>i. i < length rs \<Longrightarrow> ?P ! i < length (dvals v)"
    using room by (auto simp: room_for_def in_set_conv_nth) (metis nth_take nth_mem length_take min.absorb2)
  have "\<exists>v'. foldM ?f (v\<lparr>dsel := ?sel\<rparr>) [0..<n] = Some v' \<and> dsel v' = ?sel \<and> length (dvals v') = length (dvals v) \<and>
      (\<forall>i < n. dvals v' ! (?P ! i) = x i) \<and> (\<forall>p. p \<notin> set (take n ?P) \<longrightarrow> dvals v' ! p = dvals v ! p)" if "n \<le> length rs" for n
    using that
  proof (induction n)
    case (Suc n)
    then obtain v' where v': "foldM ?f (v\<lparr>dsel := ?sel\<rparr>) [0..<n] = Some v'" "dsel v' = ?sel" "length (dvals v') = length (dvals v)"
      "\<forall>i < n. dvals v' ! (?P ! i) = x i" "\<forall>p. p \<notin> set (take n ?P) \<longrightarrow> dvals v' ! p = dvals v ! p" by auto
    have n: "n < length ?P" "n < length rs" using Suc.prems r(2) by auto
    have ne: "?P ! n \<noteq> ?P ! i" if "i < n" for i
      using nth_eq_iff_index_eq[OF r(3), of n i] that n by simp
    have at: "sel_at cap (dsel v') n = Some (?P ! n)"
      using v'(2) n r(1) by (simp add: sel_at_def resized_selection)
    have "?f v' n = Some (v'\<lparr>dvals := (dvals v')[?P ! n := x n]\<rparr>)"
      using at read[OF n(2)] r(4)[OF n(2)] v'(3) by (simp add: put_value_def)
    with v' show ?case using ne r(4)[OF n(2)] n(1) by (auto simp: foldM_append less_Suc_eq take_Suc_conv_app_nth)
  qed simp
  from this[of "length rs"] r(1) show ?thesis by (auto simp: readFlatColToUnflatVector_def setSelSize_def)
qed

lemma scan_rows:
  assumes "merged_ok t" "i + n \<le> ft_numTuples t"
  shows "foldM (\<lambda>rs k. do { r \<leftarrow> getTuple t (i + k); Some (rs @ [r]) }) [] [0..<n] = Some (map (\<lambda>k. trows t ! (i + k)) [0..<n])"
  using assms(2)
proof (induction n)
  case (Suc n)
  with getTuple_merged[OF assms(1), of "i + n"] show ?case by (simp add: foldM_append)
qed simp

text \<open>What was appended can be scanned back, column by column.\<close>

lemma append_scan_flat:
  assumes t: "table_ok t" and len: "length vs \<le> length (columns (tableSchema t))"
    and col: "\<forall>j < length vs. isFlat (columns (tableSchema t) ! j) \<or> \<not> vflat (vs ! j)"
    and j: "j < length vs" "isFlat (columns (tableSchema t) ! j)" and dst: "\<not> dflat dst" "room_for cap n dst"
  shows "\<exists>heap' t' dst'. append_vectors n vs (heap, t) = Some (heap', t') \<and>
    scan cap heap' t' (ft_numTuples t) n [(j, dst)] = Some [dst'] \<and>
    getSelectedPositions cap (dsel dst') = take n (pointee cap (dsel dst)) \<and>
    map ((!) (dvals dst')) (getSelectedPositions cap (dsel dst')) = map (flat_value (vs ! j)) [0..<n] \<and>
    (\<forall>p. p \<notin> set (getSelectedPositions cap (dsel dst')) \<longrightarrow> dvals dst' ! p = dvals dst ! p)"
proof -
  from append_vectors_ok[OF t len col, of n heap] obtain heap' t' new where a:
    "append_vectors n vs (heap, t) = Some (heap', t')" "table_ok t'" "trows t' = trows t @ new" "length new = n"
    "layout (tableSchema t') = layout (tableSchema t)" "appended heap' new (tableSchema t) vs" by blast
  have num: "ft_numTuples t = length (trows t)" "ft_numTuples t' = length (trows t) + n"
    using t a(2-4) by (auto simp: table_ok_def)
  have flat: "isFlat (columns (tableSchema t') ! j)" and jc: "j < length (columns (tableSchema t'))"
    using layout_columns[OF a(5)[symmetric], of j] j len by auto
  have rs: "map (\<lambda>k. trows t' ! (length (trows t) + k)) [0..<n] = new" using a(3,4) num by (auto simp: nth_append intro: nth_equalityI)
  have read: "read_flat (tableSchema t') (new ! i) j = Some (flat_value (vs ! j) i)" if i: "i < length new" for i
  proof (rule read_flat_ok)
    have "shows_as heap' (new ! i) j (view_of (isFlat (columns (tableSchema t) ! j)) (vs ! j) i)"
      using a(6) i j(1) unfolding appended_def by blast
    with j(2) show "shows_as heap' (new ! i) j (view_of True (vs ! j) i)" by simp
    show "snd (new ! i) ! j \<Longrightarrow> mayContainNulls (columns (tableSchema t') ! j)"
      using a(2,3) i jc by (auto simp: table_ok_def flagged_def)
  qed
  have "room_for cap (length new) dst" using dst(2) a(4) by simp
  from readFlatColToUnflatVector_ok[OF read this] obtain dst' where
    d: "readFlatColToUnflatVector cap (tableSchema t') new j dst = Some dst'" "dsel dst' = (dsel dst)\<lparr>selectedSize := n\<rparr>"
    "\<forall>i < n. dvals dst' ! (pointee cap (dsel dst) ! i) = flat_value (vs ! j) i"
    "\<forall>p. p \<notin> set (take n (pointee cap (dsel dst))) \<longrightarrow> dvals dst' ! p = dvals dst ! p" using a(4) by auto
  have "scan cap heap' t' (ft_numTuples t) n [(j, dst)] = Some [dst']"
    using scan_rows[OF table_ok_merged[OF a(2)], of "ft_numTuples t" n] num dst(1) flat d(1)
    by (simp add: scan_def ku_assert_def lookup_rows_def lookup_column_def readFlatCol_def rs)
  moreover have pos: "getSelectedPositions cap (dsel dst') = take n (pointee cap (dsel dst))"
    using d(2) by (simp add: getSelectedPositions_def resized_selection)
  moreover have "map ((!) (dvals dst')) (take n (pointee cap (dsel dst))) = map (flat_value (vs ! j)) [0..<n]"
    using d(3) dst(2) by (intro nth_equalityI) (auto simp: room_for_def)
  ultimately show ?thesis using a(1) d(4) by auto
qed

section \<open>Overflow blocks\<close>

text \<open>How much of a block is in use; blocks that do not exist yet are unused.\<close>

definition used_bytes :: "unflat_block list \<Rightarrow> nat \<Rightarrow> nat" where
  "used_bytes bs b = (if b < length bs then unat (ublk_size (bs ! b) - ublk_free (bs ! b)) else 0)"

definition ublocks_ok :: "unflat_block list \<Rightarrow> bool" where
  "ublocks_ok bs \<longleftrightarrow> list_all (\<lambda>b. ublk_free b \<le> ublk_size b) bs"

text \<open>The request for which a block of its own gets size zero.\<close>

definition wraps_block :: "nat \<Rightarrow> unflat_block list \<Rightarrow> 32 word \<Rightarrow> bool" where
  "wraps_block pageSize bs n \<longleftrightarrow> n = - 1 \<and> pageSize < 2 ^ 32 \<and> (bs = [] \<or> ublk_free (last bs) \<le> ucast n)"

lemma unat_ucast_64: "unat (ucast n :: 64 word) = unat (n :: 32 word)"
  by (simp add: unsigned_ucast_eq take_bit_nat_eq_self_iff order_less_trans[OF unsigned_less])

lemma block_size:
  assumes "pageSize < 2 ^ 64"
  shows "n \<noteq> - 1 \<or> 2 ^ 32 \<le> pageSize \<Longrightarrow> unat n < unat (getDataBlockSize pageSize n)"
    and "n = - 1 \<Longrightarrow> pageSize < 2 ^ 32 \<Longrightarrow> getDataBlockSize pageSize n = 0"
proof -
  have m: "unat (- 1 :: 32 word) = 2 ^ 32 - 1" by (simp add: unsigned_minus_1_eq_mask mask_eq_exp_minus_1)
  show "unat n < unat (getDataBlockSize pageSize n)" if "n \<noteq> - 1 \<or> 2 ^ 32 \<le> pageSize"
  proof (cases "unat n < pageSize")
    case True
    have "unat (of_nat pageSize :: 64 word) = pageSize" using assms by (simp add: unat_of_nat take_bit_nat_eq_self_iff)
    with True show ?thesis by (simp add: getDataBlockSize_def)
  next
    case False
    then have "n \<noteq> - 1" using that m by auto
    then have "1 + n \<noteq> 0" by (metis add.commute add_eq_0_iff)
    then have "unat (n + 1) = Suc (unat n)" by (metis add.commute unatSuc)
    with False show ?thesis by (simp add: getDataBlockSize_def unat_ucast_64)
  qed
  show "getDataBlockSize pageSize n = 0" if "n = - 1" "pageSize < 2 ^ 32" using that m by (simp add: getDataBlockSize_def)
qed

lemma take_region:
  assumes "ublk_free b \<le> ublk_size b" "unat n < unat (ublk_free b)"
  shows "ublk_free b - ucast (n :: 32 word) \<le> ublk_size b" "unat (ublk_size b - (ublk_free b - ucast n)) = unat (ublk_size b - ublk_free b) + unat n"
    "unat (ublk_size b - ublk_free b) + unat n \<le> unat (ublk_size b)"
proof -
  have n: "ucast n \<le> ublk_free b" "unat (ucast n :: 64 word) = unat n" using assms(2) by (simp_all add: word_le_nat_alt unat_ucast_64)
  have f: "unat (ublk_free b - ucast n) = unat (ublk_free b) - unat n" using unat_sub[OF n(1)] n(2) by simp
  have s: "unat (ublk_size b - ublk_free b) = unat (ublk_size b) - unat (ublk_free b)" by (rule unat_sub[OF assms(1)])
  have le: "unat (ublk_free b) \<le> unat (ublk_size b)" using assms(1) by (simp add: word_le_nat_alt)
  show fs: "ublk_free b - ucast n \<le> ublk_size b" using f le by (simp add: word_le_nat_alt)
  show "unat (ublk_size b - (ublk_free b - ucast n)) = unat (ublk_size b - ublk_free b) + unat n"
    using unat_sub[OF fs] f s le assms(2) by simp
  show "unat (ublk_size b - ublk_free b) + unat n \<le> unat (ublk_size b)" using s le assms(2) by simp
qed

lemma allocateUnflat_fresh:
  assumes "ublocks_ok bs" "pageSize < 2 ^ 64" "allocateUnflatTupleBlock pageSize bs n = (bs', b, off)" "\<not> wraps_block pageSize bs n"
  shows "ublocks_ok bs' \<and> b < length bs' \<and> off + unat n \<le> unat (ublk_size (bs' ! b)) \<and>
    off = used_bytes bs b \<and> used_bytes bs' b = off + unat n \<and> (\<forall>b'. b' \<noteq> b \<longrightarrow> used_bytes bs' b' = used_bytes bs b')"
proof -
  define new where "new = \<lparr>ublk_size = getDataBlockSize pageSize n, ublk_free = getDataBlockSize pageSize n\<rparr>"
  have gt: "ublk_free l > ucast n \<longleftrightarrow> unat n < unat (ublk_free l)" for l by (simp add: word_less_nat_alt unat_ucast_64)
  have fits: "unat n < unat (ublk_free new)" "ublk_free new \<le> ublk_size new" "ublk_size new - ublk_free new = 0"
    if "bs = [] \<or> \<not> ublk_free (last bs) > ucast n"
    using that assms(4) block_size(1)[OF assms(2), of n] by (auto simp: wraps_block_def new_def not_less not_le)
  show ?thesis
  proof (cases "bs = []")
    case True
    note f = fits[OF disjI1[OF True]]
    have "bs' = [new\<lparr>ublk_free := ublk_free new - ucast n\<rparr>]" "b = 0" "off = 0"
      using assms(3) True f gt[of new] by (auto simp: allocateUnflatTupleBlock_def Let_def new_def[symmetric])
    with True take_region[OF f(2,1)] f(3) show ?thesis by (auto simp: used_bytes_def ublocks_ok_def)
  next
    case False
    then obtain cs l where cs: "bs = cs @ [l]" by (metis append_butlast_last_id)
    have l: "ublk_free l \<le> ublk_size l" "list_all (\<lambda>b. ublk_free b \<le> ublk_size b) cs"
      using assms(1) by (auto simp: ublocks_ok_def cs)
    show ?thesis
    proof (cases "ublk_free l > ucast n")
      case True
      with assms(3) have r: "bs' = cs @ [l\<lparr>ublk_free := ublk_free l - ucast n\<rparr>]" "b = length cs" "off = unat (ublk_size l - ublk_free l)"
        by (auto simp: allocateUnflatTupleBlock_def Let_def cs)
      from take_region[OF l(1)] True gt[of l] l(2) r show ?thesis by (auto simp: used_bytes_def ublocks_ok_def cs nth_append)
    next
      case full: False
      then have f: "unat n < unat (ublk_free new)" "ublk_free new \<le> ublk_size new" "ublk_size new - ublk_free new = 0" using fits cs by auto
      have r: "bs' = bs @ [new\<lparr>ublk_free := ublk_free new - ucast n\<rparr>]" "b = length bs" "off = 0"
        using full assms(3) by (auto simp: allocateUnflatTupleBlock_def Let_def cs new_def)
      from take_region[OF f(2,1)] f(3) l r show ?thesis by (auto simp: used_bytes_def ublocks_ok_def cs nth_append)
    qed
  qed
qed

lemma allocateUnflat_wraps:
  assumes "pageSize < 2 ^ 64" "allocateUnflatTupleBlock pageSize bs n = (bs', b, off)" "wraps_block pageSize bs n"
  shows "b < length bs' \<and> ublk_size (bs' ! b) = 0"
  using assms block_size(2)[OF assms(1), of n]
  by (auto simp: wraps_block_def allocateUnflatTupleBlock_def Let_def nth_append not_less split: if_splits)

section \<open>Properties\<close>

text \<open>An example table: a flat and an unflat column, two rows per block.\<close>

definition ex_schema :: FactorizedTableSchema where
  "ex_schema = foldl appendColumn empty_schema [new_ColumnSchema False 0 8, new_ColumnSchema True 1 16]"

definition ex_table :: "nat FactorizedTable" where
  "ex_table = the (new_FactorizedTable 50 ex_schema)"

definition ex_vectors :: "nat ValueVector list" where
  "ex_vectors = [\<lparr>vflat = False, vsel = [0, 2, 3], vvals = [Some 7, None, None, Some 9], vbytes = 8\<rparr>,
     \<lparr>vflat = False, vsel = [1, 0], vvals = [Some 1, Some 2], vbytes = 8\<rparr>]"

text \<open>A table is well-formed when its blocks are empty; this is what the constructor builds.\<close>

lemma new_FactorizedTable_ok:
  assumes "schema_ok s" "columns s \<noteq> []" "numBytesPerTuple s \<le> pageSize" "new_FactorizedTable pageSize s = Some t"
  shows "table_ok t \<and> tableSchema t = s"
proof -
  have "0 < numBytesPerTuple s" using assms(1,2) by (cases "columns s") (auto simp: schema_ok_def getNumBytesForNullValues_def)
  then show ?thesis using assms
    by (auto simp: new_FactorizedTable_def new_DataBlockCollection_def table_ok_def blocks_ok_def rows_def
        flagged_def clean_def)
qed

lemma ex_table_ok: "table_ok ex_table" "tableSchema ex_table = ex_schema"
proof -
  have s: "schema_ok ex_schema"
    unfolding ex_schema_def by (simp add: schema_ok_appendColumn)
  have "columns ex_schema \<noteq> []" "numBytesPerTuple ex_schema \<le> 50" by code_simp+
  moreover obtain t where t: "new_FactorizedTable 50 ex_schema = Some (t :: nat FactorizedTable)"
    using calculation(2) by (simp add: new_FactorizedTable_def)
  ultimately have "table_ok t \<and> tableSchema t = ex_schema" by (intro new_FactorizedTable_ok[OF s])
  then show "table_ok ex_table" "tableSchema ex_table = ex_schema" by (simp_all add: ex_table_def t)
qed

text \<open>
  C38: \<open>FactorizedTableSchema::operator==\<close> on schemas built by \<open>appendColumn\<close> holds exactly when
  the schemas have columns and these are pairwise equal; in particular two empty schemas are not
  equal, because the sizes of the null maps are conjoined instead of compared.
\<close>

theorem schema_eq_characterisation:
  assumes "schema_ok s" "schema_ok t"
  shows "(schema_eq s t \<longleftrightarrow> columns s \<noteq> [] \<and> list_all2 column_eq (columns s) (columns t)) \<and>
    \<not> schema_eq empty_schema empty_schema"
  using schema_eq_iff[OF assms] schema_eq_iff[OF schema_ok_empty schema_ok_empty] by (simp add: empty_schema_def)

theorem schema_eq_characterisation_witness:
  "schema_eq ex_schema ex_schema \<and> \<not> schema_eq empty_schema empty_schema"
proof -
  have s: "schema_ok ex_schema" using ex_table_ok by (simp add: table_ok_def)
  have "columns ex_schema \<noteq> []" "list_all2 column_eq (columns ex_schema) (columns ex_schema)" by code_simp+
  with schema_eq_characterisation[OF s s] show ?thesis by simp
qed

text \<open>
  C24: appending value vectors to a well-formed table returns, keeps the invariant of the table and
  all rows it had, and adds rows in which every column shows what was appended: the selected value
  or null for a flat column, the whole list for an unflat one.
\<close>

theorem append_vectors_correct:
  assumes "table_ok t" "length vs \<le> length (columns (tableSchema t))"
    and "\<forall>j < length vs. isFlat (columns (tableSchema t) ! j) \<or> \<not> vflat (vs ! j)"
  shows "\<exists>heap' t' new. append_vectors n vs (heap, t) = Some (heap', t') \<and> table_ok t' \<and>
    trows t' = trows t @ new \<and> length new = n \<and> (\<exists>ext. heap' = heap @ ext) \<and>
    appended heap' new (tableSchema t) vs"
  using append_vectors_ok[OF assms, of n heap] by blast

theorem append_vectors_correct_witness:
  "\<exists>heap' t' new. append_vectors 3 ex_vectors ([], ex_table) = Some (heap', t') \<and> table_ok t' \<and>
    trows t' = trows ex_table @ new \<and> length new = 3 \<and> (\<exists>ext. heap' = [] @ ext) \<and>
    appended heap' new (tableSchema ex_table) ex_vectors"
proof (rule append_vectors_correct[OF ex_table_ok(1)])
  show "length ex_vectors \<le> length (columns (tableSchema ex_table))"
    unfolding ex_table_ok(2) by code_simp
  show "\<forall>j < length ex_vectors. isFlat (columns (tableSchema ex_table) ! j) \<or> \<not> vflat (ex_vectors ! j)"
    unfolding ex_table_ok(2) by code_simp
qed



text \<open>
  C26: merging two tables of equal schemas keeps the invariant that only the last block has free
  slots, and the rows of the result are the rows of both tables; row \<open>i\<close> is found by index.
\<close>

theorem merge_tables_correct:
  assumes "merged_ok t" "merged_ok u" "schema_eq (tableSchema t) (tableSchema u)"
    and "flatTupleBlockSize u = flatTupleBlockSize t"
  shows "\<exists>m. merge_tables t u = Some m \<and> merged_ok m \<and> mset (trows m) = mset (trows t) + mset (trows u) \<and>
    (\<forall>i < ft_numTuples t + ft_numTuples u. getTuple m i = Some (trows m ! i))"
proof -
  from merge_tables_ok[OF assms] obtain m where "merge_tables t u = Some m" "merged_ok m"
    "mset (trows m) = mset (trows t) + mset (trows u)" "ft_numTuples m = ft_numTuples t + ft_numTuples u" by blast
  with getTuple_merged[of m] show ?thesis by auto
qed

definition ex_filled :: "nat FactorizedTable" where
  "ex_filled = snd (the (append_vectors 3 ex_vectors ([], ex_table)))"

lemma ex_filled_ok: "merged_ok ex_filled" "schema_eq (tableSchema ex_filled) (tableSchema ex_filled)"
proof -
  have "length ex_vectors \<le> length (columns (tableSchema ex_table))"
    "\<forall>j < length ex_vectors. isFlat (columns (tableSchema ex_table) ! j) \<or> \<not> vflat (ex_vectors ! j)"
    unfolding ex_table_ok(2) by code_simp+
  from append_vectors_ok[OF ex_table_ok(1) this, of 3 "[]"] show m: "merged_ok ex_filled"
    by (auto simp: ex_filled_def intro: table_ok_merged)
  show "schema_eq (tableSchema ex_filled) (tableSchema ex_filled)" by code_simp
qed

theorem merge_tables_correct_witness:
  "\<exists>m. merge_tables ex_filled ex_filled = Some m \<and> merged_ok m \<and>
    mset (trows m) = mset (trows ex_filled) + mset (trows ex_filled) \<and> getTuple m 5 = Some (trows m ! 5)"
proof -
  have "5 < ft_numTuples ex_filled + ft_numTuples ex_filled" by code_simp
  with merge_tables_correct[OF ex_filled_ok(1) ex_filled_ok(1) ex_filled_ok(2) refl] show ?thesis by blast
qed

text \<open>
  C27: \<open>allocateUnflatTupleBlock\<close> hands out a region that lies inside its block, starts where the
  used part of the block ended and extends the used part by exactly its size, so regions never
  overlap. The one exception is the largest 32-bit size when no block has room for it: its block size wraps
  around to zero.
\<close>

theorem allocateUnflat_disjoint:
  assumes "ublocks_ok bs" "pageSize < 2 ^ 64" "allocateUnflatTupleBlock pageSize bs n = (bs', b, off)"
  shows "if wraps_block pageSize bs n then b < length bs' \<and> ublk_size (bs' ! b) = 0
    else ublocks_ok bs' \<and> b < length bs' \<and> off + unat n \<le> unat (ublk_size (bs' ! b)) \<and>
      off = used_bytes bs b \<and> used_bytes bs' b = off + unat n \<and> (\<forall>b'. b' \<noteq> b \<longrightarrow> used_bytes bs' b' = used_bytes bs b')"
  using allocateUnflat_fresh[OF assms] allocateUnflat_wraps[OF assms(2,3)] by auto

theorem allocateUnflat_disjoint_witness:
  "\<exists>bs1 b1 off1 bs2 b2 off2. allocateUnflatTupleBlock 100 [\<lparr>ublk_size = 100, ublk_free = 50\<rparr>] 30 = (bs1, b1, off1) \<and>
     off1 + 30 \<le> unat (ublk_size (bs1 ! b1)) \<and> used_bytes bs1 b1 = off1 + 30 \<and>
     allocateUnflatTupleBlock 100 bs1 200 = (bs2, b2, off2) \<and> off2 + 200 \<le> unat (ublk_size (bs2 ! b2)) \<and> off2 = used_bytes bs1 b2"
proof -
  let ?a = "[\<lparr>ublk_size = 100, ublk_free = 50\<rparr>]"
  obtain bs1 b1 off1 where one: "allocateUnflatTupleBlock 100 ?a 30 = (bs1, b1, off1)" by (cases "allocateUnflatTupleBlock 100 ?a 30")
  obtain bs2 b2 off2 where two: "allocateUnflatTupleBlock 100 bs1 200 = (bs2, b2, off2)" by (cases "allocateUnflatTupleBlock 100 bs1 200")
  have "ublocks_ok ?a" by (simp add: ublocks_ok_def)
  from allocateUnflat_disjoint[OF this _ one] have o: "ublocks_ok bs1" "off1 + 30 \<le> unat (ublk_size (bs1 ! b1))" "used_bytes bs1 b1 = off1 + 30"
    by (simp_all add: wraps_block_def)
  from allocateUnflat_disjoint[OF o(1) _ two] have "off2 + 200 \<le> unat (ublk_size (bs2 ! b2))" "off2 = used_bytes bs1 b2"
    by (simp_all add: wraps_block_def)
  with one two o show ?thesis by blast
qed

text \<open>
  C39: \<open>resize\<close> to more rows than fit into the last block breaks the addressing of rows: it starts
  a new block while the one before it still has free slots, so there is a well-formed table after
  whose resize an index below the number of rows leads to a slot that is not a row of its block.
\<close>

theorem resize_breaks_addressing:
  "\<exists>t t' i b k. merged_ok (t :: nat FactorizedTable) \<and> resize 6 t = Some t' \<and> i < ft_numTuples t' \<and>
     getBlockIdxAndTupleIdxInBlock (flatTupleBlockCollection t') i = (b, k) \<and>
     numTuples (blocks (flatTupleBlockCollection t') ! b) \<le> k"
proof -
  let ?t = "the (resize 6 ex_filled)"
  have "resize 6 ex_filled = Some ?t" "3 < ft_numTuples ?t"
    "getBlockIdxAndTupleIdxInBlock (flatTupleBlockCollection ?t) 3 = (1, 1)"
    "numTuples (blocks (flatTupleBlockCollection ?t) ! 1) \<le> 1" by code_simp+
  with ex_filled_ok(1) show ?thesis by blast
qed

end
