(* ===== verification/HashFunctions.thy ===== *)
theory HashFunctions
  imports NodeID Prelude
begin

text \<open>
  The hash functions (\<open>include/function/hash/hash_functions.h\<close>), their application to vectors of
  internal identifiers (\<open>function/vector_hash_functions.cpp\<close>) and the rounding to powers of two
  (\<open>common/utils.cpp\<close>), all on 64-bit words.
\<close>

unbundle bit_operations_syntax

section \<open>Hashes of words and identifiers\<close>

type_synonym hash = "64 word"

definition NULL_HASH :: hash where
  "NULL_HASH = - 1"

definition murmurhash64 :: "64 word \<Rightarrow> hash" where
  "murmurhash64 x =
     (let x = x XOR drop_bit 32 x; x = x * 0xd6e8feb86659fd93;
          x = x XOR drop_bit 32 x; x = x * 0xd6e8feb86659fd93
      in x XOR drop_bit 32 x)"

definition combineHashScalar :: "hash \<Rightarrow> hash \<Rightarrow> hash" where
  "combineHashScalar a b = (a * 0xbf58476d1ce4e5b9) XOR b"

definition Hash_internalID :: "nodeID \<Rightarrow> hash" where
  "Hash_internalID key = murmurhash64 (offset key) XOR murmurhash64 (tableID key)"

section \<open>Powers of two\<close>

definition nextPowerOfTwo :: "64 word \<Rightarrow> 64 word" where
  "nextPowerOfTwo v =
     (let v = v - 1; v = v OR drop_bit 1 v; v = v OR drop_bit 2 v; v = v OR drop_bit 4 v;
          v = v OR drop_bit 8 v; v = v OR drop_bit 16 v; v = v OR drop_bit 32 v
      in v + 1)"

definition prevPowerOfTwo :: "64 word \<Rightarrow> 64 word" where
  "prevPowerOfTwo v = nextPowerOfTwo (v div 2 + 1)"

section \<open>murmurhash64 is injective\<close>

lemma xor_shift_inj:
  fixes x y :: "64 word"
  assumes "x XOR drop_bit 32 x = y XOR drop_bit 32 y"
  shows "x = y"
proof (rule bit_word_eqI)
  fix n assume n: "n < LENGTH(64)"
  have b: "bit (x XOR drop_bit 32 x) k = bit (y XOR drop_bit 32 y) k" for k using assms by simp
  have hi: "bit x k = bit y k" if "32 \<le> k" for k
  proof -
    have "\<not> bit x (32 + k)" "\<not> bit y (32 + k)" using that by (auto dest: bit_imp_le_length)
    with b[of k] show ?thesis by (simp add: bit_simps)
  qed
  show "bit x n = bit y n"
  proof (cases "32 \<le> n")
    case False
    with b[of n] hi[of "32 + n"] show ?thesis by (auto simp: bit_simps)
  qed (rule hi)
qed

lemma mult_inj_of_inverse:
  fixes x y c d :: "64 word"
  assumes "c * d = 1" "x * c = y * c"
  shows "x = y"
proof -
  have "x * c * d = y * c * d" using assms(2) by simp
  then show ?thesis using assms(1) by (simp add: mult.assoc)
qed

text \<open>
  C31: \<open>murmurhash64\<close> loses nothing: two words with the same hash are equal. It follows that two
  identifiers of one table have the same hash only if they are the same.
\<close>

theorem murmurhash64_injective:
  "(murmurhash64 x = murmurhash64 y \<longleftrightarrow> x = y) \<and>
   (Hash_internalID (InternalID m t) = Hash_internalID (InternalID n t) \<longleftrightarrow> m = n)"
proof -
  have inv: "(0xd6e8feb86659fd93 :: 64 word) * 0xcfee444d8b59a89b = 1" by code_simp
  have inj: "x = y" if "murmurhash64 x = murmurhash64 y" for x y
    using that unfolding murmurhash64_def Let_def
    by (metis xor_shift_inj mult_inj_of_inverse[OF inv])
  have "m = n" if "murmurhash64 m XOR murmurhash64 t = murmurhash64 n XOR murmurhash64 t"
  proof (rule inj)
    from that have "(murmurhash64 m XOR murmurhash64 t) XOR murmurhash64 t = (murmurhash64 n XOR murmurhash64 t) XOR murmurhash64 t"
      by simp
    then show "murmurhash64 m = murmurhash64 n" by (simp add: xor.assoc)
  qed
  with inj show ?thesis by (auto simp: Hash_internalID_def)
qed

lemma combineHashScalar_inj: "combineHashScalar a b = combineHashScalar a c \<Longrightarrow> b = c"
proof -
  assume "combineHashScalar a b = combineHashScalar a c"
  then have "(a * 0xbf58476d1ce4e5b9) XOR ((a * 0xbf58476d1ce4e5b9) XOR b) =
    (a * 0xbf58476d1ce4e5b9) XOR ((a * 0xbf58476d1ce4e5b9) XOR c)" by (simp add: combineHashScalar_def)
  then show ?thesis by (simp add: xor.assoc [symmetric])
qed

section \<open>Rounding up\<close>

text \<open>Smearing the highest set bit downwards: after the step with shift \<open>k\<close>, the top \<open>2 * k\<close> bits below it are set.\<close>

definition smear :: "nat \<Rightarrow> 64 word \<Rightarrow> 64 word" where
  "smear k v = v OR drop_bit k v"

definition smeared :: "nat \<Rightarrow> 64 word \<Rightarrow> 64 word \<Rightarrow> bool" where
  "smeared w v x \<longleftrightarrow> (\<forall>n. bit x n \<longleftrightarrow> (\<exists>j<w. bit v (n + j)))"

lemma smear_step:
  assumes "smeared k v x"
  shows "smeared (k + k) v (smear k x)"
proof -
  have "(\<exists>j<k. bit v (n + j)) \<or> (\<exists>j<k. bit v (k + n + j)) \<longleftrightarrow> (\<exists>j<k + k. bit v (n + j))" for n
  proof
    assume "(\<exists>j<k. bit v (n + j)) \<or> (\<exists>j<k. bit v (k + n + j))"
    then consider j where "j < k" "bit v (n + j)" | j where "j < k" "bit v (n + (k + j))" by (auto simp: add_ac)
    then show "\<exists>j<k + k. bit v (n + j)"
    proof cases
      case (1 j)
      then show ?thesis by (intro exI[of _ j]) simp
    next
      case (2 j)
      then show ?thesis by (intro exI[of _ "k + j"]) simp
    qed
  next
    assume "\<exists>j<k + k. bit v (n + j)"
    then obtain j where j: "j < k + k" "bit v (n + j)" by blast
    show "(\<exists>j<k. bit v (n + j)) \<or> (\<exists>j<k. bit v (k + n + j))"
    proof (cases "j < k")
      case False
      with j have "j - k < k" "bit v (k + n + (j - k))" by (simp_all add: add_ac)
      then show ?thesis by blast
    qed (use j in blast)
  qed
  with assms show ?thesis by (auto simp: smeared_def smear_def bit_simps)
qed

lemma nextPowerOfTwo_smear:
  "nextPowerOfTwo v = smear 32 (smear 16 (smear 8 (smear 4 (smear 2 (smear 1 (v - 1)))))) + 1"
  by (simp only: nextPowerOfTwo_def smear_def Let_def)

lemma smear_all: "smeared 64 u (smear 32 (smear 16 (smear 8 (smear 4 (smear 2 (smear 1 u))))))"
proof -
  have 1: "smeared 1 u u" by (simp add: smeared_def)
  have 2: "smeared 2 u (smear 1 u)" using smear_step[OF 1] by (simp only: one_add_one)
  have 4: "smeared 4 u (smear 2 (smear 1 u))" using smear_step[OF 2] by (simp only: numeral_plus_numeral add_num_simps)
  note 8 = smear_step[OF 4, unfolded numeral_plus_numeral add_num_simps]
  note 16 = smear_step[OF 8, unfolded numeral_plus_numeral add_num_simps]
  note 32 = smear_step[OF 16, unfolded numeral_plus_numeral add_num_simps]
  from smear_step[OF 32, unfolded numeral_plus_numeral add_num_simps] show ?thesis .
qed

lemma bit_unat: "bit (unat (u :: 64 word)) n \<longleftrightarrow> bit u n"
  by (simp add: bit_unsigned_iff)

lemma bit_length:
  fixes u :: "64 word"
  assumes "unat u < 2 ^ L" "\<And>j. unat u < 2 ^ j \<Longrightarrow> L \<le> j"
  shows "(\<exists>j<64. bit u (n + j)) \<longleftrightarrow> n < L"
proof
  assume "\<exists>j<64. bit u (n + j)"
  then obtain j where "bit (unat u) (n + j)" by (auto simp: bit_unat)
  then have "2 ^ (n + j) \<le> unat u" by (metis bit_iff_odd div_less even_zero not_less)
  then have "(2::nat) ^ (n + j) < 2 ^ L" using assms(1) by (rule le_less_trans)
  then show "n < L" by simp
next
  assume n: "n < L"
  then obtain l where l: "L = Suc l" by (cases L) auto
  have "2 ^ l \<le> unat u" using assms(2)[of l] l by (meson Suc_n_not_le_n not_less)
  with assms(1) l have "unat u div 2 ^ l = 1" by (simp add: div_nat_eqI)
  then have "bit (unat u) l" by (simp add: bit_iff_odd)
  then have b: "bit u l" by (simp add: bit_unat)
  then have "l < 64" using bit_imp_le_length[of u l] by simp
  with n l b show "\<exists>j<64. bit u (n + j)" by (intro exI[of _ "l - n"]) simp
qed

lemma nextPowerOfTwo_least_power:
  assumes "v \<noteq> 0" "v \<le> 2 ^ 63"
  shows "\<exists>k<64. nextPowerOfTwo v = 2 ^ k \<and> unat v \<le> 2 ^ k \<and> (\<forall>j. unat v \<le> 2 ^ j \<longrightarrow> k \<le> j)"
proof -
  let ?u = "v - 1" and ?x = "smear 32 (smear 16 (smear 8 (smear 4 (smear 2 (smear 1 (v - 1))))))"
  define L where "L = (LEAST j. unat ?u < 2 ^ j)"
  have u: "Suc (unat ?u) = unat v" using assms(1) by (simp add: unat_minus_one unat_gt_0)
  have "unat v \<le> 2 ^ 63" using assms(2) by (simp add: word_le_nat_alt)
  then have "unat ?u < 2 ^ 63" using u by simp
  note u63 = this
  have L: "unat ?u < 2 ^ L" "\<And>j. unat ?u < 2 ^ j \<Longrightarrow> L \<le> j" "L \<le> 63"
    unfolding L_def by (rule LeastI[where P = "\<lambda>j. unat ?u < 2 ^ j", OF u63], erule Least_le,
      rule Least_le[where P = "\<lambda>j. unat ?u < 2 ^ j", OF u63])
  have "?x = mask L"
    using smear_all[of ?u] bit_length[OF L(1,2)] L(3)
    by (intro bit_word_eqI) (auto simp: smeared_def bit_mask_iff)
  then have "nextPowerOfTwo v = 2 ^ L"
    unfolding nextPowerOfTwo_smear by (simp add: mask_eq_exp_minus_1)
  moreover have "unat v \<le> 2 ^ L" using L(1) u by simp
  moreover have "L \<le> j" if "unat v \<le> 2 ^ j" for j using L(2)[of j] u that by simp
  ultimately show ?thesis using L(3) by (intro exI[of _ L]) auto
qed

text \<open>
  C30: Bounds. For every non-zero value up to \<open>2 ^ 63\<close>, \<open>nextPowerOfTwo\<close> is the least power of two
  that is not smaller; no intermediate step overflows.
\<close>

theorem nextPowerOfTwo_least:
  assumes "v \<noteq> 0" "v \<le> 2 ^ 63"
  shows "\<exists>k<64. nextPowerOfTwo v = 2 ^ k \<and> unat v \<le> 2 ^ k \<and> (\<forall>j. unat v \<le> 2 ^ j \<longrightarrow> k \<le> j)"
  by (rule nextPowerOfTwo_least_power[OF assms])

theorem nextPowerOfTwo_least_witness:
  "\<exists>k<64. nextPowerOfTwo 100 = 2 ^ k \<and> unat (100 :: 64 word) \<le> 2 ^ k"
  using nextPowerOfTwo_least[of 100] by (auto simp: word_le_nat_alt)

lemma nextPowerOfTwo_zero: "nextPowerOfTwo 0 = 0"
  by code_simp

lemma unat_pow2: "k < 64 \<Longrightarrow> unat (2 ^ k :: 64 word) = 2 ^ k"
proof -
  assume "k < 64"
  then have "(2::nat) ^ k < 2 ^ 64" by (rule power_strict_increasing) simp
  moreover have "unat (of_nat (2 ^ k) :: 64 word) = 2 ^ k mod 2 ^ 64" unfolding unat_of_nat by (simp only: len_bit0 len_num1 mult_1_right) simp
  ultimately show ?thesis by simp
qed

end
