(* ===== verification/JoinHashTable.thy ===== *)
theory JoinHashTable
  imports FactorizedOps HashFunctions SelVector
begin

text \<open>
  The join hash table (\<open>processor/operator/hash_join/join_hash_table.cpp\<close>,
  \<open>processor/result/base_hash_table.cpp\<close>): a factorized table whose last two columns are the hash of
  the keys and a pointer to the previous row of the same slot, and blocks of slots that point to the
  row inserted last.

  Values are internal identifiers or hashes. A tuple pointer is the address of a row in the table, and a null
  pointer is None. A data chunk state, which the vectors of a chunk share, is an entry of a list of
  states; a vector names its state by index, so that discarding nulls through one vector changes the
  selection of all vectors of its chunk. The number of slots of a block is \<open>2 ^ numSlotsPerBlockLog2\<close>.
  The vector capacity is the parameter \<open>cap\<close>.
\<close>

section \<open>Vectors with shared states\<close>

datatype ht_val = IdVal nodeID | HashVal hash

record chunk_state =
  csFlat :: bool
  csSel :: SelectionVector

record chunk_vector =
  cvState :: nat
  cvVals :: "ht_val option list"
  cvBytes :: nat
  cvNoNulls :: bool

text \<open>A vector as the factorized table sees it, with the selection its state has now.\<close>

definition as_vector :: "nat \<Rightarrow> chunk_state list \<Rightarrow> chunk_vector \<Rightarrow> ht_val ValueVector" where
  "as_vector cap sts v =
     \<lparr>vflat = csFlat (sts ! cvState v), vsel = getSelectedPositions cap (csSel (sts ! cvState v)),
      vvals = cvVals v, vbytes = cvBytes v\<rparr>"

definition discard_key :: "nat \<Rightarrow> chunk_state list \<Rightarrow> chunk_vector \<Rightarrow> (chunk_state list \<times> bool) option" where
  "discard_key cap sts v =
     (let s = sts ! cvState v in
      do { (sel, nonempty) \<leftarrow> discardNull cap (cvNoNulls v) (map (\<lambda>x. x = None) (cvVals v)) (csSel s);
           Some (sts[cvState v := s\<lparr>csSel := sel\<rparr>], nonempty) })"

fun discardNullFromKeys :: "nat \<Rightarrow> chunk_state list \<Rightarrow> chunk_vector list \<Rightarrow> (chunk_state list \<times> bool) option" where
  "discardNullFromKeys cap sts [] = Some (sts, True)"
| "discardNullFromKeys cap sts (v # vs) =
     do { (sts', nonempty) \<leftarrow> discard_key cap sts v;
          if nonempty then discardNullFromKeys cap sts' vs else Some (sts', False) }"

section \<open>Hashing vectors\<close>

definition Hash_operation :: "ht_val \<Rightarrow> hash" where
  "Hash_operation x = (case x of IdVal i \<Rightarrow> Hash_internalID i | HashVal h \<Rightarrow> murmurhash64 h)"

definition Hash_nullable :: "ht_val option \<Rightarrow> hash" where
  "Hash_nullable x = (case x of None \<Rightarrow> NULL_HASH | Some v \<Rightarrow> Hash_operation v)"

text \<open>
  \<open>UnaryHashFunctionExecutor::execute\<close>. Its four loops differ in whether nulls and the selection are
  looked at; an unfiltered selection lists the positions in order.
\<close>

definition UnaryHash_execute :: "ht_val ValueVector \<Rightarrow> nat list \<Rightarrow> hash list \<Rightarrow> hash list" where
  "UnaryHash_execute operand resultSel result =
     foldl (\<lambda>r i. r[resultSel ! i := Hash_nullable (vvals operand ! (vsel operand ! i))]) result [0..<length (vsel operand)]"

definition validateSelState :: "nat \<Rightarrow> nat \<Rightarrow> nat \<Rightarrow> unit option" where
  "validateSelState l r res =
     (if l > 1 \<and> r > 1 then do { ku_assert (l = r); ku_assert (l = res) }
      else if l > 1 then ku_assert (l = res)
      else if r > 1 then ku_assert (r = res)
      else Some ())"

definition BinaryHash_execute ::
  "hash list \<Rightarrow> nat list \<Rightarrow> hash list \<Rightarrow> nat list \<Rightarrow> hash list \<Rightarrow> nat list \<Rightarrow> hash list option" where
  "BinaryHash_execute l lsel r rsel result resultSel =
     do { validateSelState (length lsel) (length rsel) (length resultSel);
          Some (if length lsel \<noteq> 1 \<and> length rsel \<noteq> 1
                then foldl (\<lambda>res i. res[resultSel ! i := combineHashScalar (l ! (lsel ! i)) (r ! (rsel ! i))])
                       result [0..<length lsel]
                else if length lsel = 1
                then foldl (\<lambda>res i. res[resultSel ! i := combineHashScalar (l ! (lsel ! 0)) (r ! (rsel ! i))])
                       result [0..<length rsel]
                else foldl (\<lambda>res i. res[resultSel ! i := combineHashScalar (l ! (lsel ! i)) (r ! (rsel ! 0))])
                       result [0..<length lsel]) }"

text \<open>
  \<open>BaseHashTable::computeVectorHashes\<close>: the hash vector takes the state of the first key, and the
  state of a later key when that key is unflat. The arrays start with zeros.
\<close>

definition combine_key ::
  "nat \<Rightarrow> (bool \<times> nat list) \<times> hash list \<Rightarrow> ht_val ValueVector \<Rightarrow> ((bool \<times> nat list) \<times> hash list) option" where
  "combine_key cap = (\<lambda>((flat, sel), hashes) key.
     (let tmp = UnaryHash_execute key (vsel key) (replicate cap 0);
          st = (if \<not> vflat key then (vflat key, vsel key) else (flat, sel))
      in do { res \<leftarrow> BinaryHash_execute hashes sel tmp (vsel key) (replicate cap 0) (snd st); Some (st, res) }))"

definition computeVectorHashes :: "nat \<Rightarrow> ht_val ValueVector list \<Rightarrow> ht_val ValueVector option" where
  "computeVectorHashes cap keys =
     do { ku_assert (keys \<noteq> []);
          let k = hd keys;
          ((flat, sel), hashes) \<leftarrow> foldM (combine_key cap)
            ((vflat k, vsel k), UnaryHash_execute k (vsel k) (replicate cap 0)) (tl keys);
          Some \<lparr>vflat = flat, vsel = sel, vvals = map (\<lambda>h. Some (HashVal h)) hashes, vbytes = 8\<rparr> }"

section \<open>The table\<close>

record JoinHashTable =
  maxNumHashSlots :: "64 word"
  numSlotsPerBlockLog2 :: nat
  hashSlotsBlocks :: "tuple_ptr option list list"
  factorizedTable :: "ht_val FactorizedTable"

fun floor_log2 :: "nat \<Rightarrow> nat" where
  "floor_log2 n = (if n < 2 then 0 else Suc (floor_log2 (n div 2)))"

declare floor_log2.simps [simp del]

definition new_JoinHashTable :: "nat \<Rightarrow> FactorizedTableSchema \<Rightarrow> JoinHashTable option" where
  "new_JoinHashTable pageSize s =
     do { t \<leftarrow> new_FactorizedTable pageSize s;
          Some \<lparr>maxNumHashSlots = 0, numSlotsPerBlockLog2 = floor_log2 (pageSize div 8), hashSlotsBlocks = [],
                factorizedTable = t\<rparr> }"

abbreviation hash_col :: "'v FactorizedTable \<Rightarrow> nat" where
  "hash_col t \<equiv> length (columns (tableSchema t)) - 2"

abbreviation prev_col :: "'v FactorizedTable \<Rightarrow> nat" where
  "prev_col t \<equiv> length (columns (tableSchema t)) - 1"

text \<open>\<open>appendVector\<close>: one column of all pieces.\<close>

definition appendVector ::
  "append_info list \<Rightarrow> 'v overflow_heap \<times> 'v FactorizedTable \<Rightarrow> nat \<times> 'v ValueVector \<Rightarrow> ('v overflow_heap \<times> 'v FactorizedTable) option" where
  "appendVector infos st = (\<lambda>(col, v).
     map_option fst (foldM (\<lambda>(st, numAppended) info.
         do { st' \<leftarrow> copyVectorToColumn v info numAppended col st; Some (st', numAppended + snd (snd info)) })
       (st, 0) infos))"

definition append_rows ::
  "nat \<Rightarrow> 'v ValueVector list \<Rightarrow> 'v overflow_heap \<times> 'v FactorizedTable \<Rightarrow> ('v overflow_heap \<times> 'v FactorizedTable) option" where
  "append_rows n vectors = (\<lambda>(heap, t).
     do { (c, infos) \<leftarrow> allocateFlatTupleBlocks (flatTupleBlockSize t) (length (columns (tableSchema t)))
            (flatTupleBlockCollection t) n;
          (heap', t') \<leftarrow> foldM (appendVector infos) (heap, t\<lparr>flatTupleBlockCollection := c\<rparr>) (enumerate 0 vectors);
          Some (heap', t'\<lparr>ft_numTuples := ft_numTuples t' + n\<rparr>) })"

definition appendVectors ::
  "nat \<Rightarrow> chunk_vector list \<Rightarrow> chunk_vector list \<Rightarrow> nat \<Rightarrow> chunk_state list \<times> ht_val overflow_heap \<times> JoinHashTable \<Rightarrow>
   (nat \<times> chunk_state list \<times> ht_val overflow_heap \<times> JoinHashTable) option" where
  "appendVectors cap keys payloads keyState = (\<lambda>(sts, heap, ht).
     do { (sts', nonempty) \<leftarrow> discardNullFromKeys cap sts keys;
          let n = selectedSize (csSel (sts' ! keyState));
          hv \<leftarrow> computeVectorHashes cap (map (as_vector cap sts') keys);
          (heap', t) \<leftarrow> append_rows n (map (as_vector cap sts') keys @ map (as_vector cap sts') payloads @ [hv])
            (heap, factorizedTable ht);
          Some (n, sts', heap', ht\<lparr>factorizedTable := t\<rparr>) })"

text \<open>
  \<open>appendVectorWithSorting\<close>. How \<open>std::sort\<close> orders positions of equal identifiers is not
  specified, so the sorting function is the parameter \<open>srt\<close>. The number of rows to append, one, is
  passed where the copying functions expect the number of rows already appended.
\<close>

definition id_at :: "chunk_vector \<Rightarrow> nat \<Rightarrow> nodeID" where
  "id_at v pos = (case cvVals v ! pos of Some (IdVal i) \<Rightarrow> i | _ \<Rightarrow> default_internalID)"

definition sortSelectedPos ::
  "nat \<Rightarrow> ((nat \<Rightarrow> nodeID) \<Rightarrow> nat list \<Rightarrow> nat list) \<Rightarrow> chunk_vector \<Rightarrow> SelectionVector \<Rightarrow> SelectionVector option" where
  "sortSelectedPos cap srt v sel =
     do { sel1 \<leftarrow> (if isUnfiltered cap sel then makeDynamic cap sel else Some sel);
          let n = selectedSize sel1;
          let buf = selectedPositionsBuffer sel1;
          Some (sel1\<lparr>selectedPositionsBuffer := srt (id_at v) (take n buf) @ drop n buf\<rparr>) }"

definition appendVectorWithSorting ::
  "nat \<Rightarrow> ((nat \<Rightarrow> nodeID) \<Rightarrow> nat list \<Rightarrow> nat list) \<Rightarrow> chunk_vector \<Rightarrow> chunk_vector list \<Rightarrow>
   chunk_state list \<times> ht_val overflow_heap \<times> JoinHashTable \<Rightarrow>
   (chunk_state list \<times> ht_val overflow_heap \<times> JoinHashTable) option" where
  "appendVectorWithSorting cap srt key payloads = (\<lambda>(sts, heap, ht).
     do { ku_assert (selectedSize (csSel (sts ! cvState key)) = 1);
          ku_assert (payloads \<noteq> []);
          let p = cvState (payloads ! 0);
          sel \<leftarrow> (if csFlat (sts ! p) then Some (csSel (sts ! p)) else sortSelectedPos cap srt (payloads ! 0) (csSel (sts ! p)));
          let sts1 = sts[p := (sts ! p)\<lparr>csSel := sel\<rparr>];
          let t = factorizedTable ht;
          (c, infos) \<leftarrow> allocateFlatTupleBlocks (flatTupleBlockSize t) (length (columns (tableSchema t)))
            (flatTupleBlockCollection t) 1;
          ku_assert (length infos = 1);
          hv \<leftarrow> computeVectorHashes cap [as_vector cap sts1 key];
          (heap', t') \<leftarrow> foldM (\<lambda>st (col, v). copyVectorToColumn v (infos ! 0) 1 col st)
            (heap, t\<lparr>flatTupleBlockCollection := c\<rparr>)
            (enumerate 0 (as_vector cap sts1 key # map (as_vector cap sts1) payloads @ [hv]));
          let sts2 = (if csFlat (sts1 ! p) then sts1
                      else sts1[p := (sts1 ! p)\<lparr>csSel := setToUnfiltered (csSel (sts1 ! p))\<rparr>]);
          Some (sts2, heap', ht\<lparr>factorizedTable := t'\<lparr>ft_numTuples := ft_numTuples t' + 1\<rparr>\<rparr>) })"

section \<open>Slots and chains\<close>

definition allocateHashSlots :: "64 word \<Rightarrow> JoinHashTable \<Rightarrow> JoinHashTable" where
  "allocateHashSlots n ht =
     (let mx = nextPowerOfTwo (n * 2);
          perBlock = push_bit (numSlotsPerBlockLog2 ht) 1 :: 64 word;
          needed = unat ((mx + perBlock - 1) div perBlock)
      in ht\<lparr>maxNumHashSlots := mx,
            hashSlotsBlocks := hashSlotsBlocks ht @
              replicate (needed - length (hashSlotsBlocks ht)) (replicate (2 ^ numSlotsPerBlockLog2 ht) None)\<rparr>)"

text \<open>The modulus by zero has no result.\<close>

definition getSlotIdxForHash :: "JoinHashTable \<Rightarrow> hash \<Rightarrow> nat option" where
  "getSlotIdxForHash ht h =
     do { ku_assert (maxNumHashSlots ht \<noteq> 0); Some (unat (h mod maxNumHashSlots ht)) }"

definition slot_pos :: "JoinHashTable \<Rightarrow> nat \<Rightarrow> (nat \<times> nat) option" where
  "slot_pos ht idx =
     (let b = drop_bit (numSlotsPerBlockLog2 ht) idx; k = take_bit (numSlotsPerBlockLog2 ht) idx
      in do { ku_assert (b < length (hashSlotsBlocks ht) \<and> k < length (hashSlotsBlocks ht ! b)); Some (b, k) })"

definition row_hash :: "'v FactorizedTable \<Rightarrow> ht_val row \<Rightarrow> hash option" where
  "row_hash t r = (case fst r ! hash_col t of Value (HashVal h) \<Rightarrow> Some h | _ \<Rightarrow> None)"

definition findHashSlot :: "JoinHashTable \<Rightarrow> tuple_ptr \<Rightarrow> (nat \<times> nat) option" where
  "findHashSlot ht p =
     do { r \<leftarrow> row_at (flatTupleBlockCollection (factorizedTable ht)) p;
          h \<leftarrow> row_hash (factorizedTable ht) r;
          idx \<leftarrow> getSlotIdxForHash ht h;
          slot_pos ht idx }"

definition insertEntry :: "JoinHashTable \<Rightarrow> tuple_ptr \<Rightarrow> (JoinHashTable \<times> tuple_ptr option) option" where
  "insertEntry ht p =
     do { (b, k) \<leftarrow> findHashSlot ht p;
          Some (ht\<lparr>hashSlotsBlocks := (hashSlotsBlocks ht)[b := (hashSlotsBlocks ht ! b)[k := Some p]]\<rparr>,
                hashSlotsBlocks ht ! b ! k) }"

definition link_entry :: "JoinHashTable \<Rightarrow> tuple_ptr \<Rightarrow> JoinHashTable option" where
  "link_entry ht p =
     do { (ht', prev) \<leftarrow> insertEntry ht p;
          let t = factorizedTable ht';
          Some (ht'\<lparr>factorizedTable := t\<lparr>flatTupleBlockCollection :=
             set_row p (\<lambda>r. ((fst r)[prev_col t := PrevPtr prev], snd r)) (flatTupleBlockCollection t)\<rparr>\<rparr>) }"

definition block_ptrs :: "'v DataBlockCollection \<Rightarrow> tuple_ptr list" where
  "block_ptrs c = concat (map (\<lambda>b. map (\<lambda>k. (b, k)) [0..<numTuples (blocks c ! b)]) [0..<length (blocks c)])"

definition buildHashSlots :: "JoinHashTable \<Rightarrow> JoinHashTable option" where
  "buildHashSlots ht = foldM link_entry ht (block_ptrs (flatTupleBlockCollection (factorizedTable ht)))"

text \<open>Zeroed memory is the null pointer.\<close>

definition getPrevTuple :: "JoinHashTable \<Rightarrow> tuple_ptr \<Rightarrow> tuple_ptr option option" where
  "getPrevTuple ht p =
     do { r \<leftarrow> row_at (flatTupleBlockCollection (factorizedTable ht)) p;
          case fst r ! prev_col (factorizedTable ht) of PrevPtr q \<Rightarrow> Some q | Zeroed \<Rightarrow> Some None | _ \<Rightarrow> None }"

definition getTupleForHash :: "JoinHashTable \<Rightarrow> hash \<Rightarrow> tuple_ptr option option" where
  "getTupleForHash ht h =
     do { idx \<leftarrow> getSlotIdxForHash ht h;
          ku_assert (idx < unat (maxNumHashSlots ht));
          (b, k) \<leftarrow> slot_pos ht idx;
          Some (hashSlotsBlocks ht ! b ! k) }"

definition merge_hash_tables :: "JoinHashTable \<Rightarrow> JoinHashTable \<Rightarrow> JoinHashTable option" where
  "merge_hash_tables ht other =
     do { t \<leftarrow> merge_tables (factorizedTable ht) (factorizedTable other); Some (ht\<lparr>factorizedTable := t\<rparr>) }"

definition finalizeInternal :: "JoinHashTable \<Rightarrow> JoinHashTable option" where
  "finalizeInternal ht = buildHashSlots (allocateHashSlots (of_nat (ft_numTuples (factorizedTable ht))) ht)"

section \<open>Probing\<close>

definition probe_key ::
  "nat \<Rightarrow> SelectionVector \<times> hash list \<times> hash list \<Rightarrow> ht_val ValueVector \<Rightarrow> (SelectionVector \<times> hash list \<times> hash list) option" where
  "probe_key cap = (\<lambda>(hashSel, hashes, tmp) key.
     do { hashSel' \<leftarrow> setSelSize (length (vsel key)) hashSel;
          let pos = getSelectedPositions cap hashSel';
          let tmp' = UnaryHash_execute key pos tmp;
          hashes' \<leftarrow> BinaryHash_execute hashes pos tmp' pos hashes pos;
          Some (hashSel', hashes', tmp') })"

text \<open>
  \<open>probe\<close> on the hash vector, its selection, the temporary hash vector and the array of probed
  tuples; without entries or keys it leaves all of them alone.
\<close>

definition probe ::
  "nat \<Rightarrow> nat \<Rightarrow> JoinHashTable \<Rightarrow> chunk_vector list \<Rightarrow> hash list \<Rightarrow> SelectionVector \<Rightarrow> hash list \<Rightarrow> tuple_ptr option list \<Rightarrow>
   chunk_state list \<Rightarrow> (chunk_state list \<times> hash list \<times> SelectionVector \<times> tuple_ptr option list) option" where
  "probe cap numKeys ht keys hashes hashSel tmp probed sts =
     do { ku_assert (length keys = numKeys);
          if ft_numTuples (factorizedTable ht) = 0 then Some (sts, hashes, hashSel, probed)
          else do { (sts', nonempty) \<leftarrow> discardNullFromKeys cap sts keys;
                    if \<not> nonempty then Some (sts', hashes, hashSel, probed)
                    else do { ku_assert (keys \<noteq> []);
                              let ks = map (as_vector cap sts') keys;
                              hashSel1 \<leftarrow> setSelSize (length (vsel (hd ks))) hashSel;
                              let hashes1 = UnaryHash_execute (hd ks) (getSelectedPositions cap hashSel1) hashes;
                              (hashSel2, hashes2, tmp2) \<leftarrow> foldM (probe_key cap) (hashSel1, hashes1, tmp) (tl ks);
                              probed' \<leftarrow> foldM (\<lambda>pr i. do { ku_assert (i < cap);
                                   pos \<leftarrow> sel_at cap hashSel2 i;
                                   p \<leftarrow> getTupleForHash ht (hashes2 ! pos);
                                   Some (pr[i := p]) }) probed [0..<selectedSize hashSel2];
                              Some (sts', hashes2, hashSel2, probed') } } }"

text \<open>\<open>compareEntry\<close>: the value of the key is compared with the stored one; a cell without a value cannot be read.\<close>

definition compareEntry :: "ht_val \<Rightarrow> ht_val cell \<Rightarrow> bool option" where
  "compareEntry x c = (case c of Value y \<Rightarrow> Some (x = y) | _ \<Rightarrow> None)"

fun match_keys :: "'v FactorizedTable \<Rightarrow> ht_val row \<Rightarrow> nat \<Rightarrow> ht_val ValueVector list \<Rightarrow> bool option" where
  "match_keys t r i [] = Some True"
| "match_keys t r i (k # ks) =
     do { ku_assert (vflat k);
          ku_assert (length (vsel k) = 1);
          let key = vvals k ! (vsel k ! 0);
          let entryNull = (mayContainNulls (columns (tableSchema t) ! i) \<and> snd r ! i);
          (case key of
             None \<Rightarrow> if entryNull then match_keys t r (Suc i) ks else Some False
           | Some x \<Rightarrow> if entryNull then Some False
                       else do { eq \<leftarrow> compareEntry x (fst r ! i);
                                 if eq then match_keys t r (Suc i) ks else Some False }) }"

definition matchFlatVecWithEntry :: "JoinHashTable \<Rightarrow> ht_val ValueVector list \<Rightarrow> tuple_ptr \<Rightarrow> bool option" where
  "matchFlatVecWithEntry ht keys p =
     do { r \<leftarrow> row_at (flatTupleBlockCollection (factorizedTable ht)) p; match_keys (factorizedTable ht) r 0 keys }"

partial_function (option) matchFlatKeys ::
  "nat \<Rightarrow> JoinHashTable \<Rightarrow> ht_val ValueVector list \<Rightarrow> tuple_ptr option \<Rightarrow> tuple_ptr list \<Rightarrow> (tuple_ptr list \<times> tuple_ptr option) option" where
  "matchFlatKeys cap ht keys probed matched =
     (case probed of
        None \<Rightarrow> Some (matched, None)
      | Some cur \<Rightarrow>
          if length matched = cap then Some (matched, probed)
          else Option.bind (matchFlatVecWithEntry ht keys cur) (\<lambda>m.
               Option.bind (getPrevTuple ht cur) (\<lambda>q.
                 matchFlatKeys cap ht keys q (if m then matched @ [cur] else matched))))"

declare matchFlatKeys.simps [code]

partial_function (option) first_match ::
  "JoinHashTable \<Rightarrow> ht_val \<Rightarrow> tuple_ptr option \<Rightarrow> tuple_ptr option option" where
  "first_match ht x probed =
     (case probed of
        None \<Rightarrow> Some None
      | Some cur \<Rightarrow>
          Option.bind (row_at (flatTupleBlockCollection (factorizedTable ht)) cur) (\<lambda>r.
          Option.bind (compareEntry x (fst r ! 0)) (\<lambda>eq.
            if eq then Some (Some cur) else Option.bind (getPrevTuple ht cur) (first_match ht x))))"

declare first_match.simps [code]

text \<open>\<open>matchUnFlatKey\<close>: per selected key the first match, with the position of the key.\<close>

definition matchUnFlatKey ::
  "JoinHashTable \<Rightarrow> ht_val ValueVector \<Rightarrow> tuple_ptr option list \<Rightarrow> (tuple_ptr list \<times> nat list \<times> tuple_ptr option list) option" where
  "matchUnFlatKey ht key probed =
     foldM (\<lambda>(matched, sel, probed) i.
         let pos = vsel key ! i in
         case vvals key ! pos of
           None \<Rightarrow> None
         | Some x \<Rightarrow> do { p \<leftarrow> first_match ht x (probed ! i);
                          Some (case p of None \<Rightarrow> (matched, sel, probed[i := None])
                                        | Some cur \<Rightarrow> (matched @ [cur], sel @ [pos], probed[i := Some cur])) })
       ([], [], probed) [0..<length (vsel key)]"

end
