(* ===== verification/JoinChains.thy ===== *)
theory JoinChains
  imports JoinHashTable
begin

text \<open>
  Correctness of the join hash table: after \<open>allocateHashSlots\<close> and \<open>buildHashSlots\<close>, the chain that
  starts at the slot of a hash visits exactly the rows whose hash falls into the slot, the row
  inserted last first. The interface \<open>chained_table\<close> is what the clients that walk the chains rely on.
\<close>

section \<open>Chains\<close>

fun chain :: "('p \<Rightarrow> 'p option option) \<Rightarrow> 'p option \<Rightarrow> 'p list \<Rightarrow> bool" where
  "chain prev p [] \<longleftrightarrow> p = None"
| "chain prev p (x # xs) \<longleftrightarrow> p = Some x \<and> (\<exists>q. prev x = Some q \<and> chain prev q xs)"

lemma chain_cong: "chain prev p xs \<Longrightarrow> (\<And>x. x \<in> set xs \<Longrightarrow> prev' x = prev x) \<Longrightarrow> chain prev' p xs"
  by (induction xs arbitrary: p) auto

text \<open>
  The interface of a built table: from the first tuple of a hash, following the previous tuples
  visits the bucket of the hash.
\<close>

locale chained_table =
  fixes built :: "'t \<Rightarrow> bool"
    and first_tuple :: "'t \<Rightarrow> 'h \<Rightarrow> 'p option option"
    and prev_tuple :: "'t \<Rightarrow> 'p \<Rightarrow> 'p option option"
    and bucket :: "'t \<Rightarrow> 'h \<Rightarrow> 'p list"
  assumes first: "built t \<Longrightarrow> \<exists>p. first_tuple t h = Some p \<and> chain (prev_tuple t) p (bucket t h)"
begin

text \<open>
  A loop over the chain whose body may fail nowhere on the bucket is a fold over the bucket.
\<close>

lemma walk:
  assumes loop: "\<And>p s. run p s = (case p of None \<Rightarrow> Some s
      | Some x \<Rightarrow> Option.bind (body x s) (\<lambda>s'. Option.bind (prev_tuple t x) (\<lambda>q. run q s')))"
    and body: "\<And>x s. x \<in> set (bucket t h) \<Longrightarrow> body x s = Some (f x s)"
    and built: "built t"
  shows "\<exists>p. first_tuple t h = Some p \<and> run p s = Some (fold f (bucket t h) s)"
proof -
  have "run p s = Some (fold f xs s)" if "chain (prev_tuple t) p xs" "set xs \<subseteq> set (bucket t h)" for xs p s
    using that by (induction xs arbitrary: p s) (auto simp: loop[of "Some _"] loop[of None] body)
  with first[OF built, of h] show ?thesis by blast
qed

end

section \<open>Addresses\<close>

lemma concat_ptrs:
  assumes "\<forall>m\<in>set ms. m = (N::nat)" "n \<le> N" "0 < N"
  shows "concat (map (\<lambda>b. map (Pair b) [0..<(ms @ [n]) ! b]) [0..<Suc (length ms)]) =
    map (\<lambda>i. (i div N, i mod N)) [0..<N * length ms + n]"
  using assms(1,2)
proof (induction ms arbitrary: n rule: rev_induct)
  case Nil
  then show ?case using assms(3) by (cases "n = N") (auto simp: upt_rec[of 0 N])
next
  case (snoc m ms)
  have m: "m = N" using snoc.prems by simp
  have eq: "map (\<lambda>b. map (Pair b) [0..<((ms @ [m]) @ [n]) ! b]) [0..<Suc (length ms)] =
      map (\<lambda>b. map (Pair b) [0..<(ms @ [m]) ! b]) [0..<Suc (length ms)]"
    by (rule map_cong[OF refl]) (auto simp: nth_append less_Suc_eq)
  have up: "[0..<Suc (length (ms @ [m]))] = [0..<Suc (length ms)] @ [Suc (length ms)]" by simp
  have nth: "((ms @ [m]) @ [n]) ! Suc (length ms) = n" by (simp add: nth_append)
  have "concat (map (\<lambda>b. map (Pair b) [0..<((ms @ [m]) @ [n]) ! b]) [0..<Suc (length (ms @ [m]))]) =
    concat (map (\<lambda>b. map (Pair b) [0..<(ms @ [m]) ! b]) [0..<Suc (length ms)]) @ map (Pair (Suc (length ms))) [0..<n]"
    unfolding up map_append concat_append eq by (simp only: list.map concat.simps append_Nil2 nth)
  also have "concat (map (\<lambda>b. map (Pair b) [0..<(ms @ [m]) ! b]) [0..<Suc (length ms)]) =
      map (\<lambda>i. (i div N, i mod N)) [0..<N * length ms + m]"
  proof (rule snoc.IH)
    show "\<forall>m\<in>set ms. m = N" using snoc.prems(1) by auto
    show "m \<le> N" using m by simp
  qed
  also have "map (Pair (Suc (length ms))) [0..<n] =
      map (\<lambda>i. (i div N, i mod N)) [N * length ms + m..<N * length ms + m + n]"
  proof (rule nth_equalityI)
    fix i assume "i < length (map (Pair (Suc (length ms))) [0..<n])"
    then have i: "i < n" "i < N \<or> i = N" using snoc.prems(2) by auto
    then have iN: "i < N" using snoc.prems(2) by simp
    have dm: "(i + k * N) div N = k \<and> (i + k * N) mod N = i" for k using iN by simp
    have eq: "N * length ms + m + i = i + Suc (length ms) * N" using m by simp
    have "(N * length ms + m + i) div N = Suc (length ms)" "(N * length ms + m + i) mod N = i"
      unfolding eq using dm[of "Suc (length ms)"] by blast+
    with i show "map (Pair (Suc (length ms))) [0..<n] ! i =
      map (\<lambda>i. (i div N, i mod N)) [N * length ms + m..<N * length ms + m + n] ! i" by simp
  qed simp
  also have "map (\<lambda>i. (i div N, i mod N)) [0..<N * length ms + m] @
      map (\<lambda>i. (i div N, i mod N)) [N * length ms + m..<N * length ms + m + n] =
      map (\<lambda>i. (i div N, i mod N)) [0..<N * length ms + m + n]"
    by (simp only: map_append [symmetric] upt_add_eq_append [OF le0, symmetric])
  finally show ?case using m by (simp add: algebra_simps)
qed

lemma block_ptrs_rows:
  assumes "blocks_ok sz c"
  shows "block_ptrs c = map (getBlockIdxAndTupleIdxInBlock c) [0..<length (rows c)]"
proof (cases "blocks c" rule: rev_cases)
  case Nil
  then show ?thesis by (simp add: block_ptrs_def rows_def)
next
  case (snoc bs b)
  let ?N = "numTuplesPerBlock c" and ?ms = "map numTuples bs"
  have full: "\<forall>m\<in>set ?ms. m = ?N" using assms snoc unfolding blocks_ok_def by (auto simp: list_all_iff)
  have blk: "block_ok sz (blk_numBytesPerTuple c) ?N x" if "x \<in> set (blocks c)" for x
    using blocks_okD[OF assms that] .
  have b: "numTuples b \<le> ?N" using blk[of b] snoc by (auto simp: block_ok_def)
  have len: "length (block_rows x) = numTuples x" if "x \<in> set (blocks c)" for x
    using blk[OF that] by (auto simp: block_ok_def block_rows_def)
  have "sum_list (map (length \<circ> block_rows) bs) = sum_list ?ms" using len snoc by (intro arg_cong[of _ _ sum_list]) auto
  moreover have "sum_list ?ms = ?N * length bs"
    using full by (induction bs) auto
  ultimately have lr: "length (rows c) = ?N * length bs + numTuples b"
    using len[of b] snoc by (simp add: rows_def length_concat)
  have nth: "numTuples (blocks c ! i) = (?ms @ [numTuples b]) ! i" if "i < Suc (length bs)" for i
    using that snoc by (auto simp: nth_append less_Suc_eq)
  have len_ptrs: "length (blocks c) = Suc (length ?ms)" using snoc by simp
  have "block_ptrs c = concat (map (\<lambda>b'. map (Pair b') [0..<(?ms @ [numTuples b]) ! b']) [0..<Suc (length ?ms)])"
    unfolding block_ptrs_def len_ptrs[symmetric] by (rule arg_cong[OF map_cong[OF refl]]) (simp only: set_upt atLeastLessThan_iff nth len_ptrs length_map)
  also have "\<dots> = map (\<lambda>i. (i div ?N, i mod ?N)) [0..<?N * length ?ms + numTuples b]"
    by (rule concat_ptrs[OF full b perBlock_pos[OF assms]])
  finally show ?thesis using lr by (simp add: getBlockIdxAndTupleIdxInBlock_def)
qed

lemma ptr_inj: "getBlockIdxAndTupleIdxInBlock c i = getBlockIdxAndTupleIdxInBlock c j \<longleftrightarrow> i = j"
proof -
  have "i = j" if "i div n = j div n" "i mod n = j mod n" for n
  proof -
    have "i = i div n * n + i mod n" by (rule div_mult_mod_eq[symmetric])
    also have "\<dots> = j" unfolding that by (rule div_mult_mod_eq)
    finally show ?thesis .
  qed
  then show ?thesis by (auto simp: getBlockIdxAndTupleIdxInBlock_def)
qed

section \<open>Slots\<close>

definition slots_ok :: "JoinHashTable \<Rightarrow> bool" where
  "slots_ok ht \<longleftrightarrow> maxNumHashSlots ht \<noteq> 0 \<and>
     unat (maxNumHashSlots ht) \<le> length (hashSlotsBlocks ht) * 2 ^ numSlotsPerBlockLog2 ht \<and>
     (\<forall>b\<in>set (hashSlotsBlocks ht). length b = 2 ^ numSlotsPerBlockLog2 ht)"

definition slot :: "JoinHashTable \<Rightarrow> nat \<Rightarrow> tuple_ptr option" where
  "slot ht idx = hashSlotsBlocks ht ! (idx div 2 ^ numSlotsPerBlockLog2 ht) ! (idx mod 2 ^ numSlotsPerBlockLog2 ht)"

lemma slot_pos_ok:
  assumes "slots_ok ht" "idx < unat (maxNumHashSlots ht)"
  shows "slot_pos ht idx = Some (idx div 2 ^ numSlotsPerBlockLog2 ht, idx mod 2 ^ numSlotsPerBlockLog2 ht)"
    and "idx div 2 ^ numSlotsPerBlockLog2 ht < length (hashSlotsBlocks ht)"
proof -
  have "idx < length (hashSlotsBlocks ht) * 2 ^ numSlotsPerBlockLog2 ht" using assms by (simp add: slots_ok_def)
  then show b: "idx div 2 ^ numSlotsPerBlockLog2 ht < length (hashSlotsBlocks ht)" by (simp add: less_mult_imp_div_less)
  then have "length (hashSlotsBlocks ht ! (idx div 2 ^ numSlotsPerBlockLog2 ht)) = 2 ^ numSlotsPerBlockLog2 ht"
    using assms(1) by (simp add: slots_ok_def)
  with b show "slot_pos ht idx = Some (idx div 2 ^ numSlotsPerBlockLog2 ht, idx mod 2 ^ numSlotsPerBlockLog2 ht)"
    by (simp add: slot_pos_def drop_bit_eq_div take_bit_eq_mod)
qed

lemma slot_idx_less: "maxNumHashSlots ht \<noteq> 0 \<Longrightarrow> unat (h mod maxNumHashSlots ht) < unat (maxNumHashSlots ht)"
  by (simp add: unat_mod_distrib unat_gt_0)

lemma getTupleForHash_slot:
  assumes "slots_ok ht"
  shows "getTupleForHash ht h = Some (slot ht (unat (h mod maxNumHashSlots ht)))"
proof -
  have m: "maxNumHashSlots ht \<noteq> 0" using assms by (simp add: slots_ok_def)
  show ?thesis using slot_pos_ok[OF assms slot_idx_less[OF m, of h]] slot_idx_less[OF m, of h] m
    by (simp add: getTupleForHash_def getSlotIdxForHash_def slot_def)
qed

lemma allocateHashSlots_ok:
  assumes "hashSlotsBlocks ht = []" "numSlotsPerBlockLog2 ht < 63" "n \<noteq> 0" "unat n < 2 ^ 62"
  defines "ht' \<equiv> allocateHashSlots n ht"
  shows "slots_ok ht'" "factorizedTable ht' = factorizedTable ht"
    and "idx < unat (maxNumHashSlots ht') \<Longrightarrow> slot ht' idx = None"
proof -
  let ?l = "numSlotsPerBlockLog2 ht" and ?mx = "nextPowerOfTwo (n * 2)" and ?per = "push_bit (numSlotsPerBlockLog2 ht) 1 :: 64 word"
  have n2: "unat (n * 2) = unat n * 2" using assms(4) by (simp add: unat_word_ariths)
  have "n * 2 \<noteq> 0" using n2 assms(3) by (metis mult_is_0 unat_eq_zero unat_0 zero_neq_numeral)
  moreover have "n * 2 \<le> 2 ^ 63" using n2 assms(4) by (simp add: word_le_nat_alt)
  ultimately obtain k where k: "k < 64" "?mx = 2 ^ k" "\<forall>j. unat (n * 2) \<le> 2 ^ j \<longrightarrow> k \<le> j"
    using nextPowerOfTwo_least_power[of "n * 2"] by blast
  have k63: "k \<le> 63" using k(1) by simp
  have mx: "unat ?mx = 2 ^ k" using k by (simp add: unat_pow2)
  have per: "unat ?per = 2 ^ ?l" using assms(2) by (simp add: push_bit_eq_mult unat_pow2)
  have le: "(2::nat) ^ k \<le> 2 ^ 63" "(2::nat) ^ ?l \<le> 2 ^ 62" 
    using k63 assms(2) by (intro power_increasing; simp)+
  have sum: "unat (?mx + ?per - 1) = 2 ^ k + 2 ^ ?l - 1"
  proof -
    have "unat (?mx + ?per) = 2 ^ k + 2 ^ ?l" using mx per le by (simp add: unat_word_ariths)
    moreover have "?mx + ?per \<noteq> 0" using calculation by (metis add_is_0 power_eq_0_iff unat_0 zero_neq_numeral)
    ultimately show ?thesis by (simp add: unat_minus_one)
  qed
  let ?need = "unat ((?mx + ?per - 1) div ?per)"
  have need: "?need = (2 ^ k + 2 ^ ?l - 1) div 2 ^ ?l" by (simp only: unat_div_distrib sum per)
  have ceil: "a \<le> (a + b - 1) div b * b" if "0 < b" for a b :: nat
  proof -
    have "(a + b - 1) mod b \<le> b - 1" using that by (simp add: less_Suc_eq_le[symmetric])
    moreover have "(a + b - 1) div b * b + (a + b - 1) mod b = a + b - 1" by (rule div_mult_mod_eq)
    ultimately show ?thesis using that by linarith
  qed
  have "2 ^ k \<le> ?need * 2 ^ ?l" unfolding need by (rule ceil) simp
  moreover have blks: "hashSlotsBlocks ht' = replicate ?need (replicate (2 ^ ?l) None)"
    and rest: "maxNumHashSlots ht' = ?mx" "numSlotsPerBlockLog2 ht' = ?l" "factorizedTable ht' = factorizedTable ht"
    by (simp_all add: ht'_def allocateHashSlots_def assms(1) Let_def)
  ultimately show ok: "slots_ok ht'" using mx k63 by (auto simp: slots_ok_def rest unat_eq_zero[symmetric])
  show "factorizedTable ht' = factorizedTable ht" by (rule rest)
  show "slot ht' idx = None" if "idx < unat (maxNumHashSlots ht')"
    using slot_pos_ok(2)[OF ok that] by (simp add: slot_def blks rest)
qed

section \<open>Building the chains\<close>

lemma foldM_map: "foldM f s (map g xs) = foldM (\<lambda>s x. f s (g x)) s xs"
  by (induction xs arbitrary: s) (auto split: Option.bind_splits)

text \<open>Every row has all its cells and a hash.\<close>

definition hashed :: "JoinHashTable \<Rightarrow> bool" where
  "hashed ht \<longleftrightarrow> merged_ok (factorizedTable ht) \<and> 2 \<le> length (columns (tableSchema (factorizedTable ht))) \<and>
     (\<forall>r\<in>set (trows (factorizedTable ht)). length (fst r) = length (columns (tableSchema (factorizedTable ht))) \<and>
        row_hash (factorizedTable ht) r \<noteq> None)"

definition slot_index :: "JoinHashTable \<Rightarrow> nat \<Rightarrow> nat" where
  "slot_index ht i = unat (the (row_hash (factorizedTable ht) (trows (factorizedTable ht) ! i)) mod maxNumHashSlots ht)"

text \<open>The rows before row \<open>i\<close> that fall into a slot, the last one first.\<close>

definition slot_rows :: "(nat \<Rightarrow> nat) \<Rightarrow> nat \<Rightarrow> nat \<Rightarrow> nat list" where
  "slot_rows sl i idx = rev (filter (\<lambda>j. sl j = idx) [0..<i])"

definition head_ptr :: "(nat \<Rightarrow> 'p) \<Rightarrow> nat list \<Rightarrow> 'p option" where
  "head_ptr P js = (case js of [] \<Rightarrow> None | j # _ \<Rightarrow> Some (P j))"

lemma slot_rows_simps [simp]:
  "slot_rows sl 0 idx = []"
  "slot_rows sl (Suc i) idx = (if sl i = idx then i # slot_rows sl i idx else slot_rows sl i idx)"
  by (auto simp: slot_rows_def)

lemma set_slot_rows: "j \<in> set (slot_rows sl i idx) \<longleftrightarrow> j < i \<and> sl j = idx"
  by (auto simp: slot_rows_def)

lemma chain_slot_rows:
  assumes "\<And>j. j < n \<Longrightarrow> prev (P j) = Some (head_ptr P (slot_rows sl j (sl j)))" "i \<le> n"
  shows "chain prev (head_ptr P (slot_rows sl i idx)) (map P (slot_rows sl i idx))"
  using assms(2) by (induction i) (auto simp: head_ptr_def assms(1))

text \<open>The state after linking the first \<open>i\<close> rows of the table \<open>ht0\<close>.\<close>

definition linked :: "JoinHashTable \<Rightarrow> nat \<Rightarrow> JoinHashTable \<Rightarrow> bool" where
  "linked ht0 i ht \<longleftrightarrow>
     (let t0 = factorizedTable ht0; t = factorizedTable ht; P = tptr t0; sl = slot_index ht0 in
      same_shape t0 t \<and> tableSchema t = tableSchema t0 \<and> unFlatTupleBlocks t = unFlatTupleBlocks t0 \<and>
      maxNumHashSlots ht = maxNumHashSlots ht0 \<and> numSlotsPerBlockLog2 ht = numSlotsPerBlockLog2 ht0 \<and> slots_ok ht \<and>
      trows t = map (\<lambda>j. if j < i then ((fst (trows t0 ! j))[prev_col t0 := PrevPtr (head_ptr P (slot_rows sl j (sl j)))], snd (trows t0 ! j))
                         else trows t0 ! j) [0..<length (trows t0)] \<and>
      (\<forall>idx < unat (maxNumHashSlots ht0). slot ht idx = head_ptr P (slot_rows sl i idx)))"

lemma slot_update:
  fixes p :: "tuple_ptr option"
  assumes "slots_ok ht" "idx < unat (maxNumHashSlots ht)" "idx' < unat (maxNumHashSlots ht)"
  defines "ht' \<equiv> ht\<lparr>hashSlotsBlocks := (hashSlotsBlocks ht)[idx div 2 ^ numSlotsPerBlockLog2 ht :=
      (hashSlotsBlocks ht ! (idx div 2 ^ numSlotsPerBlockLog2 ht))[idx mod 2 ^ numSlotsPerBlockLog2 ht := p]]\<rparr>"
  shows "slots_ok ht'" "slot ht' idx' = (if idx' = idx then p else slot ht idx')"
proof -
  let ?L = "2 ^ numSlotsPerBlockLog2 ht" and ?bs = "hashSlotsBlocks ht"
  have b: "idx div ?L < length ?bs" "idx' div ?L < length ?bs" using assms slot_pos_ok(2) by blast+
  have len: "\<forall>b\<in>set ?bs. length b = ?L" using assms(1) by (simp add: slots_ok_def)
  then have lb: "length (?bs ! (idx div ?L)) = ?L" using b by simp
  have "length b = ?L" if "b \<in> set (?bs[idx div ?L := (?bs ! (idx div ?L))[idx mod ?L := p]])" for b
    using that set_update_subset_insert[of ?bs "idx div ?L"] len lb by fastforce
  then show "slots_ok ht'" using assms(1) by (simp add: slots_ok_def ht'_def)
  have "idx' = idx" if "idx' div ?L = idx div ?L" "idx' mod ?L = idx mod ?L"
  proof -
    have "idx' = idx' div ?L * ?L + idx' mod ?L" by (rule div_mult_mod_eq[symmetric])
    also have "\<dots> = idx" unfolding that by (rule div_mult_mod_eq)
    finally show ?thesis .
  qed
  then show "slot ht' idx' = (if idx' = idx then p else slot ht idx')"
    using b lb by (auto simp: slot_def ht'_def nth_update_if)
qed

lemma link_entry_ok:
  assumes h: "hashed ht0" and l: "linked ht0 i ht" and i: "i < length (trows (factorizedTable ht0))"
  shows "\<exists>ht'. link_entry ht (tptr (factorizedTable ht0) i) = Some ht' \<and> linked ht0 (Suc i) ht'"
proof -
  let ?u = "factorizedTable ht0" and ?t = "factorizedTable ht" and ?P = "tptr (factorizedTable ht0)" and ?sl = "slot_index ht0"
  let ?L = "2 ^ numSlotsPerBlockLog2 ht"
  note L = l[unfolded linked_def Let_def]
  have shape: "same_shape ?u ?t" "tableSchema ?t = tableSchema ?u" and ok: "slots_ok ht"
    and mx: "maxNumHashSlots ht = maxNumHashSlots ht0"
    and slots: "\<And>idx. idx < unat (maxNumHashSlots ht0) \<Longrightarrow> slot ht idx = head_ptr ?P (slot_rows ?sl i idx)"
    using L by blast+
  have rows: "trows ?t = map (\<lambda>j. if j < i then ((fst (trows ?u ! j))[prev_col ?u := PrevPtr (head_ptr ?P (slot_rows ?sl j (?sl j)))], snd (trows ?u ! j))
      else trows ?u ! j) [0..<length (trows ?u)]" using L by blast
  have blk: "blocks_ok (flatTupleBlockSize ?t) (flatTupleBlockCollection ?t)" and len: "length (trows ?t) = length (trows ?u)"
    using shape(1) rows by (auto simp: same_shape_def)
  have ptr: "?P i = tptr ?t i" using same_shape_ptr[OF shape(1)] by simp
  have at: "row_at (flatTupleBlockCollection ?t) (?P i) = Some (trows ?u ! i)"
    unfolding ptr using row_at_block_idx[OF blk, of i] i len rows by simp
  obtain hv where hv: "row_hash ?u (trows ?u ! i) = Some hv" using h i by (fastforce simp: hashed_def)
  have rh: "row_hash ?t (trows ?u ! i) = Some hv" using hv shape(2) by (simp add: row_hash_def)
  have m0: "maxNumHashSlots ht \<noteq> 0" using ok by (simp add: slots_ok_def)
  let ?idx = "unat (hv mod maxNumHashSlots ht)"
  have sl: "?sl i = ?idx" using hv mx by (simp add: slot_index_def)
  have idx: "?idx < unat (maxNumHashSlots ht)" by (rule slot_idx_less[OF m0])
  let ?hw = "ht\<lparr>hashSlotsBlocks := (hashSlotsBlocks ht)[?idx div ?L := (hashSlotsBlocks ht ! (?idx div ?L))[?idx mod ?L := Some (?P i)]]\<rparr>"
  have ins: "insertEntry ht (?P i) = Some (?hw, slot ht ?idx)"
    using at rh slot_pos_ok(1)[OF ok idx] m0 by (simp add: insertEntry_def findHashSlot_def getSlotIdxForHash_def slot_def)
  let ?f = "\<lambda>r. ((fst r)[prev_col ?u := PrevPtr (slot ht ?idx)], snd r)"
  let ?w = "?t\<lparr>flatTupleBlockCollection := set_row (?P i) ?f (flatTupleBlockCollection ?t)\<rparr>"
  have lk: "link_entry ht (?P i) = Some (?hw\<lparr>factorizedTable := ?w\<rparr>)"
    using ins shape(2) by (simp add: link_entry_def Let_def)
  have sch: "schema_ok (tableSchema ?t)" using shape(1) by (simp add: same_shape_def)
  have i': "i < length (trows ?t)" using i len by simp
  have upd: "same_shape ?t ?w" "trows ?w = (trows ?t)[i := ?f (trows ?t ! i)]"
    using write_overflow_ok[of ?f, OF _ blk sch i'] unfolding ptr by simp_all
  have ti: "trows ?t ! i = trows ?u ! i" using rows i by simp
  have r1: "trows ?w = map (\<lambda>j. if j < Suc i then ((fst (trows ?u ! j))[prev_col ?u := PrevPtr (head_ptr ?P (slot_rows ?sl j (?sl j)))], snd (trows ?u ! j))
      else trows ?u ! j) [0..<length (trows ?u)]"
    unfolding upd(2) ti using i rows slots[of ?idx] idx mx sl by (intro nth_equalityI) (auto simp: nth_update_if less_Suc_eq)
  have sl1: "slot (?hw\<lparr>factorizedTable := ?w\<rparr>) idx' = head_ptr ?P (slot_rows ?sl (Suc i) idx')"
    if "idx' < unat (maxNumHashSlots ht0)" for idx'
    using slot_update(2)[OF ok idx, of idx' "Some (?P i)"] that slots[OF that] mx sl
    by (auto simp: slot_def head_ptr_def)
  have ok1: "slots_ok (?hw\<lparr>factorizedTable := ?w\<rparr>)"
    using slot_update(1)[OF ok idx idx, of "Some (?P i)"] by (simp add: slots_ok_def)
  have "linked ht0 (Suc i) (?hw\<lparr>factorizedTable := ?w\<rparr>)"
    unfolding linked_def Let_def using same_shape_trans[OF shape(1) upd(1)] L r1 sl1 ok1 by simp
  with lk show ?thesis by blast
qed

lemma buildHashSlots_ok:
  assumes h: "hashed ht" and s: "slots_ok ht" and e: "\<And>idx. idx < unat (maxNumHashSlots ht) \<Longrightarrow> slot ht idx = None"
  shows "\<exists>ht'. buildHashSlots ht = Some ht' \<and> linked ht (length (trows (factorizedTable ht))) ht'"
proof -
  let ?t = "factorizedTable ht"
  have blk: "blocks_ok (flatTupleBlockSize ?t) (flatTupleBlockCollection ?t)" "schema_ok (tableSchema ?t)"
    using h by (simp_all add: hashed_def merged_ok_def)
  have "linked ht 0 ht"
    unfolding linked_def Let_def using blk s e by (auto simp: same_shape_def head_ptr_def map_nth)
  then have "\<exists>ht'. foldM (\<lambda>x i. link_entry x (tptr ?t i)) ht [0..<length (trows ?t)] = Some ht' \<and> linked ht (length (trows ?t)) ht'"
    by (intro foldM_upt_rule[where I = "linked ht"]) (auto intro: link_entry_ok[OF h])
  then show ?thesis unfolding buildHashSlots_def block_ptrs_rows[OF blk(1)] foldM_map .
qed

section \<open>Built tables\<close>

abbreviation num_rows :: "JoinHashTable \<Rightarrow> nat" where
  "num_rows ht \<equiv> length (trows (factorizedTable ht))"

definition built :: "JoinHashTable \<Rightarrow> bool" where
  "built ht \<longleftrightarrow> hashed ht \<and> slots_ok ht \<and>
     (\<forall>j < num_rows ht. getPrevTuple ht (tptr (factorizedTable ht) j) =
        Some (head_ptr (tptr (factorizedTable ht)) (slot_rows (slot_index ht) j (slot_index ht j)))) \<and>
     (\<forall>idx < unat (maxNumHashSlots ht).
        slot ht idx = head_ptr (tptr (factorizedTable ht)) (slot_rows (slot_index ht) (num_rows ht) idx))"

definition bucket :: "JoinHashTable \<Rightarrow> hash \<Rightarrow> tuple_ptr list" where
  "bucket ht h = map (tptr (factorizedTable ht))
     (slot_rows (slot_index ht) (num_rows ht) (unat (h mod maxNumHashSlots ht)))"

interpretation jht: chained_table built getTupleForHash getPrevTuple bucket
proof unfold_locales
  fix ht h assume b: "built ht"
  let ?n = "num_rows ht" and ?P = "tptr (factorizedTable ht)" and ?sl = "slot_index ht"
  have ok: "slots_ok ht" and prev: "\<And>j. j < ?n \<Longrightarrow> getPrevTuple ht (?P j) = Some (head_ptr ?P (slot_rows ?sl j (?sl j)))"
    using b by (simp_all add: built_def)
  have "unat (h mod maxNumHashSlots ht) < unat (maxNumHashSlots ht)"
    using ok by (simp add: slots_ok_def slot_idx_less)
  then have "getTupleForHash ht h = Some (head_ptr ?P (slot_rows ?sl ?n (unat (h mod maxNumHashSlots ht))))"
    using getTupleForHash_slot[OF ok, of h] b by (simp add: built_def)
  moreover have "chain (getPrevTuple ht) (head_ptr ?P (slot_rows ?sl ?n (unat (h mod maxNumHashSlots ht)))) (bucket ht h)"
    unfolding bucket_def by (rule chain_slot_rows[where n = ?n, OF prev order_refl])
  ultimately show "\<exists>p. getTupleForHash ht h = Some p \<and> chain (getPrevTuple ht) p (bucket ht h)" by blast
qed

lemma linked_rows:
  assumes "hashed ht0" "linked ht0 (num_rows ht0) ht" "j < num_rows ht0"
  shows "trows (factorizedTable ht) ! j = ((fst (trows (factorizedTable ht0) ! j))[prev_col (factorizedTable ht0) :=
      PrevPtr (head_ptr (tptr (factorizedTable ht0)) (slot_rows (slot_index ht0) j (slot_index ht0 j)))],
      snd (trows (factorizedTable ht0) ! j))"
    and "num_rows ht = num_rows ht0"
  using assms(2,3) by (simp_all add: linked_def Let_def)

lemma linked_built:
  assumes h: "hashed ht0" and l: "linked ht0 (num_rows ht0) ht"
  shows "built ht"
proof -
  let ?u = "factorizedTable ht0" and ?t = "factorizedTable ht"
  note L = l[unfolded linked_def Let_def]
  have shape: "same_shape ?u ?t" "tableSchema ?t = tableSchema ?u" "slots_ok ht" "maxNumHashSlots ht = maxNumHashSlots ht0"
    using L by blast+
  have n: "num_rows ht = num_rows ht0" using L by simp
  have cols: "2 \<le> length (columns (tableSchema ?u))" using h by (simp add: hashed_def)
  have ptr: "tptr ?t = tptr ?u" using same_shape_ptr[OF shape(1)] by (intro ext)
  have lenr: "length (fst (trows ?u ! j)) = length (columns (tableSchema ?u))" "row_hash ?u (trows ?u ! j) \<noteq> None"
    if "j < num_rows ht0" for j using h that by (auto simp: hashed_def)
  have rh: "row_hash ?t (trows ?t ! j) = row_hash ?u (trows ?u ! j)" if "j < num_rows ht0" for j
  proof -
    have "prev_col ?u \<noteq> hash_col ?u" using cols by linarith
    then show ?thesis using linked_rows(1)[OF h l that] shape(2) by (simp add: row_hash_def)
  qed
  have sl: "slot_index ht j = slot_index ht0 j" if "j < num_rows ht0" for j
    using rh[OF that] shape(4) by (simp add: slot_index_def)
  have srows: "slot_rows (slot_index ht) i idx = slot_rows (slot_index ht0) i idx" if "i \<le> num_rows ht0" for i idx
    using that by (induction i) (auto simp: sl)
  have blk: "blocks_ok (flatTupleBlockSize ?t) (flatTupleBlockCollection ?t)" using shape(1) by (simp add: same_shape_def)
  have mo: "merged_ok ?t" using h shape(1) n by (auto simp: hashed_def merged_ok_def same_shape_def)
  have "hashed ht"
    unfolding hashed_def
  proof (intro conjI ballI)
    fix r assume "r \<in> set (trows ?t)"
    then obtain j where j: "j < num_rows ht0" "r = trows ?t ! j" using n by (auto simp: in_set_conv_nth)
    then show "length (fst r) = length (columns (tableSchema ?t))"
      using lenr(1)[OF j(1)] linked_rows(1)[OF h l j(1)] shape(2) by simp
    show "row_hash ?t r \<noteq> None" using lenr(2)[OF j(1)] rh[OF j(1)] j(2) by simp
  qed (use mo cols shape(2) in auto)
  moreover have "getPrevTuple ht (tptr ?t j) = Some (head_ptr (tptr ?t) (slot_rows (slot_index ht) j (slot_index ht j)))"
    if j: "j < num_rows ht" for j
  proof -
    have at: "row_at (flatTupleBlockCollection ?t) (tptr ?t j) = Some (trows ?t ! j)" by (rule row_at_block_idx[OF blk j])
    have "fst (trows ?t ! j) ! prev_col ?t = PrevPtr (head_ptr (tptr ?u) (slot_rows (slot_index ht0) j (slot_index ht0 j)))"
    proof -
      have "prev_col ?u < length (columns (tableSchema ?u))" using cols by linarith
      then show ?thesis using linked_rows(1)[OF h l, of j] j n shape(2) lenr(1)[of j] by simp
    qed
    with at show ?thesis using j n ptr srows[of j] sl[of j] by (simp add: getPrevTuple_def)
  qed
  moreover have "slot ht idx = head_ptr (tptr ?t) (slot_rows (slot_index ht) (num_rows ht) idx)"
    if "idx < unat (maxNumHashSlots ht)" for idx
    using L that n ptr srows[of "num_rows ht0"] shape(4) by simp
  ultimately show ?thesis using shape(3) unfolding built_def by blast
qed

section \<open>Keys\<close>

text \<open>Rows whose first column is a key that is not null, with its hash in the hash column.\<close>

definition row_key :: "ht_val row \<Rightarrow> nodeID" where
  "row_key r = (case fst r ! 0 of Value (IdVal k) \<Rightarrow> k | _ \<Rightarrow> default_internalID)"

definition keyed :: "JoinHashTable \<Rightarrow> bool" where
  "keyed ht \<longleftrightarrow> hashed ht \<and> (\<forall>r\<in>set (trows (factorizedTable ht)). \<not> snd r ! 0 \<and>
     fst r ! 0 = Value (IdVal (row_key r)) \<and> row_hash (factorizedTable ht) r = Some (Hash_internalID (row_key r)))"

definition key_matches :: "JoinHashTable \<Rightarrow> nodeID \<Rightarrow> tuple_ptr list" where
  "key_matches ht k = map (tptr (factorizedTable ht))
     (rev (filter (\<lambda>i. row_key (trows (factorizedTable ht) ! i) = k) [0..<num_rows ht]))"

definition key_vector :: "nodeID \<Rightarrow> ht_val ValueVector" where
  "key_vector k = \<lparr>vflat = True, vsel = [0], vvals = [Some (IdVal k)], vbytes = 16\<rparr>"

definition ptr_key :: "JoinHashTable \<Rightarrow> tuple_ptr \<Rightarrow> nodeID" where
  "ptr_key ht p = (case row_at (flatTupleBlockCollection (factorizedTable ht)) p of Some r \<Rightarrow> row_key r | None \<Rightarrow> default_internalID)"

lemma keyed_row:
  assumes "keyed ht" "i < num_rows ht"
  shows "row_at (flatTupleBlockCollection (factorizedTable ht)) (tptr (factorizedTable ht) i) = Some (trows (factorizedTable ht) ! i)"
    and "ptr_key ht (tptr (factorizedTable ht) i) = row_key (trows (factorizedTable ht) ! i)"
proof -
  have "blocks_ok (flatTupleBlockSize (factorizedTable ht)) (flatTupleBlockCollection (factorizedTable ht))"
    using assms(1) by (simp add: keyed_def hashed_def merged_ok_def)
  from row_at_block_idx[OF this assms(2)]
  show "row_at (flatTupleBlockCollection (factorizedTable ht)) (tptr (factorizedTable ht) i) = Some (trows (factorizedTable ht) ! i)"
    and "ptr_key ht (tptr (factorizedTable ht) i) = row_key (trows (factorizedTable ht) ! i)"
    by (simp_all add: ptr_key_def)
qed

lemma bucket_ptrs: "x \<in> set (bucket ht h) \<Longrightarrow> \<exists>i < num_rows ht. x = tptr (factorizedTable ht) i"
  by (auto simp: bucket_def set_slot_rows)

text \<open>The rows with a key are the matching rows of the bucket of its hash.\<close>

lemma bucket_matches:
  assumes "keyed ht"
  shows "filter (\<lambda>p. ptr_key ht p = k) (bucket ht (Hash_internalID k)) = key_matches ht k"
proof -
  let ?n = "num_rows ht" and ?idx = "unat (Hash_internalID k mod maxNumHashSlots ht)"
  have sl: "slot_index ht i = ?idx" if "i < ?n" "row_key (trows (factorizedTable ht) ! i) = k" for i
    using assms that by (auto simp: keyed_def slot_index_def)
  have "filter (\<lambda>i. row_key (trows (factorizedTable ht) ! i) = k) (filter (\<lambda>i. slot_index ht i = ?idx) [0..<?n]) =
      filter (\<lambda>i. row_key (trows (factorizedTable ht) ! i) = k) [0..<?n]"
    unfolding filter_filter using sl by (intro filter_cong) auto
  moreover have "filter (\<lambda>p. ptr_key ht p = k) (map (tptr (factorizedTable ht)) js) =
      map (tptr (factorizedTable ht)) (filter (\<lambda>i. row_key (trows (factorizedTable ht) ! i) = k) js)"
    if "set js \<subseteq> {0..<?n}" for js
    using that keyed_row(2)[OF assms] by (induction js) auto
  moreover have "set (rev (filter (\<lambda>i. slot_index ht i = ?idx) [0..<?n])) \<subseteq> {0..<?n}" by auto
  ultimately show ?thesis by (simp only: bucket_def key_matches_def slot_rows_def rev_filter[symmetric])
qed

section \<open>Matching\<close>

lemma match_key_vector:
  assumes "keyed ht" "p = tptr (factorizedTable ht) i" "i < num_rows ht"
  shows "matchFlatVecWithEntry ht [key_vector k] p = Some (ptr_key ht p = k)"
proof -
  let ?r = "trows (factorizedTable ht) ! i"
  have "\<not> snd ?r ! 0" "fst ?r ! 0 = Value (IdVal (row_key ?r))" using assms(1,3) by (auto simp: keyed_def)
  then show ?thesis unfolding assms(2) using keyed_row[OF assms(1,3)]
    by (auto simp: matchFlatVecWithEntry_def key_vector_def compareEntry_def)
qed

text \<open>What is still to be matched from a position in a chain.\<close>

definition pending :: "JoinHashTable \<Rightarrow> nodeID \<Rightarrow> tuple_ptr option \<Rightarrow> tuple_ptr list \<Rightarrow> bool" where
  "pending ht k p ms \<longleftrightarrow> (\<exists>xs. chain (getPrevTuple ht) p xs \<and> ms = filter (\<lambda>x. ptr_key ht x = k) xs \<and>
     (\<forall>x\<in>set xs. \<exists>i < num_rows ht. x = tptr (factorizedTable ht) i))"

lemma matchFlatKeys_pending:
  assumes "keyed ht" "pending ht k p ms" "length matched \<le> cap"
  shows "\<exists>q. matchFlatKeys cap ht [key_vector k] p matched = Some (matched @ take (cap - length matched) ms, q) \<and>
    pending ht k q (drop (cap - length matched) ms)"
proof -
  obtain xs where xs: "chain (getPrevTuple ht) p xs" "ms = filter (\<lambda>x. ptr_key ht x = k) xs"
    "\<forall>x\<in>set xs. \<exists>i < num_rows ht. x = tptr (factorizedTable ht) i" using assms(2) by (auto simp: pending_def)
  have "\<exists>q. matchFlatKeys cap ht [key_vector k] p matched =
      Some (matched @ take (cap - length matched) (filter (\<lambda>x. ptr_key ht x = k) xs), q) \<and>
    pending ht k q (drop (cap - length matched) (filter (\<lambda>x. ptr_key ht x = k) xs))"
    using xs(1,3) assms(3)
  proof (induction xs arbitrary: p matched)
    case Nil
    then have "pending ht k None []" by (auto simp: pending_def intro!: exI[of _ "[]"])
    with Nil show ?case by (auto simp: matchFlatKeys.simps)
  next
    case (Cons x xs)
    show ?case
    proof (cases "length matched = cap")
      case True
      with Cons.prems have "pending ht k p (filter (\<lambda>x. ptr_key ht x = k) (x # xs))" unfolding pending_def by blast
      with True Cons.prems(1) show ?thesis by (subst matchFlatKeys.simps) simp
    next
      case False
      obtain q i where q: "p = Some x" "getPrevTuple ht x = Some q" "chain (getPrevTuple ht) q xs"
        and i: "i < num_rows ht" "x = tptr (factorizedTable ht) i" using Cons.prems by auto
      let ?m = "if ptr_key ht x = k then matched @ [x] else matched"
      have len: "length ?m \<le> cap" using False Cons.prems(3) by simp
      have step: "matchFlatKeys cap ht [key_vector k] p matched = matchFlatKeys cap ht [key_vector k] q ?m"
        by (subst matchFlatKeys.simps) (simp add: q False match_key_vector[OF assms(1) i(2,1)])
      have "\<forall>x\<in>set xs. \<exists>i < num_rows ht. x = tptr (factorizedTable ht) i" using Cons.prems(2) by simp
      from Cons.IH[OF q(3) this len] obtain q' where
        "matchFlatKeys cap ht [key_vector k] q ?m = Some (?m @ take (cap - length ?m) (filter (\<lambda>x. ptr_key ht x = k) xs), q')"
        "pending ht k q' (drop (cap - length ?m) (filter (\<lambda>x. ptr_key ht x = k) xs))" by blast
      moreover have "cap - length matched = Suc (cap - Suc (length matched))" using False Cons.prems(3) by simp
      ultimately show ?thesis unfolding step by (cases "ptr_key ht x = k") auto
    qed
  qed
  with xs(2) show ?thesis by simp
qed

text \<open>The results of repeated calls, each continuing where the last one stopped.\<close>

fun match_batch :: "nat \<Rightarrow> JoinHashTable \<Rightarrow> ht_val ValueVector list \<Rightarrow> tuple_ptr option \<Rightarrow> nat \<Rightarrow> tuple_ptr list option" where
  "match_batch cap ht keys p 0 = map_option fst (matchFlatKeys cap ht keys p [])"
| "match_batch cap ht keys p (Suc n) =
     do { (ms, q) \<leftarrow> matchFlatKeys cap ht keys p []; match_batch cap ht keys q n }"

lemma match_batch_pending:
  assumes "keyed ht" "pending ht k p ms"
  shows "match_batch cap ht [key_vector k] p n = Some (take cap (drop (n * cap) ms))"
  using assms(2)
proof (induction n arbitrary: p ms)
  case 0
  then show ?case using matchFlatKeys_pending[OF assms(1) 0, of "[]" cap] by auto
next
  case (Suc n)
  from matchFlatKeys_pending[OF assms(1) Suc.prems, of "[]" cap] obtain q where
    "matchFlatKeys cap ht [key_vector k] p [] = Some (take cap ms, q)" "pending ht k q (drop cap ms)" by auto
  with Suc.IH[of q "drop cap ms"] show ?case by (simp add: add.commute)
qed

lemma pending_bucket:
  assumes "built ht" "keyed ht"
  shows "\<exists>p. getTupleForHash ht (Hash_internalID k) = Some p \<and> pending ht k p (key_matches ht k)"
  using jht.first[OF assms(1), of "Hash_internalID k"] bucket_matches[OF assms(2), of k]
  unfolding pending_def by (metis bucket_ptrs)

section \<open>From the rows to the matches\<close>

lemma finalize_ok:
  assumes k: "keyed ht" and n: "0 < num_rows ht" "num_rows ht < 2 ^ 62"
    and fresh: "hashSlotsBlocks ht = []" "numSlotsPerBlockLog2 ht < 63"
  shows "\<exists>ht'. finalizeInternal ht = Some ht' \<and> built ht' \<and> keyed ht' \<and> num_rows ht' = num_rows ht \<and>
    tptr (factorizedTable ht') = tptr (factorizedTable ht) \<and> tableSchema (factorizedTable ht') = tableSchema (factorizedTable ht) \<and>
    (\<forall>i < num_rows ht. row_key (trows (factorizedTable ht') ! i) = row_key (trows (factorizedTable ht) ! i) \<and>
       (\<forall>c < prev_col (factorizedTable ht). fst (trows (factorizedTable ht') ! i) ! c = fst (trows (factorizedTable ht) ! i) ! c))"
proof -
  have h: "hashed ht" and num: "ft_numTuples (factorizedTable ht) = num_rows ht"
    using k by (simp_all add: keyed_def hashed_def merged_ok_def)
  let ?w = "of_nat (num_rows ht) :: 64 word" and ?a = "allocateHashSlots (of_nat (num_rows ht)) ht"
  have "num_rows ht < 2 ^ 64" using n(2) by simp
  then have un: "unat ?w = num_rows ht" by (simp add: unat_of_nat)
  then have w: "?w \<noteq> 0" "unat ?w < 2 ^ 62" using n by auto
  note al = allocateHashSlots_ok[OF fresh(1,2) w]
  have ha: "hashed ?a" "num_rows ?a = num_rows ht" using h al(2) by (simp_all add: hashed_def)
  from buildHashSlots_ok[OF ha(1) al(1,3)] obtain ht' where
    b: "buildHashSlots ?a = Some ht'" "linked ?a (num_rows ?a) ht'" by auto
  note L = b(2)[unfolded linked_def Let_def]
  have t: "tableSchema (factorizedTable ht') = tableSchema (factorizedTable ht)" "num_rows ht' = num_rows ht"
    "tptr (factorizedTable ht') = tptr (factorizedTable ht)"
    using L al(2) same_shape_ptr[of "factorizedTable ?a" "factorizedTable ht'"] by (auto intro!: ext)
  have cols: "2 \<le> length (columns (tableSchema (factorizedTable ht)))" using h by (simp add: hashed_def)
  have row: "\<exists>p. trows (factorizedTable ht') ! i =
      ((fst (trows (factorizedTable ht) ! i))[prev_col (factorizedTable ht) := PrevPtr p], snd (trows (factorizedTable ht) ! i))"
    if "i < num_rows ht" for i
    using linked_rows(1)[OF ha(1) b(2), of i] that ha(2) al(2) by auto
  have cell: "fst (trows (factorizedTable ht') ! i) ! c = fst (trows (factorizedTable ht) ! i) ! c"
    "snd (trows (factorizedTable ht') ! i) = snd (trows (factorizedTable ht) ! i)"
    if "i < num_rows ht" "c < prev_col (factorizedTable ht)" for i c
    using row[OF that(1)] that(2) by auto
  have z: "0 < prev_col (factorizedTable ht)" "hash_col (factorizedTable ht) < prev_col (factorizedTable ht)" using cols by linarith+
  have key: "row_key (trows (factorizedTable ht') ! i) = row_key (trows (factorizedTable ht) ! i)" if "i < num_rows ht" for i
    using cell(1)[OF that z(1)] by (simp add: row_key_def)
  have bt: "built ht'" by (rule linked_built[OF ha(1) b(2)])
  have "keyed ht'"
    unfolding keyed_def
  proof (intro conjI ballI)
    show "hashed ht'" using bt by (simp add: built_def)
    fix r assume "r \<in> set (trows (factorizedTable ht'))"
    then obtain i where i: "i < num_rows ht" "r = trows (factorizedTable ht') ! i" using t(2) by (auto simp: in_set_conv_nth)
    let ?r = "trows (factorizedTable ht) ! i"
    have kr: "\<not> snd ?r ! 0 \<and> fst ?r ! 0 = Value (IdVal (row_key ?r)) \<and>
        row_hash (factorizedTable ht) ?r = Some (Hash_internalID (row_key ?r))"
      using k i(1) by (auto simp: keyed_def)
    show "\<not> snd r ! 0" using kr cell(2)[OF i(1) z(1)] i(2) by simp
    show "fst r ! 0 = Value (IdVal (row_key r))" using kr cell(1)[OF i(1) z(1)] key[OF i(1)] i(2) by simp
    show "row_hash (factorizedTable ht') r = Some (Hash_internalID (row_key r))"
      using kr cell(1)[OF i(1) z(2)] key[OF i(1)] i(2) t(1) by (simp add: row_hash_def)
  qed
  moreover have "finalizeInternal ht = Some ht'" using b(1) num by (simp add: finalizeInternal_def)
  ultimately show ?thesis using bt t key cell(1) by blast
qed

section \<open>Appending keyed rows\<close>

lemma appendVector_column: "append_column n infos st x = Some st' \<Longrightarrow> appendVector infos st x = Some st'"
  by (cases x) (auto simp: append_column_def appendVector_def split: Option.bind_splits)

lemma foldM_mono:
  assumes "\<And>s x s'. f s x = Some s' \<Longrightarrow> g s x = Some s'" "foldM f s xs = Some r"
  shows "foldM g s xs = Some r"
  using assms(2) by (induction xs arbitrary: s) (auto split: Option.bind_splits dest: assms(1))

lemma append_rows_vectors: "append_vectors n vs st = Some r \<Longrightarrow> append_rows n vs st = Some r"
proof -
  assume a: "append_vectors n vs st = Some r"
  obtain heap t where st: "st = (heap, t)" by (cases st)
  from a st obtain c infos heap' t' where
    1: "allocateFlatTupleBlocks (flatTupleBlockSize t) (length (columns (tableSchema t))) (flatTupleBlockCollection t) n = Some (c, infos)"
    and 2: "foldM (append_column n infos) (heap, t\<lparr>flatTupleBlockCollection := c\<rparr>) (enumerate 0 vs) = Some (heap', t')"
    and r: "r = (heap', t'\<lparr>ft_numTuples := ft_numTuples t' + n\<rparr>)"
    by (auto simp: append_vectors_def split: Option.bind_splits)
  from foldM_mono[OF appendVector_column 2] 1 st r show ?thesis by (simp add: append_rows_def)
qed

lemma foldl_update_nth:
  assumes "distinct sel" "\<forall>p\<in>set sel. p < length r" "i < length sel"
  shows "foldl (\<lambda>r i. r[sel ! i := f i]) r [0..<length sel] ! (sel ! i) = f i"
proof -
  have "foldl (\<lambda>r i. r[sel ! i := f i]) r [0..<m] ! (sel ! i) = f i \<and>
      length (foldl (\<lambda>r i. r[sel ! i := f i]) r [0..<m]) = length r" if "i < m" "m \<le> length sel" for m
    using that
  proof (induction m)
    case (Suc m)
    show ?case
    proof (cases "i = m")
      case True
      then show ?thesis using assms(2) Suc.prems by (simp add: foldl_update_length)
    next
      case False
      then have "sel ! i \<noteq> sel ! m" using assms(1) Suc.prems by (simp add: nth_eq_iff_index_eq)
      with Suc False show ?thesis by simp
    qed
  qed simp
  with assms(3) show ?thesis by blast
qed

lemma hash_one_key:
  assumes "distinct (vsel v)" "\<forall>p\<in>set (vsel v). p < cap"
  shows "\<exists>hv. computeVectorHashes cap [v] = Some hv \<and> vflat hv = vflat v \<and> vsel hv = vsel v \<and>
    (\<forall>i < length (vsel v). vvals hv ! (vsel v ! i) = Some (HashVal (Hash_nullable (vvals v ! (vsel v ! i)))))"
proof -
  have len: "length (UnaryHash_execute v (vsel v) (replicate cap 0)) = cap"
    by (simp add: UnaryHash_execute_def)
  show ?thesis using assms len foldl_update_nth[of "vsel v" "replicate cap 0"]
    by (auto simp: computeVectorHashes_def UnaryHash_execute_def)
qed

text \<open>A selected key column: identifiers without nulls; a flat key selects one position.\<close>

definition key_column_ok :: "nat \<Rightarrow> ht_val ValueVector \<Rightarrow> bool" where
  "key_column_ok cap v \<longleftrightarrow> distinct (vsel v) \<and> (\<forall>p\<in>set (vsel v). p < cap \<and> (\<exists>k. vvals v ! p = Some (IdVal k))) \<and>
     (vflat v \<longrightarrow> length (vsel v) = 1)"

definition selected_key :: "ht_val ValueVector \<Rightarrow> nat \<Rightarrow> nodeID" where
  "selected_key v i = (case vvals v ! (vsel v ! i) of Some (IdVal k) \<Rightarrow> k | _ \<Rightarrow> default_internalID)"

text \<open>The schema of a table with one key: flat key and hash columns; unflat payloads need unflat vectors.\<close>

definition key_schema_ok :: "FactorizedTableSchema \<Rightarrow> ht_val ValueVector list \<Rightarrow> bool" where
  "key_schema_ok s payloads \<longleftrightarrow> length (columns s) = length payloads + 3 \<and> isFlat (columns s ! 0) \<and>
     isFlat (columns s ! (length payloads + 1)) \<and>
     (\<forall>j < length payloads. isFlat (columns s ! Suc j) \<or> \<not> vflat (payloads ! j))"

lemma shows_value: "shows_as heap r c (VVal x) \<Longrightarrow> fst r ! c = Value x \<and> \<not> snd r ! c"
  by (auto simp: shows_as_def cell_view_def split: if_splits cell.splits)

lemma append_keyed_rows:
  assumes k: "keyed ht" and t: "table_ok (factorizedTable ht)"
    and s: "key_schema_ok (tableSchema (factorizedTable ht)) payloads" and v: "key_column_ok cap v"
    and hv: "computeVectorHashes cap [v] = Some hv" and n: "n = length (vsel v)"
  shows "\<exists>heap' t' new. append_rows n (v # payloads @ [hv]) (heap, factorizedTable ht) = Some (heap', t') \<and>
    table_ok t' \<and> trows t' = trows (factorizedTable ht) @ new \<and> length new = n \<and> (\<exists>ext. heap' = heap @ ext) \<and>
    keyed (ht\<lparr>factorizedTable := t'\<rparr>) \<and> layout (tableSchema t') = layout (tableSchema (factorizedTable ht)) \<and>
    flatTupleBlockSize t' = flatTupleBlockSize (factorizedTable ht) \<and>
    (\<forall>i < n. row_key (new ! i) = selected_key v i \<and>
      (\<forall>j < length payloads. shows_as heap' (new ! i) (Suc j)
         (view_of (isFlat (columns (tableSchema (factorizedTable ht)) ! Suc j)) (payloads ! j) i)))"
proof -
  let ?t = "factorizedTable ht" and ?vs = "v # payloads @ [hv]" and ?m = "length payloads"
  let ?cols = "columns (tableSchema (factorizedTable ht))"
  have sc: "length ?cols = ?m + 3" "isFlat (?cols ! 0)" "isFlat (?cols ! Suc ?m)"
    "\<And>j. j < ?m \<Longrightarrow> isFlat (?cols ! Suc j) \<or> \<not> vflat (payloads ! j)"
    using s by (auto simp: key_schema_ok_def)
  have vsel: "distinct (vsel v)" "\<forall>p\<in>set (vsel v). p < cap" using v by (auto simp: key_column_ok_def)
  from hash_one_key[OF this] hv have hv': "vflat hv = vflat v" "vsel hv = vsel v"
    "\<And>i. i < length (vsel v) \<Longrightarrow> vvals hv ! (vsel v ! i) = Some (HashVal (Hash_nullable (vvals v ! (vsel v ! i))))" by auto
  have col: "\<forall>j < length ?vs. isFlat (?cols ! j) \<or> \<not> vflat (?vs ! j)"
  proof (intro allI impI)
    fix j assume j: "j < length ?vs"
    consider "j = 0" | j' where "j = Suc j'" "j' < ?m" | "j = Suc ?m"
      using j by (cases j) (auto simp: less_Suc_eq)
    then show "isFlat (?cols ! j) \<or> \<not> vflat (?vs ! j)"
    proof cases
      case (2 j')
      then have "?vs ! j = payloads ! j'" by (simp add: nth_append)
      with 2 sc(4)[of j'] show ?thesis by simp
    qed (use sc(2,3) in simp_all)
  qed
  have "length ?vs \<le> length ?cols" using sc(1) by simp
  from append_vectors_ok[OF t this col, of n heap] obtain heap' t' new where
    a: "append_vectors n ?vs (heap, ?t) = Some (heap', t')" "table_ok t'" "trows t' = trows ?t @ new" "length new = n"
    "\<exists>ext. heap' = heap @ ext" "layout (tableSchema t') = layout (tableSchema ?t)"
    "flatTupleBlockSize t' = flatTupleBlockSize ?t" "appended heap' new (tableSchema ?t) ?vs" by blast
  have len: "length (columns (tableSchema t')) = length ?cols" using layout_columns[OF a(6)] by simp
  have val: "vvals v ! (vsel v ! i) = Some (IdVal (selected_key v i))" if "i < n" for i
  proof -
    have "vsel v ! i \<in> set (vsel v)" using that n by simp
    then obtain k' where "vvals v ! (vsel v ! i) = Some (IdVal k')" using v unfolding key_column_ok_def by blast
    then show ?thesis by (simp add: selected_key_def)
  qed
  have idx: "(if vflat v then 0 else i) = i" if "i < n" for i using v that n by (auto simp: key_column_ok_def)
  have new: "length (fst (new ! i)) = length ?cols" "fst (new ! i) ! 0 = Value (IdVal (selected_key v i))" "\<not> snd (new ! i) ! 0"
    "fst (new ! i) ! Suc ?m = Value (HashVal (Hash_internalID (selected_key v i)))"
    "\<And>j. j < ?m \<Longrightarrow> shows_as heap' (new ! i) (Suc j) (view_of (isFlat (?cols ! Suc j)) (payloads ! j) i)" if i: "i < n" for i
  proof -
    have sh: "length (fst (new ! i)) = length ?cols"
      "\<And>j. j < length ?vs \<Longrightarrow> shows_as heap' (new ! i) j (view_of (isFlat (?cols ! j)) (?vs ! j) i)"
      using a(4,8) i by (auto simp: appended_def)
    show "length (fst (new ! i)) = length ?cols" by (rule sh)
    have "view_of True v i = VVal (IdVal (selected_key v i))"
      using val[OF i] idx[OF i] by (simp add: view_of_def flat_value_def)
    with sh(2)[of 0] sc(2) show "fst (new ! i) ! 0 = Value (IdVal (selected_key v i))" "\<not> snd (new ! i) ! 0"
      by (auto dest: shows_value)
    have "view_of True hv i = VVal (HashVal (Hash_internalID (selected_key v i)))"
      using val[OF i] idx[OF i] hv'(1,2) hv'(3)[of i] i n by (simp add: view_of_def flat_value_def Hash_nullable_def Hash_operation_def)
    with sh(2)[of "Suc ?m"] sc(3) show "fst (new ! i) ! Suc ?m = Value (HashVal (Hash_internalID (selected_key v i)))"
      by (auto dest: shows_value simp: nth_append)
    show "shows_as heap' (new ! i) (Suc j) (view_of (isFlat (?cols ! Suc j)) (payloads ! j) i)" if "j < ?m" for j
      using sh(2)[of "Suc j"] that by (simp add: nth_append)
  qed
  have key: "row_key (new ! i) = selected_key v i" if "i < n" for i using new(2)[OF that] by (simp add: row_key_def)
  have hc: "length ?cols - 2 = Suc ?m" using sc(1) by simp
  have rh: "row_hash t' r = row_hash ?t r" for r using len by (simp add: row_hash_def)
  have "keyed (ht\<lparr>factorizedTable := t'\<rparr>)"
  proof -
    have "length (fst r) = length ?cols \<and> \<not> snd r ! 0 \<and> fst r ! 0 = Value (IdVal (row_key r)) \<and>
        row_hash t' r = Some (Hash_internalID (row_key r))" if "r \<in> set (trows t')" for r
    proof -
      have "r \<in> set (trows ?t) \<or> r \<in> set new" using that a(3) by simp
      then consider "r \<in> set (trows ?t)" | i where "i < n" "r = new ! i"
        unfolding in_set_conv_nth[of r new] using a(4) by blast
      then show ?thesis
      proof cases
        case 1
        then show ?thesis using k rh by (auto simp: keyed_def hashed_def)
      next
        case 2
        then show ?thesis using new[OF 2(1)] key[OF 2(1)] hc len by (auto simp: row_hash_def)
      qed
    qed
    moreover have "2 \<le> length ?cols" using sc(1) by simp
    ultimately show ?thesis using table_ok_merged[OF a(2)] len by (auto simp: keyed_def hashed_def)
  qed
  with append_rows_vectors[OF a(1)] a key new(5) show ?thesis by blast
qed

text \<open>
  \<open>appendVectors\<close> with one key column that has no nulls: one row per selected key, with the key, its
  hash and the payloads, after the rows that were there.
\<close>

lemma appendVectors_ok:
  assumes k: "keyed ht" and t: "table_ok (factorizedTable ht)" and nn: "cvNoNulls key" and st: "cvState key < length sts"
    and sel: "sel_ok cap (csSel (sts ! cvState key))"
    and s: "key_schema_ok (tableSchema (factorizedTable ht)) (map (as_vector cap sts) payloads)"
    and v: "key_column_ok cap (as_vector cap sts key)"
  defines "n \<equiv> selectedSize (csSel (sts ! cvState key))"
  shows "\<exists>heap' ht' new. appendVectors cap [key] payloads (cvState key) (sts, heap, ht) = Some (n, sts, heap', ht') \<and>
    keyed ht' \<and> table_ok (factorizedTable ht') \<and> trows (factorizedTable ht') = trows (factorizedTable ht) @ new \<and>
    length new = n \<and> (\<exists>ext. heap' = heap @ ext) \<and> hashSlotsBlocks ht' = hashSlotsBlocks ht \<and>
    numSlotsPerBlockLog2 ht' = numSlotsPerBlockLog2 ht \<and>
    layout (tableSchema (factorizedTable ht')) = layout (tableSchema (factorizedTable ht)) \<and>
    flatTupleBlockSize (factorizedTable ht') = flatTupleBlockSize (factorizedTable ht) \<and>
    (\<forall>i < n. row_key (new ! i) = selected_key (as_vector cap sts key) i \<and>
      (\<forall>j < length payloads. shows_as heap' (new ! i) (Suc j)
         (view_of (isFlat (columns (tableSchema (factorizedTable ht)) ! Suc j)) (as_vector cap sts (payloads ! j)) i)))"
proof -
  let ?v = "as_vector cap sts key"
  have "vsel ?v = getSelectedPositions cap (csSel (sts ! cvState key))" by (simp add: as_vector_def)
  moreover have "length (getSelectedPositions cap (csSel (sts ! cvState key))) = n"
    using sel by (cases "selState (csSel (sts ! cvState key))")
      (auto simp: n_def sel_ok_def getSelectedPositions_def pointee_def INCREMENTAL_SELECTED_POS_def getCapacity_def)
  ultimately have n: "n = length (vsel ?v)" by simp
  have disc: "discard_key cap sts key = Some (sts, True)"
    using nn st by (simp add: discard_key_def discardNull_def)
  have "distinct (vsel ?v)" "\<forall>p\<in>set (vsel ?v). p < cap" using v by (auto simp: key_column_ok_def)
  from hash_one_key[OF this] obtain hv where hv: "computeVectorHashes cap [?v] = Some hv" by blast
  from append_keyed_rows[OF k t s v hv n, of heap] obtain heap' t' new where
    a: "append_rows n (?v # map (as_vector cap sts) payloads @ [hv]) (heap, factorizedTable ht) = Some (heap', t')"
    and r: "table_ok t'" "trows t' = trows (factorizedTable ht) @ new" "length new = n" "\<exists>ext. heap' = heap @ ext"
    "keyed (ht\<lparr>factorizedTable := t'\<rparr>)" "layout (tableSchema t') = layout (tableSchema (factorizedTable ht))"
    "flatTupleBlockSize t' = flatTupleBlockSize (factorizedTable ht)"
    "\<forall>i < n. row_key (new ! i) = selected_key ?v i \<and>
      (\<forall>j < length payloads. shows_as heap' (new ! i) (Suc j)
         (view_of (isFlat (columns (tableSchema (factorizedTable ht)) ! Suc j)) (as_vector cap sts (payloads ! j)) i))"
    by auto
  have "appendVectors cap [key] payloads (cvState key) (sts, heap, ht) = Some (n, sts, heap', ht\<lparr>factorizedTable := t'\<rparr>)"
    using disc hv a by (simp add: appendVectors_def n_def Let_def)
  then show ?thesis using r by (intro exI[of _ heap'] exI[of _ "ht\<lparr>factorizedTable := t'\<rparr>"] exI[of _ new]) simp
qed

section \<open>Properties\<close>

definition ht_schema :: FactorizedTableSchema where
  "ht_schema = foldl appendColumn empty_schema
     [new_ColumnSchema False 0 16, new_ColumnSchema True 1 16, new_ColumnSchema False 0 8, new_ColumnSchema False 0 8]"

definition ex_ht :: JoinHashTable where
  "ex_ht = the (new_JoinHashTable 256 ht_schema)"

definition ex_states :: "chunk_state list" where
  "ex_states = [\<lparr>csFlat = False, csSel = (new_SelectionVector 4)\<lparr>selectedSize := 2\<rparr>\<rparr>,
     \<lparr>csFlat = False, csSel = (new_SelectionVector 4)\<lparr>selectedSize := 3\<rparr>\<rparr>]"

definition ex_key :: chunk_vector where
  "ex_key = \<lparr>cvState = 0, cvVals = map (\<lambda>n. Some (IdVal (InternalID n 1))) [7, 9, 0, 0], cvBytes = 16, cvNoNulls = True\<rparr>"

definition ex_payload :: chunk_vector where
  "ex_payload = \<lparr>cvState = 1, cvVals = map (\<lambda>n. Some (IdVal (InternalID n 2))) [3, 1, 2, 0], cvBytes = 16, cvNoNulls = True\<rparr>"

lemma ex_ht_ok: "table_ok (factorizedTable ex_ht)" "keyed ex_ht" "tableSchema (factorizedTable ex_ht) = ht_schema"
  "hashSlotsBlocks ex_ht = []" "numSlotsPerBlockLog2 ex_ht < 63" "trows (factorizedTable ex_ht) = []"
proof -
  have s: "schema_ok ht_schema" unfolding ht_schema_def by (simp add: schema_ok_appendColumn)
  have c: "columns ht_schema \<noteq> []" "numBytesPerTuple ht_schema \<le> 256" "2 \<le> length (columns ht_schema)" by code_simp+
  obtain t where t: "new_FactorizedTable 256 ht_schema = Some (t :: ht_val FactorizedTable)"
    using c(2) by (simp add: new_FactorizedTable_def)
  have ht: "ex_ht = \<lparr>maxNumHashSlots = 0, numSlotsPerBlockLog2 = floor_log2 (256 div 8), hashSlotsBlocks = [], factorizedTable = t\<rparr>"
    by (simp add: ex_ht_def new_JoinHashTable_def t)
  have ok: "table_ok t \<and> tableSchema t = ht_schema" by (rule new_FactorizedTable_ok[OF s c(1,2) t])
  have r: "trows t = []" using t by (auto simp: new_FactorizedTable_def new_DataBlockCollection_def rows_def split: if_splits)
  show "table_ok (factorizedTable ex_ht)" "tableSchema (factorizedTable ex_ht) = ht_schema" "hashSlotsBlocks ex_ht = []"
    "trows (factorizedTable ex_ht) = []" unfolding ht using ok r by simp_all
  show "keyed ex_ht" unfolding ht keyed_def hashed_def using ok r c(3) table_ok_merged[of t] by simp
  have "floor_log2 (256 div 8) < 63" by code_simp
  then show "numSlotsPerBlockLog2 ex_ht < 63" unfolding ht by simp
qed

lemma ex_inputs_ok:
  "cvNoNulls ex_key" "cvState ex_key < length ex_states" "sel_ok 4 (csSel (ex_states ! cvState ex_key))"
  "key_schema_ok (tableSchema (factorizedTable ex_ht)) (map (as_vector 4 ex_states) [ex_payload])"
  "key_column_ok 4 (as_vector 4 ex_states ex_key)"
proof -
  show "cvNoNulls ex_key" "cvState ex_key < length ex_states" "sel_ok 4 (csSel (ex_states ! cvState ex_key))" by code_simp+
  show "key_schema_ok (tableSchema (factorizedTable ex_ht)) (map (as_vector 4 ex_states) [ex_payload])"
    unfolding ex_ht_ok(3) by code_simp
  have "vsel (as_vector 4 ex_states ex_key) = [0, 1]" "\<not> vflat (as_vector 4 ex_states ex_key)"
    "vvals (as_vector 4 ex_states ex_key) = map (\<lambda>n. Some (IdVal (InternalID n 1))) [7, 9, 0, 0]" by code_simp+
  then show "key_column_ok 4 (as_vector 4 ex_states ex_key)" by (simp add: key_column_ok_def)
qed

text \<open>
  C13: Appending a chunk with one key column without nulls adds one row per selected key after the
  rows that were there. Every new row holds the key and shows the payloads, and the table keeps its
  invariant: every row has its key's hash in the hash column.
\<close>

theorem appendVectors_keyed:
  assumes "keyed ht" "table_ok (factorizedTable ht)" "cvNoNulls key" "cvState key < length sts"
    "sel_ok cap (csSel (sts ! cvState key))"
    "key_schema_ok (tableSchema (factorizedTable ht)) (map (as_vector cap sts) payloads)"
    "key_column_ok cap (as_vector cap sts key)"
  shows "\<exists>heap' ht' new. appendVectors cap [key] payloads (cvState key) (sts, heap, ht) =
      Some (selectedSize (csSel (sts ! cvState key)), sts, heap', ht') \<and>
    keyed ht' \<and> table_ok (factorizedTable ht') \<and> trows (factorizedTable ht') = trows (factorizedTable ht) @ new \<and>
    length new = selectedSize (csSel (sts ! cvState key)) \<and>
    (\<forall>i < length new. row_key (new ! i) = selected_key (as_vector cap sts key) i \<and>
      (\<forall>j < length payloads. shows_as heap' (new ! i) (Suc j)
         (view_of (isFlat (columns (tableSchema (factorizedTable ht)) ! Suc j)) (as_vector cap sts (payloads ! j)) i)))"
  using appendVectors_ok[OF assms, of heap] by metis

theorem appendVectors_keyed_witness:
  "\<exists>heap' ht' new. appendVectors 4 [ex_key] [ex_payload] 0 (ex_states, [], ex_ht) = Some (2, ex_states, heap', ht') \<and>
    keyed ht' \<and> trows (factorizedTable ht') = new \<and> map row_key new = [InternalID 7 1, InternalID 9 1]"
proof -
  have c: "cvState ex_key = 0" "selectedSize (csSel (ex_states ! 0)) = 2"
    "selected_key (as_vector 4 ex_states ex_key) 0 = InternalID 7 1" "selected_key (as_vector 4 ex_states ex_key) 1 = InternalID 9 1"
    by code_simp+
  from appendVectors_keyed[OF ex_ht_ok(2,1) ex_inputs_ok, of "[]"] obtain heap' ht' new where
    a: "appendVectors 4 [ex_key] [ex_payload] 0 (ex_states, [], ex_ht) = Some (2, ex_states, heap', ht')" "keyed ht'"
    "trows (factorizedTable ht') = new" "length new = 2"
    "\<forall>i < 2. row_key (new ! i) = selected_key (as_vector 4 ex_states ex_key) i"
    unfolding c(1,2) ex_ht_ok(6) by auto
  obtain r s where n: "new = [r, s]" using a(4) by (auto simp: numeral_2_eq_2 length_Suc_conv)
  have "row_key r = InternalID 7 1" "row_key s = InternalID 9 1" using a(5)[rule_format, of 0] a(5)[rule_format, of 1] n c(3,4) by simp_all
  with a(1-3) n show ?thesis by auto
qed

text \<open>
  C12: Refinement. The hash table finds exactly the rows with a key. After finalizing a table of
  keyed rows, probing the hash of a key and calling \<open>matchFlatKeys\<close> again and again delivers, in batches
  of the vector capacity, the addresses of all rows whose key equals it, the row inserted last first,
  whatever hashes collide.
\<close>

theorem finalize_match_correct:
  assumes "keyed ht" "0 < num_rows ht" "num_rows ht < 2 ^ 62" "hashSlotsBlocks ht = []" "numSlotsPerBlockLog2 ht < 63"
  shows "\<exists>ht' p. finalizeInternal ht = Some ht' \<and> getTupleForHash ht' (Hash_internalID k) = Some p \<and>
    match_batch cap ht' [key_vector k] p n = Some (take cap (drop (n * cap) (key_matches ht k)))"
proof -
  from finalize_ok[OF assms] obtain ht' where f: "finalizeInternal ht = Some ht'" "built ht'" "keyed ht'"
    "num_rows ht' = num_rows ht" "tptr (factorizedTable ht') = tptr (factorizedTable ht)"
    "\<forall>i < num_rows ht. row_key (trows (factorizedTable ht') ! i) = row_key (trows (factorizedTable ht) ! i)" by blast
  have "filter (\<lambda>i. row_key (trows (factorizedTable ht') ! i) = k) [0..<num_rows ht] =
      filter (\<lambda>i. row_key (trows (factorizedTable ht) ! i) = k) [0..<num_rows ht]"
    using f(6) by (intro filter_cong) auto
  then have "key_matches ht' k = key_matches ht k" using f(4,5) by (simp add: key_matches_def)
  with pending_bucket[OF f(2,3), of k] match_batch_pending[OF f(3)] f(1) show ?thesis by metis
qed

theorem finalize_match_correct_witness:
  "\<exists>ht ht' p. num_rows ht = 2 \<and> finalizeInternal ht = Some ht' \<and>
    getTupleForHash ht' (Hash_internalID (InternalID 9 1)) = Some p \<and>
    match_batch 4 ht' [key_vector (InternalID 9 1)] p 0 = Some (take 4 (drop (0 * 4) (key_matches ht (InternalID 9 1))))"
proof -
  have c: "selectedSize (csSel (ex_states ! cvState ex_key)) = 2" by code_simp
  from appendVectors_ok[OF ex_ht_ok(2,1) ex_inputs_ok, of "[]"] obtain ht where
    h: "keyed ht" "num_rows ht = 2" "hashSlotsBlocks ht = []" "numSlotsPerBlockLog2 ht < 63"
    using ex_ht_ok(4-6) c by auto
  from h(2) have n: "0 < num_rows ht" "num_rows ht < 2 ^ 62" by simp_all
  from finalize_match_correct[OF h(1) n h(3,4), of "InternalID 9 1" 4 0] h(2) show ?thesis by blast
qed

end
