(* ===== verification/IntersectMultiwayOp.thy ===== *)
theory IntersectMultiwayOp
  imports MultiwayIntersect JoinChains
begin

text \<open>
  The multiway intersection operator
  (\<open>processor/operator/intersect/intersect_multiway.cpp\<close>, \<open>intersect_multiway.h\<close>): probing the hash
  tables of the left-side nodes, the order of the intersections, and the loop that emits the
  Cartesian product of the cached results chunk by chunk.

  The neighbour lists of all hash tables live in one heap of overflow lists, which the sorting step
  updates in place. The first cached result vector of a right-side node shares its data chunk state with the
  output vector of the node: the selected size of the output vector is the size of that cached vector. The child operator is
  the list of the key tuples it will still deliver. Two calls of \<open>std::sort\<close> are parameters: \<open>srtIds\<close>
  sorts identifiers by offset and \<open>srtOrder\<close> sorts node indices by a cardinality; the order of equal
  elements is not specified.
\<close>

section \<open>The connections of the nodes\<close>

text \<open>The offset of a missing connection is \<open>-1u\<close> in 32 bits.\<close>

definition MINUS_ONE_U :: "32 word" where
  "MINUS_ONE_U = - 1"

record IntersectMultiwayDataInfo =
  connectivity :: "bool list list"
  keyOffsetInTuple :: "32 word list list"
  left2right_idx :: "nat list list"
  right2left_idx :: "nat list list"

text \<open>
  The constructor with its assertions. A payload position is a pair of data chunk and vector index;
  payloads are asserted to be absent.
\<close>

definition connect_left ::
  "nat \<Rightarrow> bool list \<Rightarrow> 32 word list \<Rightarrow> (nat \<times> nat) list list \<Rightarrow> nat list list \<Rightarrow> nat list option" where
  "connect_left numRight conn offs dataPos colRange =
     do { ku_assert (length conn = numRight);
          ku_assert (length dataPos = numRight);
          ku_assert (length colRange = numRight);
          ku_assert (length offs = numRight);
          (l2r, non_empty_count) \<leftarrow> foldM (\<lambda>(l2r, non_empty_count) j.
            do { ku_assert (length (dataPos ! j) = length (colRange ! j));
                 if conn ! j
                 then do { ku_assert (offs ! j \<noteq> MINUS_ONE_U);
                           ku_assert (dataPos ! j = []);
                           ku_assert (list_all (\<lambda>col. col > 2) (colRange ! j));
                           Some (l2r @ [j], non_empty_count + 1) }
                 else do { ku_assert (offs ! j = MINUS_ONE_U);
                           ku_assert (dataPos ! j = []);
                           ku_assert (colRange ! j = []);
                           Some (l2r, non_empty_count) } }) ([], 0 :: nat) [0..<numRight];
          ku_assert (non_empty_count \<ge> 2);
          Some l2r }"

definition connect_right :: "nat \<Rightarrow> bool list list \<Rightarrow> nat \<Rightarrow> nat list option" where
  "connect_right numLeft conn j =
     (let (r2l, non_empty_count) =
            foldl (\<lambda>(r2l, non_empty_count) i. if conn ! i ! j then (r2l @ [i], non_empty_count + 1) else (r2l, non_empty_count))
              ([], 0 :: nat) [0..<numLeft]
      in do { ku_assert (non_empty_count \<ge> 2); Some r2l })"

definition new_IntersectMultiwayDataInfo ::
  "(nat \<times> nat) list \<Rightarrow> (nat \<times> nat) list \<Rightarrow> bool list list \<Rightarrow> 32 word list list \<Rightarrow> (nat \<times> nat) list list list \<Rightarrow>
   nat list list list \<Rightarrow> IntersectMultiwayDataInfo option" where
  "new_IntersectMultiwayDataInfo keyDataPos outputDataPos conn offs dataPos colRange =
     (let numLeft = length keyDataPos; numRight = length outputDataPos in
      do { ku_assert (numLeft \<ge> 2);
           ku_assert (numRight \<ge> 2);
           ku_assert (length conn = numLeft);
           ku_assert (length dataPos = numLeft);
           ku_assert (length colRange = numLeft);
           ku_assert (length offs = numLeft);
           l2r \<leftarrow> foldM (\<lambda>l2r i. do { js \<leftarrow> connect_left numRight (conn ! i) (offs ! i) (dataPos ! i) (colRange ! i);
                                       Some (l2r @ [js]) }) [] [0..<numLeft];
           r2l \<leftarrow> foldM (\<lambda>r2l j. do { is \<leftarrow> connect_right numLeft conn j; Some (r2l @ [is]) }) [] [0..<numRight];
           Some \<lparr>connectivity = conn, keyOffsetInTuple = offs, left2right_idx = l2r, right2left_idx = r2l\<rparr> })"

definition hasConnection :: "IntersectMultiwayDataInfo \<Rightarrow> nat \<Rightarrow> nat \<Rightarrow> bool" where
  "hasConnection info i j = connectivity info ! i ! j"

abbreviation numLeftNodes :: "IntersectMultiwayDataInfo \<Rightarrow> nat" where
  "numLeftNodes info \<equiv> length (left2right_idx info)"

abbreviation numRightNodes :: "IntersectMultiwayDataInfo \<Rightarrow> nat" where
  "numRightNodes info \<equiv> length (right2left_idx info)"

section \<open>The state of the operator\<close>

type_synonym overflow_value = "nat \<times> nat"

record IntersectMultiway =
  probedIds :: "overflow_value list list list"
  cachedIntersectionResults :: "id_vector list list"
  outData :: "nodeID list list"
  tuple_cursors :: "nat list"
  loopFinished :: bool
  dynamic_order :: "nat list"

text \<open>The size of an output vector is the size in the state it shares with the first cached vector.\<close>

definition out_vector :: "IntersectMultiway \<Rightarrow> nat \<Rightarrow> nodeID list" where
  "out_vector op j = take (selSize (cachedIntersectionResults op ! j ! 0)) (outData op ! j)"

definition initLocalState :: "nat \<Rightarrow> IntersectMultiwayDataInfo \<Rightarrow> IntersectMultiway" where
  "initLocalState cap info =
     \<lparr>probedIds = replicate (numLeftNodes info) (replicate (numRightNodes info) []),
      cachedIntersectionResults = replicate (numRightNodes info) [new_vector cap],
      outData = replicate (numRightNodes info) (replicate cap default_internalID),
      tuple_cursors = replicate (numRightNodes info) 0,
      loopFinished = True,
      dynamic_order = [0..<numRightNodes info]\<rparr>"

section \<open>The loop over the cached chunks\<close>

definition fill_output_vector_with_cache :: "nat \<Rightarrow> nat \<Rightarrow> IntersectMultiway \<Rightarrow> IntersectMultiway option" where
  "fill_output_vector_with_cache j k op =
     do { ku_assert (j < length (cachedIntersectionResults op) \<and> k < length (cachedIntersectionResults op ! j));
          let v = cachedIntersectionResults op ! j ! k;
          let n = selSize v;
          let data = take n (vdata v) @ drop n (outData op ! j);
          let cache = cachedIntersectionResults op ! j;
          Some (op\<lparr>outData := (outData op)[j := data],
                   cachedIntersectionResults := (cachedIntersectionResults op)[j := cache[0 := (cache ! 0)\<lparr>selSize := n\<rparr>]]\<rparr>) }"

definition loop_reset :: "IntersectMultiway \<Rightarrow> IntersectMultiway option" where
  "loop_reset op =
     foldM (\<lambda>op j. fill_output_vector_with_cache j 0 op)
       (op\<lparr>tuple_cursors := map (\<lambda>_. 0) (tuple_cursors op), loopFinished := False\<rparr>) [0..<length (tuple_cursors op)]"

definition cursorFinished :: "IntersectMultiway \<Rightarrow> nat \<Rightarrow> bool" where
  "cursorFinished op j =
     (let k = tuple_cursors op ! j; cache = cachedIntersectionResults op ! j
      in k \<ge> length cache \<or> selSize (cache ! k) = 0)"

text \<open>\<open>gotoNext\<close> advances the cursors like the digits of a counter, the first one fastest.\<close>

fun advance_cursors :: "nat \<Rightarrow> nat list \<Rightarrow> IntersectMultiway \<Rightarrow> IntersectMultiway option" where
  "advance_cursors n [] op = Some op"
| "advance_cursors n (j # js) op =
     (let op1 = op\<lparr>tuple_cursors := (tuple_cursors op)[j := tuple_cursors op ! j + 1]\<rparr> in
      if cursorFinished op1 j then
        (if j + 1 < n then
           do { op2 \<leftarrow> (if tuple_cursors op1 ! j \<noteq> 1 then fill_output_vector_with_cache j 0 op1 else Some op1);
                advance_cursors n js (op2\<lparr>tuple_cursors := (tuple_cursors op2)[j := 0]\<rparr>) }
         else advance_cursors n js (op1\<lparr>loopFinished := True\<rparr>))
      else fill_output_vector_with_cache j (tuple_cursors op1 ! j) op1)"

definition loop_gotoNext :: "IntersectMultiway \<Rightarrow> IntersectMultiway option" where
  "loop_gotoNext op =
     do { ku_assert (\<not> loopFinished op);
          advance_cursors (length (tuple_cursors op)) [0..<length (tuple_cursors op)] op }"

section \<open>Probing\<close>

text \<open>The overflow value at a byte offset of a row.\<close>

definition cell_at_offset :: "FactorizedTableSchema \<Rightarrow> ht_val row \<Rightarrow> 32 word \<Rightarrow> overflow_value option" where
  "cell_at_offset s r off =
     (case filter (\<lambda>c. colOffsets s ! c = unat off) [0..<length (columns s)] of
        [] \<Rightarrow> None
      | c # _ \<Rightarrow> (case fst r ! c of Overflow n a \<Rightarrow> Some (n, a) | _ \<Rightarrow> None))"

text \<open>The lists of one matching row are appended to those of their right-side nodes, empty ones skipped.\<close>

definition push_tuple ::
  "FactorizedTableSchema \<Rightarrow> nat list \<Rightarrow> 32 word list \<Rightarrow> ht_val row \<Rightarrow> overflow_value list list \<Rightarrow> overflow_value list list option" where
  "push_tuple s js offs r probed =
     foldM (\<lambda>probed j. do { (n, a) \<leftarrow> cell_at_offset s r (offs ! j);
                            Some (if n = 0 then probed else probed[j := probed ! j @ [(n, a)]]) }) probed js"

text \<open>A tuple starts with its key.\<close>

definition tuple_key :: "ht_val row \<Rightarrow> nodeID option" where
  "tuple_key r = (case fst r ! 0 of Value (IdVal k) \<Rightarrow> Some k | _ \<Rightarrow> None)"

definition visit_tuple ::
  "JoinHashTable \<Rightarrow> nat list \<Rightarrow> 32 word list \<Rightarrow> nodeID \<Rightarrow> tuple_ptr \<Rightarrow> overflow_value list list \<times> bool \<Rightarrow> (overflow_value list list \<times> bool) option" where
  "visit_tuple ht js offs key p = (\<lambda>(probed, has_match).
     do { r \<leftarrow> row_at (flatTupleBlockCollection (factorizedTable ht)) p;
          k \<leftarrow> tuple_key r;
          if id_eq k key
          then do { probed' \<leftarrow> push_tuple (tableSchema (factorizedTable ht)) js offs r probed; Some (probed', True) }
          else Some (probed, has_match) })"

partial_function (option) walk_tuples ::
  "JoinHashTable \<Rightarrow> nat list \<Rightarrow> 32 word list \<Rightarrow> nodeID \<Rightarrow> tuple_ptr option \<Rightarrow> overflow_value list list \<times> bool \<Rightarrow>
   (overflow_value list list \<times> bool) option" where
  "walk_tuples ht js offs key p st =
     (case p of
        None \<Rightarrow> Some st
      | Some x \<Rightarrow> Option.bind (visit_tuple ht js offs key x st) (\<lambda>st'.
                   Option.bind (getPrevTuple ht x) (\<lambda>q. walk_tuples ht js offs key q st')))"

declare walk_tuples.simps [code]

text \<open>The loop that swaps the ends of a list, up to its middle.\<close>

definition swap_ends :: "'a list \<Rightarrow> 'a list" where
  "swap_ends xs =
     foldl (\<lambda>xs k. xs[k := xs ! (length xs - 1 - k), length xs - 1 - k := xs ! k]) xs [0..<length xs div 2]"

fun reverse_probed :: "nat list \<Rightarrow> overflow_value list list \<Rightarrow> overflow_value list list \<times> bool" where
  "reverse_probed [] probed = (probed, True)"
| "reverse_probed (j # js) probed =
     (if probed ! j = [] then (probed, False) else reverse_probed js (probed[j := swap_ends (probed ! j)]))"

definition probe_left ::
  "IntersectMultiwayDataInfo \<Rightarrow> JoinHashTable \<Rightarrow> nat \<Rightarrow> nodeID \<Rightarrow> (overflow_value list list \<times> bool) option" where
  "probe_left info ht i key =
     (let js = left2right_idx info ! i; cleared = replicate (numRightNodes info) [] in
      if ft_numTuples (factorizedTable ht) = 0 then Some (cleared, False)
      else do { p \<leftarrow> getTupleForHash ht (Hash_internalID key);
                (probed, has_match) \<leftarrow> walk_tuples ht js (keyOffsetInTuple info ! i) key p (cleared, False);
                let (probed', ok) = reverse_probed js probed;
                Some (probed', ok \<and> has_match) })"

text \<open>\<open>probeHTs\<close> stops at the first left-side node without a match.\<close>

fun probe_all ::
  "IntersectMultiwayDataInfo \<Rightarrow> JoinHashTable list \<Rightarrow> nodeID list \<Rightarrow> nat list \<Rightarrow> IntersectMultiway \<Rightarrow> (IntersectMultiway \<times> bool) option" where
  "probe_all info hts keys [] op = Some (op, True)"
| "probe_all info hts keys (i # is) op =
     do { (probed, ok) \<leftarrow> probe_left info (hts ! i) i (keys ! i);
          let op' = op\<lparr>probedIds := (probedIds op)[i := probed]\<rparr>;
          if ok then probe_all info hts keys is op' else Some (op', False) }"

definition probeHTs ::
  "IntersectMultiwayDataInfo \<Rightarrow> JoinHashTable list \<Rightarrow> nodeID list \<Rightarrow> IntersectMultiway \<Rightarrow> (IntersectMultiway \<times> bool) option" where
  "probeHTs info hts keys op = probe_all info hts keys [0..<numLeftNodes info] op"

section \<open>Intersecting\<close>

definition ids_of :: "ht_val option list \<Rightarrow> nodeID list" where
  "ids_of xs = map (\<lambda>x. case x of Some (IdVal i) \<Rightarrow> i | _ \<Rightarrow> default_internalID) xs"

definition read_list :: "ht_val overflow_heap \<Rightarrow> overflow_value \<Rightarrow> nodeID list" where
  "read_list heap = (\<lambda>(n, a). ids_of (take n (heap ! a)))"

definition sort_list ::
  "(nodeID list \<Rightarrow> nodeID list) \<Rightarrow> ht_val overflow_heap \<Rightarrow> overflow_value \<Rightarrow> ht_val overflow_heap" where
  "sort_list srtIds heap = (\<lambda>(n, a).
     heap[a := map (\<lambda>i. Some (IdVal i)) (srtIds (ids_of (take n (heap ! a)))) @ drop n (heap ! a)])"

definition sort_column ::
  "(nodeID list \<Rightarrow> nodeID list) \<Rightarrow> overflow_value list list list \<Rightarrow> nat \<Rightarrow> nat \<Rightarrow> ht_val overflow_heap \<Rightarrow> ht_val overflow_heap" where
  "sort_column srtIds probed numLeft d heap =
     foldl (\<lambda>heap i. foldl (sort_list srtIds) heap (probed ! i ! d)) heap [0..<numLeft]"

text \<open>The products of the numbers of probed identifiers, on 64-bit words.\<close>

definition card_prod :: "IntersectMultiwayDataInfo \<Rightarrow> overflow_value list list list \<Rightarrow> nat \<Rightarrow> 64 word" where
  "card_prod info probed j =
     foldl (\<lambda>p i. p * foldl (\<lambda>s (n, a). s + of_nat n) 0 (probed ! i ! j)) 1 (right2left_idx info ! j)"

definition choose_order ::
  "bool \<Rightarrow> ((nat \<Rightarrow> 64 word) \<Rightarrow> nat list \<Rightarrow> nat list) \<Rightarrow> IntersectMultiwayDataInfo \<Rightarrow> IntersectMultiway \<Rightarrow> IntersectMultiway" where
  "choose_order enable_dynamic_order srtOrder info op =
     (if enable_dynamic_order
      then op\<lparr>dynamic_order := srtOrder (card_prod info (probedIds op)) [0..<numRightNodes info]\<rparr>
      else op)"

text \<open>The loop over the right-side nodes, up to the first empty intersection.\<close>

fun intersect_all ::
  "nat \<Rightarrow> (nodeID list \<Rightarrow> nodeID list) \<Rightarrow> IntersectMultiwayDataInfo \<Rightarrow> nat list \<Rightarrow> ht_val overflow_heap \<times> IntersectMultiway \<Rightarrow>
   ((ht_val overflow_heap \<times> IntersectMultiway) \<times> bool) option" where
  "intersect_all cap srtIds info [] st = Some (st, False)"
| "intersect_all cap srtIds info (d # ds) st =
     (let (heap, op) = st;
          heap' = sort_column srtIds (probedIds op) (numLeftNodes info) d heap;
          lists = map (\<lambda>i. map (read_list heap') (probedIds op ! i ! d)) (right2left_idx info ! d)
      in do { (cache, e) \<leftarrow> multiway_intersect_on_sorted_tuples cap lists (cachedIntersectionResults op ! d);
              let op' = op\<lparr>cachedIntersectionResults := (cachedIntersectionResults op)[d := cache]\<rparr>;
              if e then Some ((heap', op'), True) else intersect_all cap srtIds info ds (heap', op') })"

text \<open>
  \<open>getNextTuplesInternal\<close>: with the child exhausted it reports false; otherwise it emits the chunk the
  loop state stands at. Both inner loops consume the tuples of the child.
\<close>

fun fetch_tuples ::
  "nat \<Rightarrow> bool \<Rightarrow> ((nat \<Rightarrow> 64 word) \<Rightarrow> nat list \<Rightarrow> nat list) \<Rightarrow> (nodeID list \<Rightarrow> nodeID list) \<Rightarrow> IntersectMultiwayDataInfo \<Rightarrow>
   JoinHashTable list \<Rightarrow> nodeID list list \<Rightarrow> ht_val overflow_heap \<times> IntersectMultiway \<Rightarrow>
   (bool \<times> nodeID list list \<times> ht_val overflow_heap \<times> IntersectMultiway) option" where
  "fetch_tuples cap dyn srtOrder srtIds info hts [] (heap, op) = Some (False, [], heap, op)"
| "fetch_tuples cap dyn srtOrder srtIds info hts (keys # child) (heap, op) =
     do { (op1, ok) \<leftarrow> probeHTs info hts keys op;
          if \<not> ok then fetch_tuples cap dyn srtOrder srtIds info hts child (heap, op1)
          else do { let op2 = choose_order dyn srtOrder info op1;
                    ((heap', op3), has_empty) \<leftarrow> intersect_all cap srtIds info (dynamic_order op2) (heap, op2);
                    if has_empty then fetch_tuples cap dyn srtOrder srtIds info hts child (heap', op3)
                    else do { op4 \<leftarrow> loop_reset op3; Some (True, child, heap', op4) } } }"

definition getNextTuplesInternal ::
  "nat \<Rightarrow> bool \<Rightarrow> ((nat \<Rightarrow> 64 word) \<Rightarrow> nat list \<Rightarrow> nat list) \<Rightarrow> (nodeID list \<Rightarrow> nodeID list) \<Rightarrow> IntersectMultiwayDataInfo \<Rightarrow>
   JoinHashTable list \<Rightarrow> nodeID list list \<Rightarrow> ht_val overflow_heap \<times> IntersectMultiway \<Rightarrow>
   (bool \<times> nodeID list list \<times> ht_val overflow_heap \<times> IntersectMultiway) option" where
  "getNextTuplesInternal cap dyn srtOrder srtIds info hts child = (\<lambda>(heap, op).
     do { op1 \<leftarrow> (if \<not> loopFinished op then loop_gotoNext op else Some op);
          if loopFinished op1 then fetch_tuples cap dyn srtOrder srtIds info hts child (heap, op1)
          else Some (True, child, heap, op1) })"

section \<open>The connections\<close>

lemma foldM_collect:
  "foldM (\<lambda>acc x. do { y \<leftarrow> f x; Some (acc @ [y]) }) acc xs =
     (if \<forall>x\<in>set xs. f x \<noteq> None then Some (acc @ map (\<lambda>x. the (f x)) xs) else None)"
  by (induction xs arbitrary: acc) (auto split: Option.bind_splits)

lemma foldM_guarded:
  "foldM (\<lambda>acc x. if ok x then Some (upd acc x) else None) acc xs = (if \<forall>x\<in>set xs. ok x then Some (foldl upd acc xs) else None)"
  by (induction xs arbitrary: acc) auto

lemma foldl_push:
  "foldl (\<lambda>(ys, n) x. if P x then (ys @ [x], n + 1) else (ys, n)) (ys, n :: nat) xs = (ys @ filter P xs, n + length (filter P xs))"
  by (induction xs arbitrary: ys n) auto

text \<open>
  The arguments the constructor accepts: matrices of the two numbers of nodes, an offset for every
  connection and only for those, no payloads, and at least two connections for every node.
\<close>

definition left_ok :: "nat \<Rightarrow> bool list \<Rightarrow> 32 word list \<Rightarrow> (nat \<times> nat) list list \<Rightarrow> nat list list \<Rightarrow> bool" where
  "left_ok numRight conn offs dataPos colRange \<longleftrightarrow>
     length conn = numRight \<and> length dataPos = numRight \<and> length colRange = numRight \<and> length offs = numRight \<and>
     (\<forall>j < numRight. dataPos ! j = [] \<and> colRange ! j = [] \<and> (conn ! j \<longleftrightarrow> offs ! j \<noteq> MINUS_ONE_U)) \<and>
     2 \<le> card {j. j < numRight \<and> conn ! j}"

definition info_args_ok ::
  "(nat \<times> nat) list \<Rightarrow> (nat \<times> nat) list \<Rightarrow> bool list list \<Rightarrow> 32 word list list \<Rightarrow> (nat \<times> nat) list list list \<Rightarrow>
   nat list list list \<Rightarrow> bool" where
  "info_args_ok keyDataPos outputDataPos conn offs dataPos colRange \<longleftrightarrow>
     2 \<le> length keyDataPos \<and> 2 \<le> length outputDataPos \<and> length conn = length keyDataPos \<and>
     length dataPos = length keyDataPos \<and> length colRange = length keyDataPos \<and> length offs = length keyDataPos \<and>
     (\<forall>i < length keyDataPos. left_ok (length outputDataPos) (conn ! i) (offs ! i) (dataPos ! i) (colRange ! i)) \<and>
     (\<forall>j < length outputDataPos. 2 \<le> card {i. i < length keyDataPos \<and> conn ! i ! j})"

lemma length_filter_upt: "length (filter P [0..<n]) = card {i. i < n \<and> P i}"
proof -
  have "{i. i < length [0..<n] \<and> P ([0..<n] ! i)} = {i. i < n \<and> P i}" by auto
  then show ?thesis by (simp only: length_filter_conv_card)
qed

lemma connect_left_eq:
  "connect_left numRight conn offs dataPos colRange =
     (if left_ok numRight conn offs dataPos colRange then Some (filter (\<lambda>j. conn ! j) [0..<numRight]) else None)"
proof -
  let ?ok = "\<lambda>j. dataPos ! j = [] \<and> colRange ! j = [] \<and> (conn ! j \<longleftrightarrow> offs ! j \<noteq> MINUS_ONE_U)"
  have "(\<lambda>(l2r, non_empty_count) j. do { ku_assert (length (dataPos ! j) = length (colRange ! j));
                 if conn ! j
                 then do { ku_assert (offs ! j \<noteq> MINUS_ONE_U);
                           ku_assert (dataPos ! j = []);
                           ku_assert (list_all (\<lambda>col. col > 2) (colRange ! j));
                           Some (l2r @ [j], non_empty_count + 1) }
                 else do { ku_assert (offs ! j = MINUS_ONE_U);
                           ku_assert (dataPos ! j = []);
                           ku_assert (colRange ! j = []);
                           Some (l2r, non_empty_count) } }) =
      (\<lambda>st j. if ?ok j then Some ((\<lambda>(ys, n) x. if conn ! x then (ys @ [x], n + 1) else (ys, n)) st j) else None)"
    by (intro ext) (auto simp: ku_assert_def split: prod.splits)
  note step = this
  show ?thesis unfolding connect_left_def step foldM_guarded foldl_push
    by (auto simp: length_filter_upt left_ok_def ku_assert_def)
qed

lemma connect_right_eq:
  "connect_right numLeft conn j =
     (if 2 \<le> card {i. i < numLeft \<and> conn ! i ! j} then Some (filter (\<lambda>i. conn ! i ! j) [0..<numLeft]) else None)"
  by (simp add: connect_right_def foldl_push length_filter_upt)

lemma new_data_info_eq:
  "new_IntersectMultiwayDataInfo keyDataPos outputDataPos conn offs dataPos colRange =
     (if info_args_ok keyDataPos outputDataPos conn offs dataPos colRange
      then Some \<lparr>connectivity = conn, keyOffsetInTuple = offs,
        left2right_idx = map (\<lambda>i. filter (\<lambda>j. conn ! i ! j) [0..<length outputDataPos]) [0..<length keyDataPos],
        right2left_idx = map (\<lambda>j. filter (\<lambda>i. conn ! i ! j) [0..<length keyDataPos]) [0..<length outputDataPos]\<rparr>
      else None)"
proof -
  have l: "(\<forall>i\<in>set [0..<length keyDataPos]. connect_left (length outputDataPos) (conn ! i) (offs ! i) (dataPos ! i) (colRange ! i) \<noteq> None) \<longleftrightarrow>
      (\<forall>i < length keyDataPos. left_ok (length outputDataPos) (conn ! i) (offs ! i) (dataPos ! i) (colRange ! i))"
    by (auto simp: connect_left_eq)
  have r: "(\<forall>j\<in>set [0..<length outputDataPos]. connect_right (length keyDataPos) conn j \<noteq> None) \<longleftrightarrow>
      (\<forall>j < length outputDataPos. 2 \<le> card {i. i < length keyDataPos \<and> conn ! i ! j})"
    by (auto simp: connect_right_eq)
  show ?thesis
  proof (cases "info_args_ok keyDataPos outputDataPos conn offs dataPos colRange")
    case True
    then have "\<forall>i < length keyDataPos. left_ok (length outputDataPos) (conn ! i) (offs ! i) (dataPos ! i) (colRange ! i)"
      "\<forall>j < length outputDataPos. 2 \<le> card {i. i < length keyDataPos \<and> conn ! i ! j}" by (auto simp: info_args_ok_def)
    with True show ?thesis unfolding new_IntersectMultiwayDataInfo_def Let_def foldM_collect l r
      by (auto simp: info_args_ok_def connect_left_eq connect_right_eq intro!: map_cong)
  next
    case False
    then show ?thesis unfolding new_IntersectMultiwayDataInfo_def Let_def foldM_collect l r
      by (auto simp: info_args_ok_def ku_assert_def)
  qed
qed

text \<open>
  C10: The constructor of \<open>IntersectMultiwayDataInfo\<close> trips an assertion exactly on malformed arguments: matrices
  of the wrong size, a missing or superfluous offset, payloads, or a node with fewer than two connections.
  Otherwise its two index tables describe the connectivity matrix from both sides: they have one list per
  node, in strictly ascending order, and each is the transpose of the other.
\<close>

theorem data_info_consistent:
  "case new_IntersectMultiwayDataInfo keyDataPos outputDataPos conn offs dataPos colRange of
     None \<Rightarrow> \<not> info_args_ok keyDataPos outputDataPos conn offs dataPos colRange
   | Some info \<Rightarrow> info_args_ok keyDataPos outputDataPos conn offs dataPos colRange \<and>
       numLeftNodes info = length keyDataPos \<and> numRightNodes info = length outputDataPos \<and>
       (\<forall>i < numLeftNodes info. sorted_wrt (<) (left2right_idx info ! i) \<and> set (left2right_idx info ! i) \<subseteq> {..<numRightNodes info}) \<and>
       (\<forall>j < numRightNodes info. sorted_wrt (<) (right2left_idx info ! j) \<and> set (right2left_idx info ! j) \<subseteq> {..<numLeftNodes info}) \<and>
       (\<forall>i < numLeftNodes info. \<forall>j < numRightNodes info.
          (j \<in> set (left2right_idx info ! i) \<longleftrightarrow> conn ! i ! j) \<and> (i \<in> set (right2left_idx info ! j) \<longleftrightarrow> conn ! i ! j) \<and>
          hasConnection info i j = conn ! i ! j)"
proof -
  have "sorted_wrt (<) (filter P [0..<n])" for P n by (simp add: sorted_wrt_filter)
  then show ?thesis unfolding new_data_info_eq by (auto simp: hasConnection_def)
qed

theorem data_info_consistent_witness:
  "\<exists>info. new_IntersectMultiwayDataInfo [(0,0),(1,0)] [(2,0),(3,0),(4,0)] [[True,True,True],[True,True,True]]
      [[16,32,48],[16,32,48]] [[[],[],[]],[[],[],[]]] [[[],[],[]],[[],[],[]]] = Some info \<and>
     2 \<in> set (left2right_idx info ! 0) \<and> 0 \<in> set (right2left_idx info ! 2)"
proof -
  let ?new = "new_IntersectMultiwayDataInfo [(0,0),(1,0)] [(2,0),(3,0),(4,0)] [[True,True,True],[True,True,True]]
      [[16,32,48],[16,32,48]] [[[],[],[]],[[],[],[]]] [[[],[],[]],[[],[],[]]]"
  have "?new \<noteq> None" by code_simp
  then obtain info where i: "?new = Some info" by blast
  have "numLeftNodes info = 2" "numRightNodes info = 3" "\<forall>i < 2. \<forall>j < 3. (j \<in> set (left2right_idx info ! i) \<longleftrightarrow> [[True,True,True],[True,True,True]] ! i ! j) \<and>
      (i \<in> set (right2left_idx info ! j) \<longleftrightarrow> [[True,True,True],[True,True,True]] ! i ! j)"
    using data_info_consistent[of "[(0,0),(1,0)]" "[(2,0),(3,0),(4,0)]" "[[True,True,True],[True,True,True]]"
      "[[16,32,48],[16,32,48]]" "[[[],[],[]],[[],[],[]]]" "[[[],[],[]],[[],[],[]]]"] unfolding i by simp_all
  then show ?thesis using i by simp
qed

section \<open>What probing finds\<close>

lemma swap_ends_rev: "swap_ends xs = rev xs"
proof -
  let ?n = "length xs" and ?f = "\<lambda>xs k. xs[k := xs ! (length xs - 1 - k), length xs - 1 - k := xs ! k]"
  have inv: "length (foldl ?f xs [0..<k]) = ?n \<and>
    (\<forall>i < ?n. foldl ?f xs [0..<k] ! i = (if i < k \<or> ?n - 1 - k < i then xs ! (?n - 1 - i) else xs ! i))" if "k \<le> ?n div 2" for k
    using that
  proof (induction k)
    case (Suc k)
    let ?ys = "foldl ?f xs [0..<k]"
    have len: "length ?ys = ?n" and nth: "\<And>i. i < ?n \<Longrightarrow> ?ys ! i = (if i < k \<or> ?n - 1 - k < i then xs ! (?n - 1 - i) else xs ! i)"
      using Suc by auto
    have k: "k < ?n - 1 - k" "?n - 1 - k < ?n" using Suc.prems by linarith+
    have yk: "?ys ! k = xs ! k" "?ys ! (?n - 1 - k) = xs ! (?n - 1 - k)" using nth[of k] nth[of "?n - 1 - k"] k by auto
    have "?f ?ys k ! i = (if i < Suc k \<or> ?n - 1 - Suc k < i then xs ! (?n - 1 - i) else xs ! i)" if i: "i < ?n" for i
    proof -
      consider "i = k" | "i = ?n - 1 - k" | "i \<noteq> k" "i \<noteq> ?n - 1 - k" by blast
      then show ?thesis
      proof cases
        case 1
        then show ?thesis using yk k len by (simp add: nth_update_if)
      next
        case 2
        then have "?n - 1 - i = k" "?n - 1 - Suc k < i" using k by linarith+
        with 2 show ?thesis using yk k len by (simp add: nth_update_if)
      next
        case 3
        then have "(i < Suc k \<or> ?n - 1 - Suc k < i) = (i < k \<or> ?n - 1 - k < i)" using k by linarith
        with 3 show ?thesis using nth[OF i] len by (simp add: nth_update_if)
      qed
    qed
    with len show ?case by simp
  qed auto
  have "swap_ends xs ! i = rev xs ! i" if "i < ?n" for i
  proof (cases "i < ?n div 2 \<or> ?n - 1 - ?n div 2 < i")
    case True
    then show ?thesis using inv[of "?n div 2"] that by (simp add: swap_ends_def rev_nth)
  next
    case False
    then have "?n - Suc i = i" by linarith
    with False show ?thesis using inv[of "?n div 2"] that by (simp add: swap_ends_def rev_nth)
  qed
  moreover have "length (swap_ends xs) = ?n" using inv[of "?n div 2"] by (simp add: swap_ends_def)
  ultimately show ?thesis by (intro nth_equalityI) auto
qed

text \<open>The overflow value of a row for a right-side node, and the lists of all rows with a key.\<close>

definition row_list :: "JoinHashTable \<Rightarrow> 32 word list \<Rightarrow> ht_val row \<Rightarrow> nat \<Rightarrow> overflow_value" where
  "row_list ht offs r j = the (cell_at_offset (tableSchema (factorizedTable ht)) r (offs ! j))"

definition key_lists :: "JoinHashTable \<Rightarrow> 32 word list \<Rightarrow> nodeID \<Rightarrow> nat \<Rightarrow> overflow_value list" where
  "key_lists ht offs key j = filter (\<lambda>(n, a). n \<noteq> 0)
     (map (\<lambda>r. row_list ht offs r j) (filter (\<lambda>r. row_key r = key) (trows (factorizedTable ht))))"

definition lists_readable :: "JoinHashTable \<Rightarrow> 32 word list \<Rightarrow> nat list \<Rightarrow> bool" where
  "lists_readable ht offs js \<longleftrightarrow> (\<forall>r\<in>set (trows (factorizedTable ht)). \<forall>j\<in>set js.
     cell_at_offset (tableSchema (factorizedTable ht)) r (offs ! j) \<noteq> None)"

definition add_row :: "JoinHashTable \<Rightarrow> 32 word list \<Rightarrow> nat list \<Rightarrow> ht_val row \<Rightarrow> overflow_value list list \<Rightarrow> overflow_value list list" where
  "add_row ht offs js r probed =
     foldl (\<lambda>probed j. if fst (row_list ht offs r j) = 0 then probed else probed[j := probed ! j @ [row_list ht offs r j]]) probed js"

lemma push_tuple_row:
  assumes "\<forall>j\<in>set js. cell_at_offset (tableSchema (factorizedTable ht)) r (offs ! j) \<noteq> None"
  shows "push_tuple (tableSchema (factorizedTable ht)) js offs r probed = Some (add_row ht offs js r probed)"
  using assms
proof (induction js arbitrary: probed)
  case (Cons j js)
  then obtain n a where "cell_at_offset (tableSchema (factorizedTable ht)) r (offs ! j) = Some (n, a)" by auto
  with Cons show ?case by (simp add: push_tuple_def add_row_def row_list_def)
qed (simp add: push_tuple_def add_row_def)

lemma add_row_length [simp]: "length (add_row ht offs js r probed) = length probed"
  unfolding add_row_def by (rule foldl_invariant[where I = "\<lambda>x. length x = length probed"]) auto

lemma add_row_nth:
  assumes "distinct js" "j < length probed"
  shows "add_row ht offs js r probed ! j =
    (if j \<in> set js \<and> fst (row_list ht offs r j) \<noteq> 0 then probed ! j @ [row_list ht offs r j] else probed ! j)"
  using assms by (induction js arbitrary: probed) (auto simp: add_row_def nth_update_if)

lemma reverse_probed_ok:
  assumes "distinct js" "\<forall>j\<in>set js. j < length probed"
  shows "snd (reverse_probed js probed) \<longleftrightarrow> (\<forall>j\<in>set js. probed ! j \<noteq> [])"
    and "\<forall>j\<in>set js. probed ! j \<noteq> [] \<Longrightarrow> \<forall>j < length probed.
      fst (reverse_probed js probed) ! j = (if j \<in> set js then rev (probed ! j) else probed ! j)"
  using assms
proof (induction js arbitrary: probed)
  case (Cons j js)
  {
    case 1
    then show ?case using Cons.IH(1)[of "probed[j := swap_ends (probed ! j)]"] by (auto simp: nth_update_if)
  next
    case 2
    have "\<forall>i\<in>set js. probed[j := swap_ends (probed ! j)] ! i \<noteq> []" using 2 by (auto simp: nth_update_if)
    from Cons.IH(2)[OF this] 2 show ?case by (auto simp: nth_update_if swap_ends_rev)
  }
qed auto

lemma probe_left_ok:
  assumes b: "built ht" "keyed ht" and l: "lists_readable ht (keyOffsetInTuple info ! i) (left2right_idx info ! i)"
    and js: "distinct (left2right_idx info ! i)" "\<forall>j\<in>set (left2right_idx info ! i). j < numRightNodes info"
    and ne: "left2right_idx info ! i \<noteq> []"
  shows "\<exists>probed ok. probe_left info ht i key = Some (probed, ok) \<and>
    (ok \<longleftrightarrow> (\<forall>j\<in>set (left2right_idx info ! i). key_lists ht (keyOffsetInTuple info ! i) key j \<noteq> [])) \<and>
    (ok \<longrightarrow> (\<forall>j\<in>set (left2right_idx info ! i). probed ! j = key_lists ht (keyOffsetInTuple info ! i) key j))"
proof -
  let ?js = "left2right_idx info ! i" and ?offs = "keyOffsetInTuple info ! i" and ?t = "factorizedTable ht"
  let ?row = "\<lambda>p. the (row_at (flatTupleBlockCollection ?t) p)"
  let ?f = "\<lambda>p (probed, m). if ptr_key ht p = key then (add_row ht ?offs ?js (?row p) probed, True) else (probed, m)"
  have num: "ft_numTuples ?t = num_rows ht" using b(2) by (simp add: keyed_def hashed_def merged_ok_def)
  have body: "visit_tuple ht ?js ?offs key p st = Some (?f p st)" if p: "p \<in> set (bucket ht (Hash_internalID key))" for p st
  proof -
    from bucket_ptrs[OF p] obtain k where k: "k < num_rows ht" "p = tptr ?t k" by blast
    let ?r = "trows ?t ! k"
    have r: "?r \<in> set (trows ?t)" "row_at (flatTupleBlockCollection ?t) p = Some ?r" "ptr_key ht p = row_key ?r"
      using keyed_row[OF b(2) k(1)] k by auto
    have "tuple_key ?r = Some (row_key ?r)" using b(2) r(1) by (auto simp: keyed_def tuple_key_def)
    moreover have "push_tuple (tableSchema ?t) ?js ?offs ?r probed = Some (add_row ht ?offs ?js ?r probed)" for probed
      using l r(1) by (intro push_tuple_row) (auto simp: lists_readable_def)
    ultimately show ?thesis using r by (cases st) (simp add: visit_tuple_def)
  qed
  let ?clear = "replicate (numRightNodes info) []"
  have "\<exists>p. getTupleForHash ht (Hash_internalID key) = Some p \<and>
    walk_tuples ht ?js ?offs key p (?clear, False) = Some (fold ?f (bucket ht (Hash_internalID key)) (?clear, False))"
    by (rule jht.walk[where run = "walk_tuples ht ?js ?offs key" and body = "visit_tuple ht ?js ?offs key"])
       (use body b(1) in \<open>auto simp: walk_tuples.simps\<close>)
  moreover have "fold ?f xs st = (fold (\<lambda>p. add_row ht ?offs ?js (?row p)) (filter (\<lambda>p. ptr_key ht p = key) xs) (fst st),
      snd st \<or> filter (\<lambda>p. ptr_key ht p = key) xs \<noteq> [])" for xs st
    by (induction xs arbitrary: st) (auto split: prod.splits)
  ultimately obtain p where p: "getTupleForHash ht (Hash_internalID key) = Some p"
    "walk_tuples ht ?js ?offs key p (?clear, False) =
      Some (fold (\<lambda>p. add_row ht ?offs ?js (?row p)) (key_matches ht key) ?clear, key_matches ht key \<noteq> [])"
    using bucket_matches[OF b(2), of key] by auto
  let ?idx = "filter (\<lambda>k. row_key (trows ?t ! k) = key) [0..<num_rows ht]"
  have rowk: "?row (tptr ?t k) = trows ?t ! k" if "k < num_rows ht" for k using keyed_row(1)[OF b(2) that] by simp
  define P where "P = fold (\<lambda>p. add_row ht ?offs ?js (?row p)) (key_matches ht key) ?clear"
  have fold_nth: "fold (\<lambda>p. add_row ht ?offs ?js (?row p)) (map (tptr ?t) ks) probed ! j =
      probed ! j @ filter (\<lambda>(n, a). n \<noteq> 0) (map (\<lambda>k. row_list ht ?offs (trows ?t ! k) j) ks) \<and>
      length (fold (\<lambda>p. add_row ht ?offs ?js (?row p)) (map (tptr ?t) ks) probed) = length probed"
    if "j \<in> set ?js" "j < length probed" "set ks \<subseteq> {0..<num_rows ht}" for ks probed j
    using that
  proof (induction ks arbitrary: probed)
    case (Cons k ks)
    then show ?case using add_row_nth[OF js(1), of j probed ht ?offs "trows ?t ! k"] rowk[of k]
      by (auto simp: case_prod_beta)
  qed simp
  have rows_idx: "map (\<lambda>k. row_list ht ?offs (trows ?t ! k) j) ?idx =
      map (\<lambda>r. row_list ht ?offs r j) (filter (\<lambda>r. row_key r = key) (trows ?t))" for j
  proof -
    have "filter (\<lambda>r. row_key r = key) (trows ?t) = filter (\<lambda>r. row_key r = key) (map (\<lambda>k. trows ?t ! k) [0..<num_rows ht])"
      by (simp only: map_nth)
    also have "\<dots> = map (\<lambda>k. trows ?t ! k) ?idx" by (simp add: filter_map comp_def)
    finally show ?thesis by simp
  qed
  have sub: "set (rev ?idx) \<subseteq> {0..<num_rows ht}" by auto
  have Pj: "P ! j = rev (key_lists ht ?offs key j)" if "j \<in> set ?js" for j
    using fold_nth[OF _ _ sub, of j ?clear] that js(2) rows_idx[of j]
    by (simp add: P_def key_matches_def key_lists_def rev_map [symmetric] rev_filter [symmetric])
  have Plen: "length P = numRightNodes info"
  proof -
    obtain j where "j \<in> set ?js" using ne by (cases ?js) auto
    with fold_nth[OF _ _ sub, of j ?clear] js(2) show ?thesis by (simp add: P_def key_matches_def)
  qed
  have jl: "\<forall>j\<in>set ?js. j < length P" using js(2) Plen by simp
  have some: "key_matches ht key \<noteq> []" if "j \<in> set ?js" "key_lists ht ?offs key j \<noteq> []" for j
    using that rows_idx[of j] by (auto simp: key_lists_def key_matches_def)
  have nz: "0 < num_rows ht" if "j \<in> set ?js" "key_lists ht ?offs key j \<noteq> []" for j
    using that by (cases "trows ?t") (auto simp: key_lists_def)
  show ?thesis
  proof (cases "num_rows ht = 0")
    case True
    then have "key_lists ht ?offs key j = []" for j by (simp add: key_lists_def)
    with True num ne show ?thesis by (auto simp: probe_left_def Let_def)
  next
    case False
    obtain P' ok where R: "reverse_probed ?js P = (P', ok)" by (cases "reverse_probed ?js P")
    have ok: "ok \<longleftrightarrow> (\<forall>j\<in>set ?js. key_lists ht ?offs key j \<noteq> [])"
      using reverse_probed_ok(1)[OF js(1) jl] R Pj by auto
    have "P' ! j = key_lists ht ?offs key j" if "ok" "j \<in> set ?js" for j
    proof -
      have "\<forall>j\<in>set ?js. P ! j \<noteq> []" using ok Pj that(1) by auto
      from reverse_probed_ok(2)[OF js(1) jl this] that(2) jl R Pj[OF that(2)] show ?thesis by auto
    qed
    moreover have "ok \<Longrightarrow> key_matches ht key \<noteq> []" using ok some ne by (cases ?js) auto
    ultimately show ?thesis using p R False num ok
      by (auto simp: probe_left_def Let_def P_def [symmetric])
  qed
qed

end
