(* ===== verification/IntersectMultiwayLoop.thy ===== *)
theory IntersectMultiwayLoop
  imports IntersectMultiwayOp
begin

text \<open>
  What the loop state of the multiway intersection emits. When at most one right-side node has a
  result of several chunks, the loop emits every chunk of it together with the results of the other
  nodes and then finishes. When two nodes have several chunks, the state that the output vector
  shares with the first chunk makes the loop truncate that chunk.
\<close>

section \<open>Emitting the chunks of one node\<close>

text \<open>A cache with \<open>m\<close> chunks that are not empty; the vectors have the capacity of the output vectors.\<close>

definition live_chunks :: "nat \<Rightarrow> id_vector list \<Rightarrow> nat \<Rightarrow> bool" where
  "live_chunks cap cache m \<longleftrightarrow> 1 \<le> m \<and> m \<le> length cache \<and> (\<forall>v\<in>set cache. length (vdata v) = cap \<and> selSize v \<le> cap) \<and>
     (\<forall>k < m. selSize (cache ! k) \<noteq> 0) \<and> (\<forall>k < length cache. m \<le> k \<longrightarrow> selSize (cache ! k) = 0)"

definition op_shape :: "nat \<Rightarrow> nat \<Rightarrow> IntersectMultiway \<Rightarrow> bool" where
  "op_shape cap n op \<longleftrightarrow> length (tuple_cursors op) = n \<and> length (cachedIntersectionResults op) = n \<and>
     length (outData op) = n \<and> (\<forall>d\<in>set (outData op). length d = cap)"

lemma live_chunk_at:
  assumes "live_chunks cap c m" "k < m"
  shows "k < length c" "length (vdata (c ! k)) = cap" "selSize (c ! k) \<le> cap" "c ! k \<in> set c" "0 < m"
proof -
  show k: "k < length c" "0 < m" using assms by (auto simp: live_chunks_def)
  then show "c ! k \<in> set c" by simp
  then show "length (vdata (c ! k)) = cap" "selSize (c ! k) \<le> cap" using assms(1) by (auto simp: live_chunks_def)
qed

lemma cursorFinished_live:
  assumes "live_chunks cap (cachedIntersectionResults op ! j) m"
  shows "cursorFinished op j \<longleftrightarrow> m \<le> tuple_cursors op ! j"
proof (cases "m \<le> tuple_cursors op ! j")
  case True
  then have "tuple_cursors op ! j < length (cachedIntersectionResults op ! j) \<Longrightarrow>
      selSize (cachedIntersectionResults op ! j ! (tuple_cursors op ! j)) = 0"
    using assms by (simp add: live_chunks_def)
  with True show ?thesis by (cases "tuple_cursors op ! j < length (cachedIntersectionResults op ! j)")
    (simp_all add: cursorFinished_def Let_def)
next
  case False
  then have "selSize (cachedIntersectionResults op ! j ! (tuple_cursors op ! j)) \<noteq> 0"
    "tuple_cursors op ! j < length (cachedIntersectionResults op ! j)"
    using assms by (auto simp: live_chunks_def)
  with False show ?thesis by (simp add: cursorFinished_def Let_def)
qed

text \<open>A node with a single chunk passes the carry on and keeps its cursor.\<close>

lemma advance_single:
  assumes "live_chunks cap (cachedIntersectionResults op ! j) 1" "tuple_cursors op ! j = 0" "j < length (tuple_cursors op)"
  shows "j + 1 < n \<Longrightarrow> advance_cursors n (j # js) op = advance_cursors n js op"
    and "\<not> j + 1 < n \<Longrightarrow> \<exists>op'. advance_cursors n [j] op = Some op' \<and> loopFinished op'"
proof -
  define op1 where "op1 = op\<lparr>tuple_cursors := (tuple_cursors op)[j := tuple_cursors op ! j + 1]\<rparr>"
  have t: "tuple_cursors op1 ! j = 1" using assms(2,3) by (simp add: op1_def)
  have fin: "cursorFinished op1 j" using cursorFinished_live[of cap op1 j 1] assms(1) t by (simp add: op1_def)
  have "(tuple_cursors op)[j := 0] = tuple_cursors op" using assms(2) by (metis list_update_id)
  then have id: "op1\<lparr>tuple_cursors := (tuple_cursors op1)[j := 0]\<rparr> = op" by (simp add: op1_def)
  show "j + 1 < n \<Longrightarrow> advance_cursors n (j # js) op = advance_cursors n js op"
    unfolding advance_cursors.simps Let_def op1_def[symmetric] using fin t id by simp
  show "\<not> j + 1 < n \<Longrightarrow> \<exists>op'. advance_cursors n [j] op = Some op' \<and> loopFinished op'"
    unfolding advance_cursors.simps Let_def op1_def[symmetric] using fin by simp
qed

lemma skip_singles:
  assumes "\<forall>j < J. live_chunks cap (cachedIntersectionResults op ! j) 1 \<and> tuple_cursors op ! j = 0"
    and "J < n" "length (tuple_cursors op) = n"
  shows "advance_cursors n ([0..<J] @ js) op = advance_cursors n js op"
proof -
  have "advance_cursors n ([J - k..<J] @ js) op = advance_cursors n js op" if "k \<le> J" for k
    using that
  proof (induction k)
    case (Suc k)
    let ?j = "J - Suc k"
    have j: "?j < J" "Suc ?j = J - k" using Suc.prems by linarith+
    then have "[?j..<J] = ?j # [J - k..<J]" by (simp add: upt_conv_Cons)
    moreover have "advance_cursors n (?j # [J - k..<J] @ js) op = advance_cursors n ([J - k..<J] @ js) op"
      using assms j by (intro advance_single(1)[where cap = cap]) auto
    ultimately show ?case using Suc by simp
  qed simp
  from this[of J] show ?thesis by simp
qed

lemma finish_singles:
  assumes "\<forall>j. a \<le> j \<and> j < n \<longrightarrow> live_chunks cap (cachedIntersectionResults op ! j) 1 \<and> tuple_cursors op ! j = 0"
    and "a < n" "length (tuple_cursors op) = n"
  shows "\<exists>op'. advance_cursors n [a..<n] op = Some op' \<and> loopFinished op'"
  using assms
proof (induction "n - a" arbitrary: a)
  case (Suc d)
  have a: "live_chunks cap (cachedIntersectionResults op ! a) 1" "tuple_cursors op ! a = 0" "a < length (tuple_cursors op)"
    using Suc.prems by auto
  have up: "[a..<n] = a # [Suc a..<n]" using Suc.prems(2) by (simp add: upt_conv_Cons)
  show ?case
  proof (cases "Suc a < n")
    case False
    then have "[a..<n] = [a]" using up by simp
    with advance_single(2)[OF a, of n] False show ?thesis by simp
  next
    case True
    have "\<exists>op'. advance_cursors n [Suc a..<n] op = Some op' \<and> loopFinished op'"
      using Suc.prems True by (intro Suc.hyps(1)) (use Suc.hyps(2) in auto)
    moreover have "advance_cursors n [a..<n] op = advance_cursors n [Suc a..<n] op"
      unfolding up using True by (intro advance_single(1)[OF a]) simp
    ultimately show ?thesis by simp
  qed
qed simp

text \<open>The state after \<open>i\<close> steps, for the caches \<open>C\<close> the loop started with.\<close>

definition at_chunk :: "nat \<Rightarrow> id_vector list list \<Rightarrow> nat \<Rightarrow> nat \<Rightarrow> IntersectMultiway \<Rightarrow> bool" where
  "at_chunk cap C J i op \<longleftrightarrow> op_shape cap (length C) op \<and> \<not> loopFinished op \<and>
     tuple_cursors op = (replicate (length C) 0)[J := i] \<and>
     cachedIntersectionResults op = C[J := (C ! J)[0 := (C ! J ! 0)\<lparr>selSize := selSize (C ! J ! i)\<rparr>]] \<and>
     (\<forall>j < length C. out_vector op j = contents (C ! j ! (if j = J then i else 0)))"

lemma out_vector_fill:
  assumes "op_shape cap n op" "j < n" "k < length (cachedIntersectionResults op ! j)"
    "length (vdata (cachedIntersectionResults op ! j ! k)) = cap" "selSize (cachedIntersectionResults op ! j ! k) \<le> cap"
  defines "c \<equiv> cachedIntersectionResults op ! j"
  shows "\<exists>op'. fill_output_vector_with_cache j k op = Some op' \<and> op_shape cap n op' \<and>
    tuple_cursors op' = tuple_cursors op \<and> loopFinished op' = loopFinished op \<and>
    cachedIntersectionResults op' = (cachedIntersectionResults op)[j := c[0 := (c ! 0)\<lparr>selSize := selSize (c ! k)\<rparr>]] \<and>
    out_vector op' j = contents (c ! k) \<and> (\<forall>i < n. i \<noteq> j \<longrightarrow> out_vector op' i = out_vector op i)"
proof -
  let ?n = "selSize (c ! k)"
  let ?op = "op\<lparr>outData := (outData op)[j := take ?n (vdata (c ! k)) @ drop ?n (outData op ! j)],
    cachedIntersectionResults := (cachedIntersectionResults op)[j := c[0 := (c ! 0)\<lparr>selSize := ?n\<rparr>]]\<rparr>"
  have len: "length (cachedIntersectionResults op) = n" "length (outData op) = n" "length (outData op ! j) = cap" "0 < length c"
    using assms(1-3) by (auto simp: op_shape_def c_def)
  have "fill_output_vector_with_cache j k op = Some ?op"
    using assms(2,3) len by (simp add: fill_output_vector_with_cache_def Let_def c_def)
  moreover have "length (take ?n (vdata (c ! k)) @ drop ?n (outData op ! j)) = cap"
    using assms(4,5) len by (simp add: c_def)
  then have "op_shape cap n ?op"
    using assms(1) set_update_subset_insert[of "outData op" j] unfolding op_shape_def by (simp; blast)
  moreover have "out_vector ?op j = contents (c ! k)"
    using len assms(2,4,5) by (simp add: out_vector_def contents_def c_def nth_update_if min_absorb1)
  moreover have "\<forall>i < n. i \<noteq> j \<longrightarrow> out_vector ?op i = out_vector op i" by (simp add: out_vector_def)
  ultimately show ?thesis by (intro exI[of _ ?op]) simp
qed

lemma loop_reset_ok:
  assumes sh: "op_shape cap n op" and live: "\<forall>j < n. \<exists>m. live_chunks cap (cachedIntersectionResults op ! j) m" and J: "J < n"
  shows "\<exists>op'. loop_reset op = Some op' \<and> at_chunk cap (cachedIntersectionResults op) J 0 op'"
proof -
  let ?C = "cachedIntersectionResults op" and ?op = "op\<lparr>tuple_cursors := map (\<lambda>_. 0) (tuple_cursors op), loopFinished := False\<rparr>"
  let ?I = "\<lambda>k x. op_shape cap n x \<and> tuple_cursors x = replicate n 0 \<and> \<not> loopFinished x \<and> cachedIntersectionResults x = ?C \<and>
    (\<forall>j < k. out_vector x j = contents (?C ! j ! 0))"
  have n: "length (tuple_cursors op) = n" "length ?C = n" using sh by (auto simp: op_shape_def)
  have "?I 0 ?op" using sh n by (auto simp: op_shape_def map_replicate_const)
  then have "\<exists>op'. foldM (\<lambda>op j. fill_output_vector_with_cache j 0 op) ?op [0..<n] = Some op' \<and> ?I n op'"
  proof (rule foldM_upt_rule[OF le0, rotated -1, rotated])
    fix k x assume k: "k < n" and I: "?I k x"
    obtain m where m: "live_chunks cap (?C ! k) m" using live k by blast
    then have "0 < m" by (simp add: live_chunks_def)
    note z = live_chunk_at(1-3)[OF m this]
    from out_vector_fill[of cap n x k 0] I k z obtain x' where x': "fill_output_vector_with_cache k 0 x = Some x'"
      "op_shape cap n x'" "tuple_cursors x' = tuple_cursors x" "loopFinished x' = loopFinished x"
      "cachedIntersectionResults x' = ?C[k := (?C ! k)[0 := (?C ! k ! 0)\<lparr>selSize := selSize (?C ! k ! 0)\<rparr>]]"
      "out_vector x' k = contents (?C ! k ! 0)" "\<forall>i < n. i \<noteq> k \<longrightarrow> out_vector x' i = out_vector x i" by auto
    moreover have "?C[k := (?C ! k)[0 := (?C ! k ! 0)\<lparr>selSize := selSize (?C ! k ! 0)\<rparr>]] = ?C" by simp
    ultimately have "?I (Suc k) x'" using I k by (auto simp: less_Suc_eq)
    with x'(1) show "\<exists>s'. fill_output_vector_with_cache k 0 x = Some s' \<and> ?I (Suc k) s'" by blast
  qed
  then obtain op' where op': "loop_reset op = Some op'" "?I n op'" by (auto simp: loop_reset_def n)
  have "(replicate n 0)[J := 0] = replicate n (0::nat)" by (metis list_update_id nth_replicate J)
  with op' n J have "at_chunk cap ?C J 0 op'" by (simp add: at_chunk_def)
  with op'(1) show ?thesis by blast
qed

lemma gotoNext_chunk:
  assumes at: "at_chunk cap C J i op" and J: "J < length C" and m: "live_chunks cap (C ! J) m" "i < m"
    and single: "\<forall>j < length C. j \<noteq> J \<longrightarrow> live_chunks cap (C ! j) 1"
  shows "\<exists>op'. loop_gotoNext op = Some op' \<and> (if Suc i < m then at_chunk cap C J (Suc i) op' else loopFinished op')"
proof -
  let ?n = "length C"
  note A = at[unfolded at_chunk_def]
  have cur: "tuple_cursors op = (replicate ?n 0)[J := i]" "length (tuple_cursors op) = ?n" using A by simp_all
  have cc: "cachedIntersectionResults op = C[J := (C ! J)[0 := (C ! J ! 0)\<lparr>selSize := selSize (C ! J ! i)\<rparr>]]" using A by simp
  let ?c = "(C ! J)[0 := (C ! J ! 0)\<lparr>selSize := selSize (C ! J ! i)\<rparr>]"
  have cJ: "cachedIntersectionResults op ! J = ?c" using cc J by simp
  have iv: "C ! J ! i \<in> set (C ! J)" "C ! J ! 0 \<in> set (C ! J)"
    using live_chunk_at(4)[OF m] live_chunk_at(4)[OF m(1) live_chunk_at(5)[OF m]] by simp_all
  have liveJ: "live_chunks cap ?c m"
  proof -
    let ?v = "(C ! J ! 0)\<lparr>selSize := selSize (C ! J ! i)\<rparr>"
    have all: "\<forall>v\<in>set (C ! J). length (vdata v) = cap \<and> selSize v \<le> cap" using m(1) unfolding live_chunks_def by blast
    then have "length (vdata ?v) = cap \<and> selSize ?v \<le> cap" using iv by simp
    moreover have "set ?c \<subseteq> insert ?v (set (C ! J))" by (rule set_update_subset_insert)
    ultimately have vs: "\<forall>v\<in>set ?c. length (vdata v) = cap \<and> selSize v \<le> cap" using all by blast
    have si: "selSize (C ! J ! i) \<noteq> 0" using m unfolding live_chunks_def by blast
    have nth: "selSize (?c ! k) = (if k = 0 then selSize (C ! J ! i) else selSize (C ! J ! k))" if "k < length (C ! J)" for k
      using that by (cases k) simp_all
    have "selSize (?c ! k) \<noteq> 0" if "k < m" for k
      using nth[of k] live_chunk_at(1)[OF m(1) that] si m(1) that unfolding live_chunks_def by simp
    moreover have "selSize (?c ! k) = 0" if "k < length ?c" "m \<le> k" for k
      using nth[of k] that m unfolding live_chunks_def by simp
    ultimately show ?thesis using vs m(1) unfolding live_chunks_def by simp
  qed
  have sing: "live_chunks cap (cachedIntersectionResults op ! j) 1 \<and> tuple_cursors op ! j = 0" if "j < ?n" "j \<noteq> J" for j
    using that single cc cur by simp
  have up: "[0..<?n] = [0..<J] @ J # [Suc J..<?n]" 
    using upt_add_eq_append[of 0 J "?n - J"] upt_conv_Cons[OF J] J by simp
  have pre: "advance_cursors ?n [0..<?n] op = advance_cursors ?n (J # [Suc J..<?n]) op"
    unfolding up using sing J cur(2) by (intro skip_singles[where cap = cap]) auto
  have g: "loop_gotoNext op = advance_cursors ?n (J # [Suc J..<?n]) op"
    using A cur(2) pre by (simp add: loop_gotoNext_def)
  let ?op = "op\<lparr>tuple_cursors := (tuple_cursors op)[J := tuple_cursors op ! J + 1]\<rparr>"
  have oc: "tuple_cursors ?op = (replicate ?n 0)[J := Suc i]" "tuple_cursors ?op ! J = Suc i" using cur J by simp_all
  have fin: "cursorFinished ?op J \<longleftrightarrow> m \<le> Suc i" using cursorFinished_live[of cap ?op J m] liveJ cJ oc(2) by simp
  have shape: "op_shape cap ?n ?op" using A by (simp add: op_shape_def)
  show ?thesis
  proof (cases "Suc i < m")
    case True
    note kv = live_chunk_at(2,3)[OF m(1) True]
    have k: "Suc i < length ?c" "?c ! Suc i = C ! J ! Suc i" using live_chunk_at(1)[OF m(1) True] by simp_all
    from out_vector_fill[of cap ?n ?op J "Suc i"] shape J cJ k kv obtain op' where
      f: "fill_output_vector_with_cache J (Suc i) ?op = Some op'" "op_shape cap ?n op'" "tuple_cursors op' = tuple_cursors ?op"
      "loopFinished op' = loopFinished ?op"
      "cachedIntersectionResults op' = (cachedIntersectionResults op)[J := ?c[0 := (?c ! 0)\<lparr>selSize := selSize (C ! J ! Suc i)\<rparr>]]"
      "out_vector op' J = contents (C ! J ! Suc i)" "\<forall>j < ?n. j \<noteq> J \<longrightarrow> out_vector op' j = out_vector ?op j" by auto
    have "0 < length (C ! J)" by (rule le_less_trans[OF le0 live_chunk_at(1)[OF m]])
    then have "cachedIntersectionResults op' = C[J := (C ! J)[0 := (C ! J ! 0)\<lparr>selSize := selSize (C ! J ! Suc i)\<rparr>]]"
      using f(5) cc by simp
    moreover have "out_vector ?op j = out_vector op j" for j by (simp add: out_vector_def)
    ultimately have "at_chunk cap C J (Suc i) op'" using f A oc(1) by (auto simp: at_chunk_def)
    with f(1) g fin True oc(2) show ?thesis by (simp add: Let_def)
  next
    case False
    then have F: "cursorFinished ?op J" using fin by simp
    show ?thesis
    proof (cases "Suc J < ?n")
      case True
      have z: "0 < length ?c" "length (vdata (?c ! 0)) = cap" "selSize (?c ! 0) \<le> cap"
        using live_chunk_at(1-3)[OF liveJ live_chunk_at(5)[OF m]] by blast+
      obtain op2 where op2: "(if tuple_cursors ?op ! J \<noteq> 1 then fill_output_vector_with_cache J 0 ?op else Some ?op) = Some op2"
        "tuple_cursors op2 = tuple_cursors ?op"
        "\<forall>j < ?n. j \<noteq> J \<longrightarrow> cachedIntersectionResults op2 ! j = cachedIntersectionResults op ! j"
      proof (cases "tuple_cursors ?op ! J \<noteq> 1")
        case True
        from out_vector_fill[of cap ?n ?op J 0] shape J cJ z obtain x where
          "fill_output_vector_with_cache J 0 ?op = Some x" "tuple_cursors x = tuple_cursors ?op"
          "cachedIntersectionResults x = (cachedIntersectionResults op)[J := ?c[0 := (?c ! 0)\<lparr>selSize := selSize (?c ! 0)\<rparr>]]" by auto
        with True show ?thesis by (intro that[of x]) auto
      next
        case False
        then show ?thesis by (intro that[of ?op]) auto
      qed
      let ?op3 = "op2\<lparr>tuple_cursors := (tuple_cursors op2)[J := 0]\<rparr>"
      have "\<exists>op'. advance_cursors ?n [Suc J..<?n] ?op3 = Some op' \<and> loopFinished op'"
      proof (rule finish_singles[where cap = cap])
        show "\<forall>j. Suc J \<le> j \<and> j < ?n \<longrightarrow> live_chunks cap (cachedIntersectionResults ?op3 ! j) 1 \<and> tuple_cursors ?op3 ! j = 0"
          using sing op2(2,3) oc(1) by auto
      qed (use True op2(2) oc(1) in auto)
      with g F True op2(1) False show ?thesis by (auto simp: Let_def)
    next
      case last: False
      then have "[Suc J..<?n] = []" by simp
      with g F last False show ?thesis by (simp add: Let_def)
    qed
  qed
qed

section \<open>Properties\<close>

fun loop_steps :: "nat \<Rightarrow> IntersectMultiway \<Rightarrow> IntersectMultiway option" where
  "loop_steps 0 op = Some op"
| "loop_steps (Suc k) op = do { x \<leftarrow> loop_steps k op; loop_gotoNext x }"

definition after_steps :: "nat \<Rightarrow> IntersectMultiway \<Rightarrow> IntersectMultiway option" where
  "after_steps k op = do { x \<leftarrow> loop_reset op; loop_steps k x }"

lemma after_steps_chunk:
  assumes sh: "op_shape cap n op" and J: "J < n" and m: "live_chunks cap (cachedIntersectionResults op ! J) m"
    and single: "\<forall>j < n. j \<noteq> J \<longrightarrow> live_chunks cap (cachedIntersectionResults op ! j) 1"
  shows "i < m \<Longrightarrow> \<exists>x. after_steps i op = Some x \<and> at_chunk cap (cachedIntersectionResults op) J i x"
    and "\<exists>x. after_steps m op = Some x \<and> loopFinished x"
proof -
  let ?C = "cachedIntersectionResults op"
  have n: "length ?C = n" using sh by (simp add: op_shape_def)
  have live: "\<forall>j < n. \<exists>m. live_chunks cap (?C ! j) m" using m single by metis
  from loop_reset_ok[OF sh live J] obtain y where y: "loop_reset op = Some y" "at_chunk cap ?C J 0 y" by blast
  have step: "\<exists>x. after_steps i op = Some x \<and> at_chunk cap ?C J i x" if "i < m" for i
    using that
  proof (induction i)
    case 0
    then show ?case using y by (simp add: after_steps_def)
  next
    case (Suc i)
    then obtain x where x: "after_steps i op = Some x" "at_chunk cap ?C J i x" by auto
    from gotoNext_chunk[OF x(2) _ m _ ] J n Suc.prems single obtain z where "loop_gotoNext x = Some z" "at_chunk cap ?C J (Suc i) z"
      by (metis Suc_lessD)
    with x(1) y(1) show ?case by (simp add: after_steps_def)
  qed
  then show "i < m \<Longrightarrow> \<exists>x. after_steps i op = Some x \<and> at_chunk cap ?C J i x" .
  have "1 \<le> m" using m by (simp add: live_chunks_def)
  then obtain k where k: "m = Suc k" by (cases m) auto
  from step[of k] k obtain x where x: "after_steps k op = Some x" "at_chunk cap ?C J k x" by auto
  from gotoNext_chunk[OF x(2) _ m] J n single k obtain z where "loop_gotoNext x = Some z" "loopFinished z" by (metis lessI less_irrefl)
  with x(1) y(1) k show "\<exists>x. after_steps m op = Some x \<and> loopFinished x" by (simp add: after_steps_def)
qed

text \<open>
  C9: Liveness. When every right-side node but one has its result in a single chunk, the loop emits
  all combinations of chunks and then finishes: the call number \<open>i\<close> finds in the output vectors the chunk \<open>i\<close>
  of that node and the results of the others, and after the last chunk the loop state is finished.
\<close>

theorem loop_emits_all:
  assumes "op_shape cap n op" "J < n" "live_chunks cap (cachedIntersectionResults op ! J) m"
    and "\<forall>j < n. j \<noteq> J \<longrightarrow> live_chunks cap (cachedIntersectionResults op ! j) 1"
  shows "(\<forall>i < m. \<exists>x. after_steps i op = Some x \<and> \<not> loopFinished x \<and>
      (\<forall>j < n. out_vector x j = contents (cachedIntersectionResults op ! j ! (if j = J then i else 0)))) \<and>
    (\<exists>x. after_steps m op = Some x \<and> loopFinished x)"
proof -
  have n: "length (cachedIntersectionResults op) = n" using assms(1) by (simp add: op_shape_def)
  show ?thesis using after_steps_chunk[OF assms] n unfolding at_chunk_def by blast
qed

definition ex_op :: "id_vector list list \<Rightarrow> IntersectMultiway" where
  "ex_op C = \<lparr>probedIds = [], cachedIntersectionResults = C, outData = replicate (length C) (replicate 2 default_internalID),
     tuple_cursors = replicate (length C) 0, loopFinished = True, dynamic_order = [0..<length C]\<rparr>"

definition ex_chunks :: "id_vector list" where
  "ex_chunks = [\<lparr>vdata = [nid 1, nid 2], selSize = 2\<rparr>, \<lparr>vdata = [nid 3, nid 0], selSize = 1\<rparr>]"

theorem loop_emits_all_witness:
  "\<exists>x y. after_steps 1 (ex_op [ex_chunks, [\<lparr>vdata = [nid 7, nid 8], selSize = 2\<rparr>]]) = Some x \<and> \<not> loopFinished x \<and>
     out_vector x 0 = [nid 3] \<and> out_vector x 1 = [nid 7, nid 8] \<and>
     after_steps 2 (ex_op [ex_chunks, [\<lparr>vdata = [nid 7, nid 8], selSize = 2\<rparr>]]) = Some y \<and> loopFinished y"
proof -
  let ?op = "ex_op [ex_chunks, [\<lparr>vdata = [nid 7, nid 8], selSize = 2\<rparr>]]"
  have h: "op_shape 2 2 ?op" "live_chunks 2 (cachedIntersectionResults ?op ! 0) 2"
    "live_chunks 2 (cachedIntersectionResults ?op ! 1) 1" by code_simp+
  have c: "contents (cachedIntersectionResults ?op ! 0 ! 1) = [nid 3]"
    "contents (cachedIntersectionResults ?op ! 1 ! 0) = [nid 7, nid 8]" by code_simp+
  have s: "\<forall>j < 2. j \<noteq> 0 \<longrightarrow> live_chunks 2 (cachedIntersectionResults ?op ! j) 1"
    using h(3) by (auto simp: less_2_cases_iff)
  have "(0::nat) < 2" by simp
  note E = loop_emits_all[OF h(1) this h(2) s]
  from conjunct1[OF E, rule_format, of 1] obtain x where "after_steps 1 ?op = Some x" "\<not> loopFinished x"
    "\<forall>j < 2. out_vector x j = contents (cachedIntersectionResults ?op ! j ! (if j = 0 then 1 else 0))" by auto
  moreover from this(3)[rule_format, of 0] this(3)[rule_format, of 1]
  have "out_vector x 0 = [nid 3]" "out_vector x 1 = [nid 7, nid 8]" using c by simp_all
  ultimately show ?thesis using conjunct2[OF E] by blast
qed

text \<open>
  C36: With two right-side nodes whose results have two chunks each, the loop loses results: the
  output vector of the first node shares the size of its first chunk, emitting the second, smaller chunk
  overwrites that size, and when the cursor wraps around only a part of the first chunk is emitted.
\<close>

theorem loop_truncates_chunk:
  "\<exists>op x. op_shape 2 2 op \<and> live_chunks 2 (cachedIntersectionResults op ! 0) 2 \<and>
     live_chunks 2 (cachedIntersectionResults op ! 1) 2 \<and> after_steps 2 op = Some x \<and> \<not> loopFinished x \<and>
     tuple_cursors x = [0, 1] \<and> length (out_vector x 0) < length (contents (cachedIntersectionResults op ! 0 ! 0))"
proof -
  let ?op = "ex_op [ex_chunks, ex_chunks]"
  have "op_shape 2 2 ?op" "live_chunks 2 (cachedIntersectionResults ?op ! 0) 2" "live_chunks 2 (cachedIntersectionResults ?op ! 1) 2"
    "after_steps 2 ?op = Some (the (after_steps 2 ?op))" "\<not> loopFinished (the (after_steps 2 ?op))"
    "tuple_cursors (the (after_steps 2 ?op)) = [0, 1]"
    "length (out_vector (the (after_steps 2 ?op)) 0) < length (contents (cachedIntersectionResults ?op ! 0 ! 0))" by code_simp+
  then show ?thesis by blast
qed

text \<open>
  C8: Probing one left-side node. On a built hash table of keyed rows whose neighbour lists can be
  read, \<open>probeHTs\<close> finds for every connected right-side node the non-empty lists of exactly the rows with
  the key, in the order in which the rows were inserted, and fails exactly when one of them has none.
\<close>

theorem probe_left_correct:
  assumes "built ht" "keyed ht" "lists_readable ht (keyOffsetInTuple info ! i) (left2right_idx info ! i)"
    "distinct (left2right_idx info ! i)" "\<forall>j\<in>set (left2right_idx info ! i). j < numRightNodes info"
    "left2right_idx info ! i \<noteq> []"
  shows "\<exists>probed ok. probe_left info ht i key = Some (probed, ok) \<and>
    (ok \<longleftrightarrow> (\<forall>j\<in>set (left2right_idx info ! i). key_lists ht (keyOffsetInTuple info ! i) key j \<noteq> [])) \<and>
    (ok \<longrightarrow> (\<forall>j\<in>set (left2right_idx info ! i). probed ! j = key_lists ht (keyOffsetInTuple info ! i) key j))"
  by (rule probe_left_ok[OF assms])

definition ex_appended :: JoinHashTable where
  "ex_appended = snd (snd (snd (the (appendVectors 4 [ex_key] [ex_payload] 0 (ex_states, [], ex_ht)))))"

definition ex_final :: JoinHashTable where
  "ex_final = the (finalizeInternal ex_appended)"

definition ex_info :: IntersectMultiwayDataInfo where
  "ex_info = \<lparr>connectivity = [[True]], keyOffsetInTuple = [[16]], left2right_idx = [[0]], right2left_idx = [[0]]\<rparr>"

lemma ex_final_ok: "built ex_final" "keyed ex_final"
proof -
  have c: "cvState ex_key = 0" "selectedSize (csSel (ex_states ! 0)) = 2" by code_simp+
  from appendVectors_ok[OF ex_ht_ok(2,1) ex_inputs_ok, of "[]"] obtain heap' ht where
    h: "appendVectors 4 [ex_key] [ex_payload] 0 (ex_states, [], ex_ht) = Some (2, ex_states, heap', ht)"
    "keyed ht" "num_rows ht = 2" "hashSlotsBlocks ht = []" "numSlotsPerBlockLog2 ht < 63"
    unfolding c using ex_ht_ok(4-6) by auto
  then have a: "ex_appended = ht" by (simp add: ex_appended_def)
  from h(3) have n: "0 < num_rows ht" "num_rows ht < 2 ^ 62" by simp_all
  from finalize_ok[OF h(2) n h(4,5)] show "built ex_final" "keyed ex_final" by (auto simp: ex_final_def a)
qed

theorem probe_left_correct_witness:
  "\<exists>probed. probe_left ex_info ex_final 0 (InternalID 9 1) = Some (probed, True) \<and> probed ! 0 = [(3, 0)]"
proof -
  have "lists_readable ex_final (keyOffsetInTuple ex_info ! 0) (left2right_idx ex_info ! 0)"
    "distinct (left2right_idx ex_info ! 0)" "\<forall>j\<in>set (left2right_idx ex_info ! 0). j < numRightNodes ex_info"
    "left2right_idx ex_info ! 0 \<noteq> []" by code_simp+
  note P = probe_left_correct[OF ex_final_ok this, of "InternalID 9 1"]
  have k: "key_lists ex_final (keyOffsetInTuple ex_info ! 0) (InternalID 9 1) 0 = [(3, 0)]" by code_simp
  have l: "left2right_idx ex_info ! 0 = [0]" by code_simp
  from P show ?thesis unfolding l using k by auto
qed

end
