(* ===== verification/IntersectMultiwayBuild.thy ===== *)
theory IntersectMultiwayBuild
  imports JoinChains
begin

text \<open>
  The build side of the multiway intersection
  (\<open>include/processor/operator/intersect/intersect_multiway_build.h\<close>): consecutive tuples with the
  same key are cached and then written as few rows whose payload lists are filled up to the vector
  capacity.

  A cached vector is the list of the values below its selected size, and setting the size to zero empties it. The child operator
  is the list of the chunks it delivers, each with the selected values of the key vectors and, for every
  payload vector, the number of its state and its selected values; a payload column may be empty, as the
  columns of finished scans are. Appending to the hash table is an argument of the loops, so that the caching is
  separate from the table. An index that was set to \<open>-1u\<close> is None:
  its increment is not below the number of vectors, so it is set again.
\<close>

type_synonym vals = "ht_val option list"

record build_cache =
  cachedKeyVectors :: "vals list"
  cachedPayloadVectors :: "vals list list"

definition init_cache :: "nat \<Rightarrow> nat \<Rightarrow> build_cache" where
  "init_cache numKeys numPayloads =
     \<lparr>cachedKeyVectors = replicate numKeys [], cachedPayloadVectors = replicate numPayloads [[]]\<rparr>"

section \<open>Writing a group\<close>

text \<open>
  One pass over the payload columns after an append: the index moves on, or the column is finished
  and its first vector emptied.
\<close>

definition next_index :: "nat option \<Rightarrow> vals list \<Rightarrow> nat option \<times> vals list" where
  "next_index idx cache =
     (case idx of
        Some k \<Rightarrow> if k + 1 \<ge> length cache \<or> cache ! (k + 1) = [] then (None, cache[0 := []]) else (Some (k + 1), cache)
      | None \<Rightarrow> (None, cache[0 := []]))"

definition pick :: "nat option \<Rightarrow> vals list \<Rightarrow> vals" where
  "pick idx cache = cache ! (case idx of None \<Rightarrow> 0 | Some k \<Rightarrow> k)"

partial_function (option) dump_loop ::
  "(vals list \<Rightarrow> 's \<Rightarrow> 's option) \<Rightarrow> nat option list \<Rightarrow> vals list list \<Rightarrow> 's \<Rightarrow> (vals list list \<times> 's) option" where
  "dump_loop app indices caches s =
     Option.bind (app (map2 pick indices caches) s) (\<lambda>s'.
       let stepped = map2 next_index indices caches;
           indices' = map fst stepped; caches' = map snd stepped
       in if list_ex (\<lambda>i. i \<noteq> None) indices' then dump_loop app indices' caches' s' else Some (caches', s'))"

declare dump_loop.simps [code]

definition dumpCachedKeyPayloads ::
  "(vals list \<Rightarrow> vals list \<Rightarrow> 's \<Rightarrow> 's option) \<Rightarrow> build_cache \<Rightarrow> 's \<Rightarrow> (build_cache \<times> 's) option" where
  "dumpCachedKeyPayloads app c s =
     (let skip_dumping = (list_ex (\<lambda>v. v = []) (cachedKeyVectors c) \<or>
                          list_ex (\<lambda>cache. cache ! 0 = []) (cachedPayloadVectors c)) in
      do { (caches, s') \<leftarrow>
             (if \<not> skip_dumping
              then do { ku_assert (length (cachedKeyVectors c ! 0) = 1);
                        dump_loop (app (cachedKeyVectors c)) (map (\<lambda>_. Some 0) (cachedPayloadVectors c)) (cachedPayloadVectors c) s }
              else Some (cachedPayloadVectors c, s));
           Some (\<lparr>cachedKeyVectors = map (\<lambda>_. []) (cachedKeyVectors c),
                  cachedPayloadVectors = map (map (\<lambda>_. [])) caches\<rparr>, s') })"

section \<open>Caching\<close>

text \<open>A payload value goes to the first vector that is not full, or to a new one.\<close>

fun cache_value :: "nat \<Rightarrow> vals list \<Rightarrow> ht_val option \<Rightarrow> vals list" where
  "cache_value cap [] x = [[x]]"
| "cache_value cap (v # vs) x = (if length v < cap then (v @ [x]) # vs else v # cache_value cap vs x)"

text \<open>
  After a payload vector is copied its state is set to size zero, so a later payload vector that shares
  the state shows nothing.
\<close>

fun shown_payloads :: "nat list \<Rightarrow> (nat \<times> vals) list \<Rightarrow> vals list" where
  "shown_payloads emptied [] = []"
| "shown_payloads emptied ((st, vs) # ps) = (if st \<in> set emptied then [] else vs) # shown_payloads (st # emptied) ps"

definition cacheKeyPayloads ::
  "nat \<Rightarrow> bool \<Rightarrow> vals list \<Rightarrow> (nat \<times> vals) list \<Rightarrow> build_cache \<Rightarrow> build_cache option" where
  "cacheKeyPayloads cap is_new_key keys payloads c =
     do { keys' \<leftarrow> (if is_new_key
            then do { ku_assert (list_all2 (\<lambda>dst src. src \<noteq> [] \<longrightarrow> length dst + length src \<le> cap) (cachedKeyVectors c) keys);
                      Some (map2 (@) (cachedKeyVectors c) keys) }
            else Some (cachedKeyVectors c));
          Some \<lparr>cachedKeyVectors = keys',
                cachedPayloadVectors = map2 (foldl (cache_value cap)) (cachedPayloadVectors c) (shown_payloads [] payloads)\<rparr> }"

type_synonym chunk = "vals list \<times> (nat \<times> vals) list"

section \<open>The operator\<close>

definition build_step ::
  "nat \<Rightarrow> (vals list \<Rightarrow> vals list \<Rightarrow> 's \<Rightarrow> 's option) \<Rightarrow> build_cache \<times> 's \<Rightarrow> chunk \<Rightarrow> (build_cache \<times> 's) option" where
  "build_step cap app = (\<lambda>(c, s) (keys, payloads).
     do { ku_assert (cachedKeyVectors c \<noteq> [] \<and> keys \<noteq> []);
          is_new_key \<leftarrow> (if cachedKeyVectors c ! 0 \<noteq> []
            then do { ku_assert (keys ! 0 \<noteq> []); Some (hd (keys ! 0) \<noteq> hd (cachedKeyVectors c ! 0)) }
            else Some True);
          (c', s') \<leftarrow> (if is_new_key then dumpCachedKeyPayloads app c s else Some (c, s));
          c'' \<leftarrow> cacheKeyPayloads cap is_new_key keys payloads c';
          Some (c'', s') })"

definition build_local ::
  "nat \<Rightarrow> (vals list \<Rightarrow> vals list \<Rightarrow> 's \<Rightarrow> 's option) \<Rightarrow> nat \<Rightarrow> nat \<Rightarrow> chunk list \<Rightarrow> 's \<Rightarrow> 's option" where
  "build_local cap app numKeys numPayloads child s =
     do { (c, s') \<leftarrow> foldM (build_step cap app) (init_cache numKeys numPayloads, s) child;
          (c', s'') \<leftarrow> dumpCachedKeyPayloads app c s';
          Some s'' }"

text \<open>The append of the table: every cached vector has a state of its own; a flat key state selects one position.\<close>

definition cached_state :: "nat \<Rightarrow> bool \<Rightarrow> vals \<Rightarrow> chunk_state" where
  "cached_state cap flat vals = \<lparr>csFlat = flat, csSel = (new_SelectionVector cap)\<lparr>selectedSize := length vals\<rparr>\<rparr>"

definition cached_vector :: "nat \<Rightarrow> nat \<Rightarrow> vals \<Rightarrow> chunk_vector" where
  "cached_vector cap i vals =
     \<lparr>cvState = i, cvVals = vals @ replicate (cap - length vals) None, cvBytes = 16, cvNoNulls = None \<notin> set vals\<rparr>"

definition append_cached ::
  "nat \<Rightarrow> bool \<Rightarrow> vals list \<Rightarrow> vals list \<Rightarrow> ht_val overflow_heap \<times> JoinHashTable \<Rightarrow> (ht_val overflow_heap \<times> JoinHashTable) option" where
  "append_cached cap flatKeys keys payloads = (\<lambda>(heap, ht).
     do { (n, sts, heap', ht') \<leftarrow> appendVectors cap
            (map (\<lambda>(i, v). cached_vector cap i v) (enumerate 0 keys))
            (map (\<lambda>(i, v). cached_vector cap i v) (enumerate (length keys) payloads)) 0
            (map (cached_state cap flatKeys) keys @ map (cached_state cap False) payloads, heap, ht);
          Some (heap', ht') })"

definition executeInternal ::
  "nat \<Rightarrow> bool \<Rightarrow> nat \<Rightarrow> nat \<Rightarrow> chunk list \<Rightarrow> JoinHashTable \<Rightarrow> ht_val overflow_heap \<times> JoinHashTable \<Rightarrow>
   (ht_val overflow_heap \<times> JoinHashTable) option" where
  "executeInternal cap flatKeys numKeys numPayloads child shared = (\<lambda>(heap, ht).
     do { (heap', ht') \<leftarrow> build_local cap (append_cached cap flatKeys) numKeys numPayloads child (heap, ht);
          merged \<leftarrow> merge_hash_tables shared ht';
          Some (heap', merged) })"

section \<open>The rows of a group\<close>

text \<open>The number of vectors before the first empty one, and what a column contributes to row \<open>r\<close>.\<close>

definition live :: "vals list \<Rightarrow> nat" where
  "live c = length (takeWhile (\<lambda>v. v \<noteq> []) c)"

definition group_row :: "vals list list \<Rightarrow> nat \<Rightarrow> vals list" where
  "group_row caches r = map (\<lambda>c. if r < live c then c ! r else []) caches"

definition group_rows :: "vals list list \<Rightarrow> nat" where
  "group_rows caches = foldr max (map live caches) 1"

lemma live_le: "c \<in> set caches \<Longrightarrow> live c \<le> group_rows caches"
  unfolding group_rows_def by (induction caches) auto

lemma group_rows_pos: "1 \<le> group_rows caches"
  unfolding group_rows_def by (induction caches) auto

lemma group_rows_ex: "r < group_rows caches \<Longrightarrow> 1 \<le> r \<Longrightarrow> \<exists>c\<in>set caches. r < live c"
  unfolding group_rows_def by (induction caches) (auto simp: less_max_iff_disj)

lemma live_next: "r < live c \<Longrightarrow> (r + 1 \<ge> length c \<or> c ! (r + 1) = []) \<longleftrightarrow> \<not> r + 1 < live c"
proof -
  assume r: "r < live c"
  have le: "live c \<le> length c" by (simp add: live_def length_takeWhile_le)
  show ?thesis
  proof (cases "r + 1 < live c")
    case True
    then have "c ! (r + 1) \<noteq> []" using set_takeWhileD[of "c ! (r + 1)" "\<lambda>v. v \<noteq> []" c] takeWhile_nth[of "r + 1" "\<lambda>v. v \<noteq> []" c]
      by (metis live_def nth_mem)
    with True le show ?thesis by simp
  next
    case False
    then have "live c = r + 1" using r by simp
    then show ?thesis using nth_length_takeWhile[of "\<lambda>v. v \<noteq> []" c] le
      by (cases "Suc r < length c") (auto simp: live_def)
  qed
qed

definition index_at :: "nat \<Rightarrow> vals list \<Rightarrow> nat option" where
  "index_at r c = (if r < live c then Some r else None)"

definition cache_at :: "nat \<Rightarrow> vals list \<Rightarrow> vals list" where
  "cache_at r c = (if r < live c then c else c[0 := []])"

lemma column_step:
  assumes "1 \<le> live c"
  shows "pick (index_at r c) (cache_at r c) = (if r < live c then c ! r else [])"
    and "next_index (index_at r c) (cache_at r c) = (index_at (Suc r) c, cache_at (Suc r) c)"
proof -
  have "c \<noteq> []" using assms by (auto simp: live_def)
  then show "pick (index_at r c) (cache_at r c) = (if r < live c then c ! r else [])"
    by (simp add: pick_def index_at_def cache_at_def)
  show "next_index (index_at r c) (cache_at r c) = (index_at (Suc r) c, cache_at (Suc r) c)"
  proof (cases "r < live c")
    case True
    with live_next[OF True] show ?thesis by (auto simp: next_index_def index_at_def cache_at_def)
  qed (simp add: next_index_def index_at_def cache_at_def)
qed

lemma map2_columns: "map2 f (map g xs) (map h xs) = map (\<lambda>x. f (g x) (h x)) xs"
  by (induction xs) auto

lemma dump_loop_rows:
  assumes "\<forall>c\<in>set caches. 1 \<le> live c" "r < group_rows caches"
  shows "dump_loop app (map (index_at r) caches) (map (cache_at r) caches) s =
    map_option (Pair (map (\<lambda>c. c[0 := []]) caches)) (foldM (\<lambda>s r. app (group_row caches r) s) s [r..<group_rows caches])"
  using assms(2)
proof (induction "group_rows caches - r" arbitrary: r s)
  case (Suc d)
  let ?M = "group_rows caches"
  have up: "[r..<?M] = r # [Suc r..<?M]" using Suc.prems by (simp add: upt_conv_Cons)
  have pk: "map2 pick (map (index_at r) caches) (map (cache_at r) caches) = group_row caches r"
    unfolding map2_columns group_row_def using column_step(1) assms(1) by (intro map_cong) auto
  have st: "map2 next_index (map (index_at r) caches) (map (cache_at r) caches) = map (\<lambda>c. (index_at (Suc r) c, cache_at (Suc r) c)) caches"
    unfolding map2_columns using column_step(2) assms(1) by (intro map_cong) auto
  have unf: "list_ex (\<lambda>i. i \<noteq> None) (map (index_at (Suc r)) caches) \<longleftrightarrow> Suc r < ?M"
  proof
    assume "list_ex (\<lambda>i. i \<noteq> None) (map (index_at (Suc r)) caches)"
    then obtain c where "c \<in> set caches" "Suc r < live c" by (auto simp: list_ex_iff index_at_def split: if_splits)
    with live_le[of c caches] show "Suc r < ?M" by simp
  next
    assume "Suc r < ?M"
    from group_rows_ex[OF this] obtain c where "c \<in> set caches" "Suc r < live c" by auto
    then show "list_ex (\<lambda>i. i \<noteq> None) (map (index_at (Suc r)) caches)" by (auto simp: list_ex_iff index_at_def)
  qed
  have step: "dump_loop app (map (index_at r) caches) (map (cache_at r) caches) s =
    Option.bind (app (group_row caches r) s) (\<lambda>s'. if Suc r < ?M
      then dump_loop app (map (index_at (Suc r)) caches) (map (cache_at (Suc r)) caches) s'
      else Some (map (cache_at (Suc r)) caches, s'))"
    by (subst dump_loop.simps) (simp only: pk st Let_def map_map comp_def fst_conv snd_conv unf)
  show ?case
  proof (cases "Suc r < ?M")
    case True
    have "d = ?M - Suc r" using Suc.hyps(2) by simp
    from Suc.hyps(1)[OF this True] show ?thesis unfolding step up using True
      by (cases "app (group_row caches r) s") auto
  next
    case False
    then have "Suc r = ?M" using Suc.prems by simp
    then have "map (cache_at (Suc r)) caches = map (\<lambda>c. c[0 := []]) caches"
      using live_le[of _ caches] by (intro map_cong) (fastforce simp: cache_at_def)+
    with False \<open>Suc r = ?M\<close> show ?thesis unfolding step up by (cases "app (group_row caches r) s") auto
  qed
qed simp

definition cleaned :: "build_cache \<Rightarrow> build_cache" where
  "cleaned c = \<lparr>cachedKeyVectors = map (\<lambda>_. []) (cachedKeyVectors c),
     cachedPayloadVectors = map (map (\<lambda>_. [])) (cachedPayloadVectors c)\<rparr>"

lemma dump_rows:
  assumes "\<forall>v\<in>set (cachedKeyVectors c). v \<noteq> []" "length (cachedKeyVectors c ! 0) = 1"
    "\<forall>cache\<in>set (cachedPayloadVectors c). 1 \<le> live cache"
  shows "dumpCachedKeyPayloads app c s = map_option (Pair (cleaned c))
    (foldM (\<lambda>s r. app (cachedKeyVectors c) (group_row (cachedPayloadVectors c) r) s) s [0..<group_rows (cachedPayloadVectors c)])"
proof -
  let ?P = "cachedPayloadVectors c"
  have hd: "cache ! 0 \<noteq> []" if "cache \<in> set ?P" for cache
  proof -
    have "1 \<le> live cache" using assms(3) that by blast
    then show ?thesis by (cases cache) (auto simp: live_def split: if_splits)
  qed
  have "map (index_at 0) ?P = map (\<lambda>_. Some 0) ?P" "map (cache_at 0) ?P = ?P"
    using assms(3) by (auto simp: index_at_def cache_at_def intro!: map_idI)
  with dump_loop_rows[OF assms(3), of 0] group_rows_pos[of ?P]
  have "dump_loop app' (map (\<lambda>_. Some 0) ?P) ?P s =
    map_option (Pair (map (\<lambda>c. c[0 := []]) ?P)) (foldM (\<lambda>s r. app' (group_row ?P r) s) s [0..<group_rows ?P])" for app'
    by (metis One_nat_def Suc_le_lessD)
  moreover have "\<not> list_ex (\<lambda>v. v = []) (cachedKeyVectors c)" "\<not> list_ex (\<lambda>cache. cache ! 0 = []) ?P"
    using assms(1) hd by (auto simp: list_ex_iff)
  moreover have "map (\<lambda>_. [] :: vals) (c[0 := []]) = map (\<lambda>_. []) c" for c :: "vals list"
    by (simp add: map_replicate_const)
  ultimately show ?thesis using assms(2)
    by (cases "foldM (\<lambda>s r. app (cachedKeyVectors c) (group_row ?P r) s) s [0..<group_rows ?P]")
       (simp_all add: dumpCachedKeyPayloads_def cleaned_def Let_def comp_def)
qed

section \<open>Packed caches\<close>

text \<open>No vector exceeds the capacity, and after one that is not full all are empty.\<close>

fun packed :: "nat \<Rightarrow> vals list \<Rightarrow> bool" where
  "packed cap [] = True"
| "packed cap (v # vs) = (length v \<le> cap \<and> (length v < cap \<longrightarrow> concat vs = []) \<and> packed cap vs)"

lemma cache_value_ok:
  "packed cap c \<Longrightarrow> 0 < cap \<Longrightarrow> packed cap (cache_value cap c x) \<and> concat (cache_value cap c x) = concat c @ [x] \<and> cache_value cap c x \<noteq> []"
  by (induction c) (auto simp del: concat_eq_Nil_conv)

lemma cache_values_ok:
  "packed cap c \<Longrightarrow> 0 < cap \<Longrightarrow> c \<noteq> [] \<Longrightarrow>
   packed cap (foldl (cache_value cap) c xs) \<and> concat (foldl (cache_value cap) c xs) = concat c @ xs \<and> foldl (cache_value cap) c xs \<noteq> []"
proof (induction xs arbitrary: c)
  case (Cons x xs)
  from cache_value_ok[OF Cons.prems(1,2), of x] Cons.IH[of "cache_value cap c x"] Cons.prems(2) show ?case by simp
qed simp

lemma packed_live:
  "packed cap c \<Longrightarrow> 0 < cap \<Longrightarrow> concat (take (live c) c) = concat c"
  by (induction c) (auto simp: live_def)

lemma packed_live_pos: "packed cap c \<Longrightarrow> 0 < cap \<Longrightarrow> concat c \<noteq> [] \<Longrightarrow> 1 \<le> live c"
  by (cases c) (auto simp: live_def)

lemma packed_lengths: "packed cap c \<Longrightarrow> v \<in> set c \<Longrightarrow> length v \<le> cap"
  by (induction c) auto

lemma packed_emptied: "packed cap (map (\<lambda>_. []) c)"
  by (induction c) auto

lemma concat_take_upt: "m \<le> length c \<Longrightarrow> m \<le> n \<Longrightarrow> concat (map (\<lambda>r. if r < m then c ! r else []) [0..<n]) = concat (take m c)"
proof (induction n arbitrary: m)
  case (Suc n)
  show ?case
  proof (cases "m = Suc n")
    case True
    with Suc.prems have "take m c = take n c @ [c ! n]" by (simp add: take_Suc_conv_app_nth)
    moreover have "concat (map (\<lambda>r. if r < m then c ! r else []) [0..<n]) = concat (map (\<lambda>r. if r < n then c ! r else []) [0..<n])"
      using True by (intro arg_cong[where f = concat] map_cong) auto
    ultimately show ?thesis using Suc.IH[of n] Suc.prems True by simp
  next
    case False
    with Suc show ?thesis by simp
  qed
qed simp

lemma group_column:
  assumes "packed cap c" "0 < cap" "c = caches ! i" "i < length caches"
  shows "concat (map (\<lambda>r. group_row caches r ! i) [0..<group_rows caches]) = concat c"
proof -
  have "live c \<le> length c" "live c \<le> group_rows caches"
    using assms(3,4) live_le[of c caches] by (auto simp: live_def length_takeWhile_le)
  from concat_take_upt[OF this] packed_live[OF assms(1,2)] show ?thesis
    using assms(4) unfolding assms(3) by (simp add: group_row_def)
qed

section \<open>The log of the build\<close>

text \<open>
  What a chunk shows: its key vectors and the payload values that are copied. A run is a maximal sequence
  of consecutive chunks with the same key; it is complete when no payload column is empty over the whole
  run. A column of a key holds the values of its complete runs.
\<close>

type_synonym shown_chunk = "vals list \<times> vals list"

definition shown :: "chunk \<Rightarrow> shown_chunk" where
  "shown t = (fst t, shown_payloads [] (snd t))"

definition add_run :: "(vals list \<times> vals list list) list \<Rightarrow> shown_chunk \<Rightarrow> (vals list \<times> vals list list) list" where
  "add_run rs t = (if rs \<noteq> [] \<and> fst (last rs) = fst t then butlast rs @ [(fst t, snd (last rs) @ [snd t])] else rs @ [(fst t, [snd t])])"

definition key_runs :: "chunk list \<Rightarrow> (vals list \<times> vals list list) list" where
  "key_runs child = foldl add_run [] (map shown child)"

definition run_column :: "vals list list \<Rightarrow> nat \<Rightarrow> vals" where
  "run_column run i = concat (map (\<lambda>ps. ps ! i) run)"

definition complete :: "nat \<Rightarrow> vals list list \<Rightarrow> bool" where
  "complete np run \<longleftrightarrow> (\<forall>i < np. run_column run i \<noteq> [])"

definition kept_runs :: "nat \<Rightarrow> (vals list \<times> vals list list) list \<Rightarrow> ht_val option \<Rightarrow> nat \<Rightarrow> vals" where
  "kept_runs np rs x i = concat (map (\<lambda>(ks, run). if ks = [[x]] \<and> complete np run then run_column run i else []) rs)"

definition kept_column :: "nat \<Rightarrow> chunk list \<Rightarrow> ht_val option \<Rightarrow> nat \<Rightarrow> vals" where
  "kept_column np child x i = kept_runs np (key_runs child) x i"

text \<open>What the child delivers: one key value per chunk and one payload vector per column.\<close>

definition child_ok :: "nat \<Rightarrow> chunk list \<Rightarrow> bool" where
  "child_ok np child \<longleftrightarrow> (\<forall>(ks, ps)\<in>set child. (\<exists>x. ks = [[x]]) \<and> length ps = np)"

text \<open>The values of a payload column under a key, over a list of key and payload vectors.\<close>

definition column_of :: "shown_chunk list \<Rightarrow> ht_val option \<Rightarrow> nat \<Rightarrow> vals" where
  "column_of rs x i = concat (map (\<lambda>(ks, ps). if ks = [[x]] then ps ! i else []) rs)"

definition log_ok :: "nat \<Rightarrow> nat \<Rightarrow> chunk list \<Rightarrow> shown_chunk list \<Rightarrow> bool" where
  "log_ok cap np child log \<longleftrightarrow> (\<forall>(ks, ps)\<in>set log. ks \<in> fst ` set child \<and> length ps = np \<and> (\<forall>p\<in>set ps. length p \<le> cap))"

lemma shown_payloads_length [simp]: "length (shown_payloads e ps) = length ps"
  by (induction e ps rule: shown_payloads.induct) auto

lemma shown_payloads_distinct:
  "distinct (map fst ps) \<Longrightarrow> set (map fst ps) \<inter> set e = {} \<Longrightarrow> shown_payloads e ps = map snd ps"
  by (induction e ps rule: shown_payloads.induct) auto

lemma column_of_append [simp]: "column_of (rs @ rs') x i = column_of rs x i @ column_of rs' x i"
  by (simp add: column_of_def)

lemma kept_runs_append [simp]: "kept_runs np (rs @ rs') x i = kept_runs np rs x i @ kept_runs np rs' x i"
  by (simp add: kept_runs_def)

lemma kept_runs_simps [simp]: "kept_runs np [] x i = []"
  "kept_runs np [(ks, run)] x i = (if ks = [[x]] \<and> complete np run then run_column run i else [])"
  by (simp_all add: kept_runs_def)

lemma run_column_snoc [simp]: "run_column (run @ [ps]) i = run_column run i @ ps ! i" "run_column [] i = []"
  by (simp_all add: run_column_def)

lemma key_runs_Nil [simp]: "key_runs [] = []"
  by (simp add: key_runs_def)

lemma key_runs_same: "key_runs child = rs @ [(ks, run)] \<Longrightarrow> key_runs (child @ [(ks, ps)]) = rs @ [(ks, run @ [shown_payloads [] ps])]"
  by (simp add: key_runs_def add_run_def shown_def)

lemma key_runs_new: "key_runs child = [] \<or> fst (last (key_runs child)) \<noteq> ks \<Longrightarrow>
    key_runs (child @ [(ks, ps)]) = key_runs child @ [(ks, [shown_payloads [] ps])]"
  by (auto simp: key_runs_def add_run_def shown_def)

lemma column_of_group:
  "column_of (map (\<lambda>r. ([[x]], f r)) rs) y i = (if y = x then concat (map (\<lambda>r. f r ! i) rs) else [])"
  by (induction rs) (auto simp: column_of_def)

text \<open>A key whose chunks all lie in one run keeps either all its values or none.\<close>

definition consecutive :: "chunk list \<Rightarrow> ht_val option \<Rightarrow> bool" where
  "consecutive child x \<longleftrightarrow> length (filter (\<lambda>(ks, run). ks = [[x]]) (key_runs child)) \<le> 1"

definition delivered :: "chunk list \<Rightarrow> ht_val option \<Rightarrow> nat \<Rightarrow> vals" where
  "delivered child x i = concat (map (\<lambda>(ks, ps). if ks = [[x]] then snd (ps ! i) else []) child)"

definition own_states :: "chunk list \<Rightarrow> bool" where
  "own_states child \<longleftrightarrow> (\<forall>(ks, ps)\<in>set child. distinct (map fst ps))"

lemma runs_delivered:
  assumes "child_ok np child" "own_states child" "i < np"
  shows "concat (map (\<lambda>(ks, run). if ks = [[x]] then run_column run i else []) (key_runs child)) = delivered child x i"
  using assms(1,2)
proof (induction child rule: rev_induct)
  case (snoc t child)
  obtain ks ps where t: "t = (ks, ps)" by (cases t)
  have ps: "shown_payloads [] ps ! i = snd (ps ! i)" "length ps = np"
    using snoc.prems t assms(3) by (auto simp: shown_payloads_distinct own_states_def child_ok_def)
  have IH: "concat (map (\<lambda>(ks, run). if ks = [[x]] then run_column run i else []) (key_runs child)) = delivered child x i"
    using snoc by (auto simp: child_ok_def own_states_def)
  show ?case
  proof (cases "key_runs child = [] \<or> fst (last (key_runs child)) \<noteq> ks")
    case True
    then show ?thesis using IH ps by (simp add: t key_runs_new delivered_def run_column_def)
  next
    case False
    then obtain rs run where r: "key_runs child = rs @ [(ks, run)]" by (metis append_butlast_last_id prod.collapse)
    show ?thesis using IH ps unfolding t key_runs_same[OF r] by (auto simp: r delivered_def)
  qed
qed (simp add: delivered_def)

lemma kept_consecutive:
  assumes "child_ok np child" "own_states child" "consecutive child x" "i < np"
  shows "kept_column np child x i = (if \<forall>j < np. delivered child x j \<noteq> [] then delivered child x i else [])"
proof -
  have split: "concat (map (\<lambda>(ks, run). if ks = [[x]] \<and> P run then run_column run j else []) rs) =
      concat (map (\<lambda>(ks, run). if P run then run_column run j else []) (filter (\<lambda>(ks, run). ks = [[x]]) rs))" for P rs j
    by (induction rs) auto
  have d: "delivered child x j = concat (map (\<lambda>(ks, run). run_column run j) (filter (\<lambda>(ks, run). ks = [[x]]) (key_runs child)))" if "j < np" for j
    using runs_delivered[OF assms(1,2) that, of x] split[of "\<lambda>_. True" j "key_runs child"] by simp
  have k: "kept_column np child x i =
      concat (map (\<lambda>(ks, run). if complete np run then run_column run i else []) (filter (\<lambda>(ks, run). ks = [[x]]) (key_runs child)))"
    unfolding kept_column_def kept_runs_def by (rule split)
  consider "filter (\<lambda>(ks, run). ks = [[x]]) (key_runs child) = []"
    | t where "filter (\<lambda>(ks, run). ks = [[x]]) (key_runs child) = [t]"
    using assms(3) unfolding consecutive_def
    by (cases "filter (\<lambda>(ks, run). ks = [[x]]) (key_runs child)" rule: remdups_adj.cases) auto
  then show ?thesis
  proof cases
    case 1
    then show ?thesis using d[OF assms(4)] unfolding k by simp
  next
    case (2 t)
    then show ?thesis using d assms(4) unfolding k by (cases t) (auto simp: complete_def)
  qed
qed

definition caches_ok :: "nat \<Rightarrow> nat \<Rightarrow> build_cache \<Rightarrow> bool" where
  "caches_ok cap np c \<longleftrightarrow> length (cachedPayloadVectors c) = np \<and> (\<forall>cache\<in>set (cachedPayloadVectors c). cache \<noteq> [] \<and> packed cap cache)"

text \<open>A cache that holds a run of key \<open>x\<close>.\<close>

definition holds_run :: "nat \<Rightarrow> nat \<Rightarrow> ht_val option \<Rightarrow> vals list list \<Rightarrow> build_cache \<Rightarrow> bool" where
  "holds_run cap np x run c \<longleftrightarrow> caches_ok cap np c \<and> cachedKeyVectors c = [[x]] \<and>
     (\<forall>i < np. concat (cachedPayloadVectors c ! i) = run_column run i)"

definition empty_cache :: "nat \<Rightarrow> nat \<Rightarrow> build_cache \<Rightarrow> bool" where
  "empty_cache cap np c \<longleftrightarrow> caches_ok cap np c \<and> cachedKeyVectors c = [[]] \<and> (\<forall>cache\<in>set (cachedPayloadVectors c). concat cache = [])"

lemma empty_cleaned: "caches_ok cap np c \<Longrightarrow> length (cachedKeyVectors c) = 1 \<Longrightarrow> empty_cache cap np (cleaned c)"
  by (auto simp: empty_cache_def caches_ok_def cleaned_def packed_emptied length_Suc_conv)

lemma dump_empty:
  assumes "empty_cache cap np c"
  shows "dumpCachedKeyPayloads app c s = Some (cleaned c, s)"
  using assms by (simp add: dumpCachedKeyPayloads_def empty_cache_def cleaned_def)

lemma cache_tuple:
  assumes "caches_ok cap np c" "0 < cap" "length ps = np"
    and "if new then cachedKeyVectors c = [[]] \<and> ks = [[x]] else cachedKeyVectors c = [[x]]"
  shows "\<exists>c'. cacheKeyPayloads cap new ks ps c = Some c' \<and> caches_ok cap np c' \<and> cachedKeyVectors c' = [[x]] \<and>
    (\<forall>i < np. concat (cachedPayloadVectors c' ! i) = concat (cachedPayloadVectors c ! i) @ shown_payloads [] ps ! i)"
proof -
  let ?P = "map2 (foldl (cache_value cap)) (cachedPayloadVectors c) (shown_payloads [] ps)"
  have len: "length (cachedPayloadVectors c) = np" using assms(1) by (simp add: caches_ok_def)
  have col: "packed cap (?P ! i) \<and> concat (?P ! i) = concat (cachedPayloadVectors c ! i) @ shown_payloads [] ps ! i \<and> ?P ! i \<noteq> []" if "i < np" for i
    using cache_values_ok[of cap "cachedPayloadVectors c ! i" "shown_payloads [] ps ! i"] assms(1-3) that len by (simp add: caches_ok_def)
  have "cacheKeyPayloads cap new ks ps c = Some \<lparr>cachedKeyVectors = [[x]], cachedPayloadVectors = ?P\<rparr>"
    using assms(2,4) by (cases new) (auto simp: cacheKeyPayloads_def)
  moreover have "\<forall>cache\<in>set ?P. cache \<noteq> [] \<and> packed cap cache"
  proof
    fix cache assume "cache \<in> set ?P"
    then obtain i where i: "i < np" "cache = ?P ! i" using len assms(3) unfolding in_set_conv_nth by auto
    then show "cache \<noteq> [] \<and> packed cap cache" using col[of i] by auto
  qed
  ultimately show ?thesis using col len assms(3) by (auto simp: caches_ok_def simp del: set_map)
qed

abbreviation append_all :: "(vals list \<Rightarrow> vals list \<Rightarrow> 's \<Rightarrow> 's option) \<Rightarrow> 's \<Rightarrow> shown_chunk list \<Rightarrow> 's option" where
  "append_all app s log \<equiv> foldM (\<lambda>s (ks, ps). app ks ps s) s log"

text \<open>The rows a cache is written as: none when a payload column is empty.\<close>

definition group_log :: "ht_val option \<Rightarrow> build_cache \<Rightarrow> shown_chunk list" where
  "group_log x c = (if \<exists>cache\<in>set (cachedPayloadVectors c). concat cache = [] then []
     else map (\<lambda>r. ([[x]], group_row (cachedPayloadVectors c) r)) [0..<group_rows (cachedPayloadVectors c)])"

lemma packed_first: "packed cap c \<Longrightarrow> 0 < cap \<Longrightarrow> c \<noteq> [] \<Longrightarrow> concat c = [] \<longleftrightarrow> c ! 0 = []"
  by (cases c) (auto simp del: concat_eq_Nil_conv simp: concat_eq_Nil_conv[symmetric])

lemma dump_run:
  assumes "caches_ok cap np c" "cachedKeyVectors c = [[x]]" "0 < cap"
  shows "dumpCachedKeyPayloads app c s = map_option (Pair (cleaned c)) (append_all app s (group_log x c))"
proof (cases "\<exists>cache\<in>set (cachedPayloadVectors c). concat cache = []")
  case True
  then obtain cache where c: "cache \<in> set (cachedPayloadVectors c)" "concat cache = []" by blast
  then have "cache ! 0 = []" using packed_first[of cap cache] assms(1,3) by (auto simp: caches_ok_def simp del: concat_eq_Nil_conv)
  then have "list_ex (\<lambda>cache. cache ! 0 = []) (cachedPayloadVectors c)" using c(1) by (auto simp: list_ex_iff)
  then show ?thesis using True by (simp add: dumpCachedKeyPayloads_def group_log_def cleaned_def)
next
  case False
  then have "\<forall>cache\<in>set (cachedPayloadVectors c). 1 \<le> live cache"
    using packed_live_pos[OF _ assms(3)] assms(1) by (auto simp: caches_ok_def simp del: concat_eq_Nil_conv)
  moreover have "group_log x c = map (\<lambda>r. ([[x]], group_row (cachedPayloadVectors c) r)) [0..<group_rows (cachedPayloadVectors c)]"
    unfolding group_log_def by (rule if_not_P[OF False])
  ultimately show ?thesis using dump_rows[of c app s] assms(2) by (simp add: foldM_map)
qed

lemma group_log_ok:
  assumes "holds_run cap np x run c" "0 < cap"
  shows "i < np \<Longrightarrow> column_of (group_log x c) y i = kept_runs np [([[x]], run)] y i"
    and "[[x]] \<in> fst ` set child \<Longrightarrow> log_ok cap np child (group_log x c)"
proof -
  have len: "length (cachedPayloadVectors c) = np" and pk: "\<And>cache. cache \<in> set (cachedPayloadVectors c) \<Longrightarrow> packed cap cache"
    and run: "\<And>i. i < np \<Longrightarrow> concat (cachedPayloadVectors c ! i) = run_column run i"
    using assms(1) by (auto simp: holds_run_def caches_ok_def)
  have comp: "(\<exists>cache\<in>set (cachedPayloadVectors c). concat cache = []) \<longleftrightarrow> \<not> complete np run"
    unfolding complete_def using run len by (metis in_set_conv_nth)
  show "column_of (group_log x c) y i = kept_runs np [([[x]], run)] y i" if "i < np"
  proof (cases "complete np run")
    case True
    then have "group_log x c = map (\<lambda>r. ([[x]], group_row (cachedPayloadVectors c) r)) [0..<group_rows (cachedPayloadVectors c)]"
      unfolding group_log_def using comp by (intro if_not_P) blast
    with True group_column[OF pk assms(2) refl] run that len show ?thesis by (simp add: column_of_group)
  next
    case False
    with comp show ?thesis by (simp add: group_log_def column_of_def)
  qed
  show "log_ok cap np child (group_log x c)" if "[[x]] \<in> fst ` set child"
  proof -
    have "length (if r < live cache then cache ! r else []) \<le> cap" if "cache \<in> set (cachedPayloadVectors c)" for r cache
    proof -
      have "live cache \<le> length cache" by (simp add: live_def length_takeWhile_le)
      then show ?thesis using packed_lengths[OF pk[OF that]] by simp
    qed
    then have "length p \<le> cap" if "p \<in> set (group_row (cachedPayloadVectors c) r)" for p r
      using that by (auto simp: group_row_def simp del: if_image_distrib)
    moreover have "length (group_row (cachedPayloadVectors c) r) = np" for r by (simp add: group_row_def len)
    ultimately show ?thesis using that by (auto simp: log_ok_def group_log_def)
  qed
qed

text \<open>The rows written so far hold the complete runs before the last, and the caches hold the last run.\<close>

definition build_inv :: "nat \<Rightarrow> nat \<Rightarrow> chunk list \<Rightarrow> build_cache \<Rightarrow> shown_chunk list \<Rightarrow> bool" where
  "build_inv cap np chunks c log \<longleftrightarrow> log_ok cap np chunks log \<and>
     (empty_cache cap np c \<and> chunks = [] \<and> log = [] \<or>
      (\<exists>x rs run. key_runs chunks = rs @ [([[x]], run)] \<and> holds_run cap np x run c \<and> [[x]] \<in> fst ` set chunks \<and>
        (\<forall>y. \<forall>i < np. column_of log y i = kept_runs np rs y i)))"

lemma log_ok_mono: "log_ok cap np chunks log \<Longrightarrow> set chunks \<subseteq> set chunks' \<Longrightarrow> log_ok cap np chunks' log"
  by (fastforce simp: log_ok_def)

lemma log_ok_append: "log_ok cap np chunks (l @ l') \<longleftrightarrow> log_ok cap np chunks l \<and> log_ok cap np chunks l'"
  by (auto simp: log_ok_def)

lemma build_step_same:
  assumes "0 < cap" "holds_run cap np x run c" "length ps = np"
  shows "\<exists>c'. (\<forall>s. build_step cap app (c, s) ([[x]], ps) = Some (c', s)) \<and> holds_run cap np x (run @ [shown_payloads [] ps]) c'"
proof -
  have k: "cachedKeyVectors c = [[x]]" "caches_ok cap np c" "\<forall>i < np. concat (cachedPayloadVectors c ! i) = run_column run i"
    using assms(2) by (auto simp: holds_run_def)
  from cache_tuple[OF k(2) assms(1,3), of False "[[x]]" x] k obtain c' where
    c: "cacheKeyPayloads cap False [[x]] ps c = Some c'" "caches_ok cap np c'" "cachedKeyVectors c' = [[x]]"
    "\<forall>i < np. concat (cachedPayloadVectors c' ! i) = concat (cachedPayloadVectors c ! i) @ shown_payloads [] ps ! i" by auto
  have "build_step cap app (c, s) ([[x]], ps) = Some (c', s)" for s using k(1) c(1) by (simp add: build_step_def)
  with c k(3) show ?thesis by (intro exI[of _ c']) (simp add: holds_run_def)
qed

lemma build_step_new:
  assumes "0 < cap" "cachedKeyVectors c = [[]] \<or> cachedKeyVectors c = [[y]] \<and> y \<noteq> x" "length ps = np"
    and "caches_ok cap np c" and dump: "\<And>s. dumpCachedKeyPayloads app c s = map_option (Pair (cleaned c)) (append_all app s l)"
  shows "\<exists>c'. (\<forall>s. build_step cap app (c, s) ([[x]], ps) = map_option (Pair c') (append_all app s l)) \<and>
    holds_run cap np x [shown_payloads [] ps] c'"
proof -
  have e: "empty_cache cap np (cleaned c)" using empty_cleaned[OF assms(4)] assms(2) by auto
  then have k: "caches_ok cap np (cleaned c)" "cachedKeyVectors (cleaned c) = [[]]"
    "\<And>i. i < np \<Longrightarrow> concat (cachedPayloadVectors (cleaned c) ! i) = []"
    by (auto simp: empty_cache_def caches_ok_def simp del: concat_eq_Nil_conv)
  from cache_tuple[OF k(1) assms(1,3), of True "[[x]]" x] k(2) obtain c' where
    c: "cacheKeyPayloads cap True [[x]] ps (cleaned c) = Some c'" "caches_ok cap np c'" "cachedKeyVectors c' = [[x]]"
    "\<forall>i < np. concat (cachedPayloadVectors c' ! i) = concat (cachedPayloadVectors (cleaned c) ! i) @ shown_payloads [] ps ! i" by auto
  have "build_step cap app (c, s) ([[x]], ps) = map_option (Pair c') (append_all app s l)" for s
    using assms(2) c(1) by (cases "append_all app s l") (auto simp: build_step_def dump)
  with c(2-4) k(3) show ?thesis by (intro exI[of _ c']) (simp add: holds_run_def run_column_def)
qed

lemma build_steps:
  assumes "0 < cap" "child_ok np child"
  shows "\<exists>c log. build_inv cap np child c log \<and>
    (\<forall>s. foldM (build_step cap app) (init_cache 1 np, s) child = map_option (Pair c) (append_all app s log))"
  using assms(2)
proof (induction child rule: rev_induct)
  case Nil
  have "empty_cache cap np (init_cache 1 np)" by (auto simp: empty_cache_def caches_ok_def init_cache_def)
  then show ?case by (intro exI[of _ "init_cache 1 np"] exI[of _ "[]"]) (simp add: build_inv_def log_ok_def)
next
  case (snoc t chunks)
  obtain x ps where t: "t = ([[x]], ps)" "length ps = np" using snoc.prems by (auto simp: child_ok_def)
  from snoc obtain c log where i: "build_inv cap np chunks c log"
    "\<And>s. foldM (build_step cap app) (init_cache 1 np, s) chunks = map_option (Pair c) (append_all app s log)"
    by (auto simp: child_ok_def)
  have fin: ?case if "\<And>s. build_step cap app (c, s) t = map_option (Pair c') (append_all app s l)"
    "build_inv cap np (chunks @ [t]) c' (log @ l)" for c' l
  proof (intro exI conjI allI)
    show "build_inv cap np (chunks @ [t]) c' (log @ l)" by (rule that(2))
    show "foldM (build_step cap app) (init_cache 1 np, s) (chunks @ [t]) = map_option (Pair c') (append_all app s (log @ l))" for s
      using that(1) by (cases "append_all app s log") (simp_all add: foldM_append i(2) del: One_nat_def)
  qed
  have lg: "log_ok cap np (chunks @ [t]) log" by (rule log_ok_mono[of cap np chunks log]) (use i(1) in \<open>auto simp: build_inv_def\<close>)
  have mem: "[[x]] \<in> fst ` set (chunks @ [t])" using t(1) by simp
  from i(1) consider (empty) "empty_cache cap np c" "chunks = []" "log = []"
    | (group) y rs run where "key_runs chunks = rs @ [([[y]], run)]" "holds_run cap np y run c" "[[y]] \<in> fst ` set chunks"
      "\<forall>z. \<forall>i < np. column_of log z i = kept_runs np rs z i"
    by (auto simp: build_inv_def)
  then show ?case
  proof cases
    case empty
    then have k: "cachedKeyVectors c = [[]]" "caches_ok cap np c" by (auto simp: empty_cache_def)
    have "dumpCachedKeyPayloads app c s = map_option (Pair (cleaned c)) (append_all app s [])" for s
      using dump_empty[OF empty(1)] by simp
    from build_step_new[OF assms(1) _ t(2) k(2) this, of undefined x] k(1) obtain c' where
      c: "\<And>s. build_step cap app (c, s) ([[x]], ps) = map_option (Pair c') (append_all app s [])"
      "holds_run cap np x [shown_payloads [] ps] c'" by auto
    have "key_runs (chunks @ [t]) = [] @ [([[x]], [shown_payloads [] ps])]" using key_runs_new[of chunks "[[x]]" ps] empty(2) t(1) by simp
    moreover have "column_of log z i = kept_runs np [] z i" for z i using empty(3) by (simp add: column_of_def)
    ultimately have "build_inv cap np (chunks @ [t]) c' (log @ [])" unfolding build_inv_def using lg c(2) mem by auto
    with c(1) t(1) show ?thesis by (intro fin[of c' "[]"]) auto
  next
    case (group y rs run)
    have k: "cachedKeyVectors c = [[y]]" "caches_ok cap np c" using group(2) by (auto simp: holds_run_def)
    show ?thesis
    proof (cases "y = x")
      case True
      from build_step_same[OF assms(1) group(2) t(2), of app] obtain c' where
        c: "\<And>s. build_step cap app (c, s) ([[y]], ps) = Some (c', s)" "holds_run cap np y (run @ [shown_payloads [] ps]) c'" by auto
      have "key_runs (chunks @ [t]) = rs @ [([[y]], run @ [shown_payloads [] ps])]" using key_runs_same[OF group(1)] t(1) True by simp
      then have "build_inv cap np (chunks @ [t]) c' (log @ [])" unfolding build_inv_def using lg c(2) mem group(4) True by auto
      with c(1) t(1) True show ?thesis by (intro fin[of c' "[]"]) auto
    next
      case False
      from build_step_new[OF assms(1) _ t(2) k(2) dump_run[OF k(2,1) assms(1), of app], of y x] k(1) False obtain c' where
        c: "\<And>s. build_step cap app (c, s) ([[x]], ps) = map_option (Pair c') (append_all app s (group_log y c))"
        "holds_run cap np x [shown_payloads [] ps] c'" by auto
      have kr: "key_runs (chunks @ [t]) = (rs @ [([[y]], run)]) @ [([[x]], [shown_payloads [] ps])]"
        using key_runs_new[of chunks "[[x]]" ps] group(1) t(1) False by simp
      have "column_of (log @ group_log y c) z i = kept_runs np (rs @ [([[y]], run)]) z i" if "i < np" for z i
        using group(4) group_log_ok(1)[OF group(2) assms(1) that, of z] that by (simp del: kept_runs_simps)
      moreover have "log_ok cap np (chunks @ [t]) (group_log y c)" using group(3) by (intro group_log_ok(2)[OF group(2) assms(1)]) auto
      ultimately have "build_inv cap np (chunks @ [t]) c' (log @ group_log y c)"
        unfolding build_inv_def using lg c(2) kr mem by (auto simp: log_ok_append simp del: kept_runs_simps column_of_append kept_runs_append)
      with c(1) t(1) show ?thesis by (intro fin[of c' "group_log y c"]) auto
    qed
  qed
qed

text \<open>
  The build appends a sequence of rows that hold, for every key and payload column, the values of the
  complete runs of that key in their order. No list is longer than a vector.
\<close>

lemma build_local_ok:
  assumes "0 < cap" "child_ok np child"
  shows "\<exists>log. log_ok cap np child log \<and> (\<forall>x. \<forall>i < np. column_of log x i = kept_column np child x i) \<and>
    (\<forall>s. build_local cap app 1 np child s = append_all app s log)"
proof -
  from build_steps[OF assms, of app] obtain c log where b: "build_inv cap np child c log"
    "\<And>s. foldM (build_step cap app) (init_cache 1 np, s) child = map_option (Pair c) (append_all app s log)" by blast
  have fin: "build_local cap app 1 np child s = append_all app s (log @ l)"
    if "\<And>s. dumpCachedKeyPayloads app c s = map_option (Pair (cleaned c)) (append_all app s l)" for l s
  proof (cases "append_all app s log")
    case (Some s')
    then show ?thesis using that[of s'] by (cases "append_all app s' l") (simp_all add: build_local_def b(2) foldM_append del: One_nat_def)
  qed (simp add: build_local_def b(2) foldM_append del: One_nat_def)
  from b(1) consider (empty) "empty_cache cap np c" "child = []" "log = []"
    | (group) y rs run where "key_runs child = rs @ [([[y]], run)]" "holds_run cap np y run c" "[[y]] \<in> fst ` set child" "log_ok cap np child log"
      "\<forall>z. \<forall>i < np. column_of log z i = kept_runs np rs z i"
    by (auto simp: build_inv_def)
  then show ?thesis
  proof cases
    case empty
    with dump_empty[OF empty(1), of app] fin[of "[]"] show ?thesis
      by (intro exI[of _ "[]"]) (auto simp: log_ok_def column_of_def kept_column_def)
  next
    case (group y rs run)
    have k: "cachedKeyVectors c = [[y]]" "caches_ok cap np c" using group(2) by (auto simp: holds_run_def)
    have "column_of (log @ group_log y c) z i = kept_column np child z i" if "i < np" for z i
      using group(1,5) group_log_ok(1)[OF group(2) assms(1) that] that by (simp add: kept_column_def del: kept_runs_simps)
    moreover have "log_ok cap np child (log @ group_log y c)"
      using group_log_ok(2)[OF group(2) assms(1) group(3)] group(4) by (simp add: log_ok_append)
    ultimately show ?thesis using fin[OF dump_run[OF k(2,1) assms(1)]] by blast
  qed
qed

section \<open>The rows of the hash table\<close>

text \<open>The schema of the build: a flat key, unflat payload lists, the hash and the previous tuple.\<close>

definition build_schema_ok :: "nat \<Rightarrow> FactorizedTableSchema \<Rightarrow> bool" where
  "build_schema_ok np s \<longleftrightarrow> length (columns s) = np + 3 \<and> isFlat (columns s ! 0) \<and> isFlat (columns s ! (np + 1)) \<and>
     (\<forall>j < np. \<not> isFlat (columns s ! Suc j))"

lemma build_schema_layout: "layout s = layout s' \<Longrightarrow> build_schema_ok np s = build_schema_ok np s'"
  using layout_columns[of s s'] by (auto simp: build_schema_ok_def)

definition table_ready :: "nat \<Rightarrow> JoinHashTable \<Rightarrow> bool" where
  "table_ready np ht \<longleftrightarrow> keyed ht \<and> table_ok (factorizedTable ht) \<and> build_schema_ok np (tableSchema (factorizedTable ht))"

lemma cached_selection:
  assumes "length vals \<le> cap" "i < length sts" "sts ! i = cached_state cap flat vals"
  shows "vsel (as_vector cap sts (cached_vector cap i vals)) = [0..<length vals]"
    and "selected (as_vector cap sts (cached_vector cap i vals)) = vals"
    and "sel_ok cap (csSel (sts ! i))"
proof -
  show v: "vsel (as_vector cap sts (cached_vector cap i vals)) = [0..<length vals]"
    using assms by (simp add: as_vector_def cached_vector_def cached_state_def getSelectedPositions_def pointee_def
      new_SelectionVector_def setToUnfiltered_def INCREMENTAL_SELECTED_POS_def)
  then show "selected (as_vector cap sts (cached_vector cap i vals)) = vals"
    by (auto simp: selected_def as_vector_def cached_vector_def nth_append intro!: nth_equalityI)
  show "sel_ok cap (csSel (sts ! i))"
    using assms by (simp add: cached_state_def sel_ok_def getCapacity_def new_SelectionVector_def setToUnfiltered_def)
qed

lemma append_cached_row:
  assumes r: "table_ready np ht" and ps: "length ps = np" "\<forall>p\<in>set ps. length p \<le> cap" and cap: "0 < cap"
  shows "\<exists>heap' ht' row. append_cached cap flat [[Some (IdVal k)]] ps (heap, ht) = Some (heap', ht') \<and> table_ready np ht' \<and>
    trows (factorizedTable ht') = trows (factorizedTable ht) @ [row] \<and> row_key row = k \<and> (\<exists>ext. heap' = heap @ ext) \<and>
    (\<forall>j < np. shows_as heap' row (Suc j) (VList (ps ! j))) \<and> hashSlotsBlocks ht' = hashSlotsBlocks ht \<and>
    numSlotsPerBlockLog2 ht' = numSlotsPerBlockLog2 ht \<and> layout (tableSchema (factorizedTable ht')) = layout (tableSchema (factorizedTable ht)) \<and>
    flatTupleBlockSize (factorizedTable ht') = flatTupleBlockSize (factorizedTable ht)"
proof -
  let ?sts = "cached_state cap flat [Some (IdVal k)] # map (cached_state cap False) ps"
  let ?key = "cached_vector cap 0 [Some (IdVal k)]" and ?P = "map (\<lambda>(i, v). cached_vector cap i v) (enumerate 1 ps)"
  let ?s = "tableSchema (factorizedTable ht)"
  have kd: "keyed ht" and tb: "table_ok (factorizedTable ht)" and sc: "build_schema_ok np ?s" using r by (auto simp: table_ready_def)
  have st: "cvState ?key = 0" "0 < length ?sts" "selectedSize (csSel (?sts ! 0)) = 1"
    by (simp_all add: cached_vector_def cached_state_def)
  have k0: "vsel (as_vector cap ?sts ?key) = [0]" "sel_ok cap (csSel (?sts ! 0))" "vvals (as_vector cap ?sts ?key) ! 0 = Some (IdVal k)"
    using cached_selection[of "[Some (IdVal k)]" cap 0 ?sts flat] cap by (simp_all add: as_vector_def cached_vector_def)
  have P: "length ?P = np" "\<And>j. j < np \<Longrightarrow> ?P ! j = cached_vector cap (Suc j) (ps ! j)"
    using ps(1) by (simp_all add: nth_enumerate_eq)
  have sel: "selected (as_vector cap ?sts (?P ! j)) = ps ! j" "\<not> vflat (as_vector cap ?sts (?P ! j))" if "j < np" for j
    using cached_selection(2)[of "ps ! j" cap "Suc j" ?sts False] P(2)[OF that] ps that
    by (auto simp: as_vector_def cached_vector_def cached_state_def)
  have ks: "key_schema_ok ?s (map (as_vector cap ?sts) ?P)"
    using sc sel(2) P(1) by (auto simp: key_schema_ok_def build_schema_ok_def simp del: map_map)
  have kc: "key_column_ok cap (as_vector cap ?sts ?key)" using k0 cap by (simp add: key_column_ok_def)
  have "cvNoNulls ?key" by (simp add: cached_vector_def)
  from appendVectors_ok[OF kd tb this _ _ ks kc, of heap, unfolded st] st(2) k0(2) obtain heap' ht' new where
    a: "appendVectors cap [?key] ?P 0 (?sts, heap, ht) = Some (1, ?sts, heap', ht')" "keyed ht'" "table_ok (factorizedTable ht')"
    "trows (factorizedTable ht') = trows (factorizedTable ht) @ new" "length new = 1" "\<exists>ext. heap' = heap @ ext"
    "hashSlotsBlocks ht' = hashSlotsBlocks ht" "numSlotsPerBlockLog2 ht' = numSlotsPerBlockLog2 ht"
    "layout (tableSchema (factorizedTable ht')) = layout ?s" "flatTupleBlockSize (factorizedTable ht') = flatTupleBlockSize (factorizedTable ht)"
    "row_key (new ! 0) = selected_key (as_vector cap ?sts ?key) 0"
    "\<And>j. j < length ?P \<Longrightarrow> shows_as heap' (new ! 0) (Suc j) (view_of (isFlat (columns ?s ! Suc j)) (as_vector cap ?sts (?P ! j)) 0)"
    by auto
  obtain row where row: "new = [row]" using a(5) by (auto simp: length_Suc_conv)
  have "shows_as heap' row (Suc j) (VList (ps ! j))" if "j < np" for j
    using a(12)[of j] sel(1)[OF that] sc that P(1) row by (simp add: view_of_def build_schema_ok_def)
  moreover have "row_key row = k" using a(11) row k0 by (simp add: selected_key_def)
  moreover have "append_cached cap flat [[Some (IdVal k)]] ps (heap, ht) = Some (heap', ht')"
    using a(1) by (simp add: append_cached_def comp_def)
  moreover have "table_ready np ht'" using a(2,3) sc build_schema_layout[OF a(9)] by (simp add: table_ready_def)
  ultimately show ?thesis using a(4,6-10) row by (intro exI[of _ heap'] exI[of _ ht'] exI[of _ row]) simp
qed

text \<open>The list of a row under a payload column, and the values of a key over all rows of a table.\<close>

definition row_values :: "ht_val overflow_heap \<Rightarrow> nat \<Rightarrow> ht_val row \<Rightarrow> vals" where
  "row_values heap col r = (case cell_view heap r col of VList vs \<Rightarrow> vs | _ \<Rightarrow> [])"

definition key_column :: "ht_val overflow_heap \<Rightarrow> ht_val row list \<Rightarrow> nodeID \<Rightarrow> nat \<Rightarrow> vals" where
  "key_column heap rs k i = concat (map (row_values heap (Suc i)) (filter (\<lambda>r. row_key r = k) rs))"

definition shows_log :: "nat \<Rightarrow> ht_val overflow_heap \<Rightarrow> shown_chunk list \<Rightarrow> ht_val row list \<Rightarrow> bool" where
  "shows_log np heap log rs \<longleftrightarrow> list_all2 (\<lambda>(ks, ps) r. ks = [[Some (IdVal (row_key r))]] \<and>
     (\<forall>j < np. shows_as heap r (Suc j) (VList (ps ! j)))) log rs"

lemma shows_log_column: "shows_log np heap log rs \<Longrightarrow> i < np \<Longrightarrow> key_column heap rs k i = column_of log (Some (IdVal k)) i"
  unfolding shows_log_def
  by (induction log rs rule: list_all2_induct) (auto simp: key_column_def column_of_def row_values_def shows_as_def)

lemma append_log_rows:
  assumes "table_ready np ht" "log_ok cap np child log" "0 < cap" "\<forall>(ks, ps)\<in>set child. \<exists>k. ks = [[Some (IdVal k)]]"
  shows "\<exists>heap' ht' new. append_all (append_cached cap flat) (heap, ht) log = Some (heap', ht') \<and> table_ready np ht' \<and>
    trows (factorizedTable ht') = trows (factorizedTable ht) @ new \<and> shows_log np heap' log new \<and> (\<exists>ext. heap' = heap @ ext) \<and>
    hashSlotsBlocks ht' = hashSlotsBlocks ht \<and> numSlotsPerBlockLog2 ht' = numSlotsPerBlockLog2 ht \<and>
    layout (tableSchema (factorizedTable ht')) = layout (tableSchema (factorizedTable ht)) \<and>
    flatTupleBlockSize (factorizedTable ht') = flatTupleBlockSize (factorizedTable ht)"
  using assms(2)
proof (induction log rule: rev_induct)
  case Nil
  with assms(1) show ?case by (auto simp: shows_log_def)
next
  case (snoc t log)
  obtain ks ps where t: "t = (ks, ps)" by (cases t)
  have p: "length ps = np" "\<forall>p\<in>set ps. length p \<le> cap" "ks \<in> fst ` set child"
    using snoc.prems t by (auto simp: log_ok_append log_ok_def)
  then obtain k where k: "ks = [[Some (IdVal k)]]" using assms(4) by auto
  from snoc obtain heap' ht' new where i: "append_all (append_cached cap flat) (heap, ht) log = Some (heap', ht')" "table_ready np ht'"
    "trows (factorizedTable ht') = trows (factorizedTable ht) @ new" "shows_log np heap' log new" "\<exists>ext. heap' = heap @ ext"
    "hashSlotsBlocks ht' = hashSlotsBlocks ht" "numSlotsPerBlockLog2 ht' = numSlotsPerBlockLog2 ht"
    "flatTupleBlockSize (factorizedTable ht') = flatTupleBlockSize (factorizedTable ht)"
    "layout (tableSchema (factorizedTable ht')) = layout (tableSchema (factorizedTable ht))" by (auto simp: log_ok_append)
  from append_cached_row[OF i(2) p(1,2) assms(3), of flat k heap'] obtain heap'' ht'' row where
    a: "append_cached cap flat [[Some (IdVal k)]] ps (heap', ht') = Some (heap'', ht'')" "table_ready np ht''"
    "trows (factorizedTable ht'') = trows (factorizedTable ht') @ [row]" "row_key row = k" "\<exists>ext. heap'' = heap' @ ext"
    "\<forall>j < np. shows_as heap'' row (Suc j) (VList (ps ! j))" "hashSlotsBlocks ht'' = hashSlotsBlocks ht'"
    "numSlotsPerBlockLog2 ht'' = numSlotsPerBlockLog2 ht'" "flatTupleBlockSize (factorizedTable ht'') = flatTupleBlockSize (factorizedTable ht')"
    "layout (tableSchema (factorizedTable ht'')) = layout (tableSchema (factorizedTable ht'))" by blast
  have "shows_log np heap'' log new"
    using i(4) a(5) unfolding shows_log_def by (auto elim!: list_all2_mono intro: shows_as_append)
  then have "shows_log np heap'' (log @ [t]) (new @ [row])"
    using a(4,6) t k unfolding shows_log_def by (auto intro!: list_all2_appendI)
  moreover have "\<exists>ext. heap'' = heap @ ext" using i(5) a(5) by auto
  moreover have "append_all (append_cached cap flat) (heap, ht) (log @ [t]) = Some (heap'', ht'')"
    using i(1) a(1) t k by (simp add: foldM_append)
  ultimately show ?case using a(2,3,7-10) i(3,6-9) by (intro exI[of _ heap''] exI[of _ ht''] exI[of _ "new @ [row]"]) simp
qed

lemma layout_sizes:
  assumes "layout s = layout s'" "schema_ok s" "schema_ok s'"
  shows "colOffsets s = colOffsets s'" "numBytesForDataPerTuple s = numBytesForDataPerTuple s'"
    "numBytesForNullMapPerTuple s = numBytesForNullMapPerTuple s'"
proof -
  have "map (\<lambda>(u, g, n). n) (layout s) = map numBytes (columns s)" for s by (simp add: layout_def comp_def)
  then have nb: "map numBytes (columns s) = map numBytes (columns s')" using assms(1) by metis
  then have len: "length (columns s) = length (columns s')" by (metis length_map)
  show "colOffsets s = colOffsets s'"
    using assms(2,3) nb len by (intro nth_equalityI) (auto simp: schema_ok_def take_map [symmetric])
  show "numBytesForDataPerTuple s = numBytesForDataPerTuple s'" "numBytesForNullMapPerTuple s = numBytesForNullMapPerTuple s'"
    using assms(2,3) nb len by (simp_all add: schema_ok_def)
qed

lemma schema_eq_layout:
  assumes "layout s = layout s'" "schema_ok s" "schema_ok s'" "schema_eq t s"
  shows "schema_eq t s'"
proof -
  have len: "length (columns s) = length (columns s')" using layout_columns[OF assms(1)] by blast
  have "column_eq (columns t ! i) (columns s' ! i)" if "column_eq (columns t ! i) (columns s ! i)" "i < length (columns s)" for i
  proof -
    have "layout s ! i = layout s' ! i" using assms(1) by simp
    then show ?thesis using that len by (simp add: layout_def column_eq_def)
  qed
  with assms(4) len layout_sizes[OF assms(1-3)] show ?thesis by (auto simp: schema_eq_def list_all_iff split: if_splits)
qed

lemma build_table_ok:
  assumes "0 < cap" "table_ready np ht" "child_ok np child" "\<forall>(ks, ps)\<in>set child. \<exists>k. ks = [[Some (IdVal k)]]"
  shows "\<exists>heap' ht' new. build_local cap (append_cached cap flat) 1 np child (heap, ht) = Some (heap', ht') \<and> table_ready np ht' \<and>
    trows (factorizedTable ht') = trows (factorizedTable ht) @ new \<and> (\<exists>ext. heap' = heap @ ext) \<and>
    (\<forall>k. \<forall>i < np. key_column heap' new k i = kept_column np child (Some (IdVal k)) i) \<and>
    (\<forall>r\<in>set new. \<forall>i < np. \<exists>vs. shows_as heap' r (Suc i) (VList vs) \<and> length vs \<le> cap) \<and>
    hashSlotsBlocks ht' = hashSlotsBlocks ht \<and> numSlotsPerBlockLog2 ht' = numSlotsPerBlockLog2 ht \<and>
    layout (tableSchema (factorizedTable ht')) = layout (tableSchema (factorizedTable ht)) \<and>
    flatTupleBlockSize (factorizedTable ht') = flatTupleBlockSize (factorizedTable ht)"
proof -
  from build_local_ok[OF assms(1,3), of "append_cached cap flat"] obtain log where
    l: "log_ok cap np child log" "\<forall>x. \<forall>i < np. column_of log x i = kept_column np child x i"
    "\<And>s. build_local cap (append_cached cap flat) 1 np child s = append_all (append_cached cap flat) s log" by blast
  from append_log_rows[OF assms(2) l(1) assms(1,4), of flat heap] obtain heap' ht' new where
    a: "append_all (append_cached cap flat) (heap, ht) log = Some (heap', ht')" "table_ready np ht'"
    "trows (factorizedTable ht') = trows (factorizedTable ht) @ new" "shows_log np heap' log new" "\<exists>ext. heap' = heap @ ext"
    "hashSlotsBlocks ht' = hashSlotsBlocks ht" "numSlotsPerBlockLog2 ht' = numSlotsPerBlockLog2 ht"
    "layout (tableSchema (factorizedTable ht')) = layout (tableSchema (factorizedTable ht))"
    "flatTupleBlockSize (factorizedTable ht') = flatTupleBlockSize (factorizedTable ht)" by blast
  have "\<exists>vs. shows_as heap' r (Suc i) (VList vs) \<and> length vs \<le> cap" if r: "r \<in> set new" and i: "i < np" for r i
  proof -
    from r obtain j where j: "j < length new" "r = new ! j" by (auto simp: in_set_conv_nth)
    then have jl: "j < length log" and "shows_as heap' r (Suc i) (VList (snd (log ! j) ! i))"
      using a(4) i unfolding shows_log_def list_all2_conv_all_nth by (simp, cases "log ! j", auto)
    moreover have "length (snd (log ! j) ! i) \<le> cap"
      using l(1) nth_mem[OF jl] i by (cases "log ! j") (auto simp: log_ok_def)
    ultimately show ?thesis by blast
  qed
  moreover have "key_column heap' new k i = kept_column np child (Some (IdVal k)) i" if "i < np" for k i
    using shows_log_column[OF a(4) that] l(2) that by simp
  ultimately show ?thesis using a unfolding l(3) by blast
qed

lemma executeInternal_ok:
  assumes "0 < cap" "table_ready np ht" "child_ok np child" "\<forall>(ks, ps)\<in>set child. \<exists>k. ks = [[Some (IdVal k)]]"
    and "merged_ok (factorizedTable shared)" "schema_eq (tableSchema (factorizedTable shared)) (tableSchema (factorizedTable ht))"
    and "flatTupleBlockSize (factorizedTable ht) = flatTupleBlockSize (factorizedTable shared)" "trows (factorizedTable ht) = []"
  shows "\<exists>heap' ht' new. executeInternal cap flat 1 np child shared (heap, ht) = Some (heap', ht') \<and>
    mset (trows (factorizedTable ht')) = mset (trows (factorizedTable shared)) + mset new \<and>
    (\<forall>k. \<forall>i < np. key_column heap' new k i = kept_column np child (Some (IdVal k)) i) \<and>
    (\<forall>r\<in>set new. \<forall>i < np. \<exists>vs. shows_as heap' r (Suc i) (VList vs) \<and> length vs \<le> cap)"
proof -
  from build_table_ok[OF assms(1-4), of flat heap] obtain heap' ht' new where
    b: "build_local cap (append_cached cap flat) 1 np child (heap, ht) = Some (heap', ht')" "table_ready np ht'"
    "trows (factorizedTable ht') = trows (factorizedTable ht) @ new"
    "\<forall>k. \<forall>i < np. key_column heap' new k i = kept_column np child (Some (IdVal k)) i"
    "\<forall>r\<in>set new. \<forall>i < np. \<exists>vs. shows_as heap' r (Suc i) (VList vs) \<and> length vs \<le> cap"
    "layout (tableSchema (factorizedTable ht')) = layout (tableSchema (factorizedTable ht))"
    "flatTupleBlockSize (factorizedTable ht') = flatTupleBlockSize (factorizedTable ht)" by blast
  have ok: "table_ok (factorizedTable ht)" "table_ok (factorizedTable ht')" using assms(2) b(2) by (simp_all add: table_ready_def)
  then have "schema_ok (tableSchema (factorizedTable ht))" "schema_ok (tableSchema (factorizedTable ht'))" by (simp_all add: table_ok_def)
  from schema_eq_layout[OF b(6)[symmetric] this assms(6)]
  have "schema_eq (tableSchema (factorizedTable shared)) (tableSchema (factorizedTable ht'))" .
  from merge_tables_ok[OF assms(5) table_ok_merged[OF ok(2)] this] b(7) assms(7) obtain m where
    "merge_tables (factorizedTable shared) (factorizedTable ht') = Some m"
    "mset (trows m) = mset (trows (factorizedTable shared)) + mset (trows (factorizedTable ht'))" by auto
  then show ?thesis using b(1,3-5) assms(8)
    by (intro exI[of _ heap'] exI[of _ "shared\<lparr>factorizedTable := m\<rparr>"] exI[of _ new])
       (simp add: executeInternal_def merge_hash_tables_def)
qed

section \<open>Property\<close>

text \<open>
  C11: The build of the multiway intersection, for every sequence of chunks with one key each. The rows it
  merges into the shared table hold, for every key and every payload column, exactly the values of the
  complete runs of the key, in the order they were delivered and in lists that fit a vector; a run is
  complete when no payload column is empty over all its chunks, and an incomplete run is dropped as a
  whole. So a key whose chunks are consecutive, with payload vectors that do not share a state, keeps
  everything that was delivered for it, or nothing if one of its columns was never filled.
\<close>

theorem build_keeps_neighbours:
  assumes "0 < cap" "table_ready np ht" "child_ok np child" "\<forall>(ks, ps)\<in>set child. \<exists>k. ks = [[Some (IdVal k)]]"
    and "merged_ok (factorizedTable shared)" "schema_eq (tableSchema (factorizedTable shared)) (tableSchema (factorizedTable ht))"
    and "flatTupleBlockSize (factorizedTable ht) = flatTupleBlockSize (factorizedTable shared)" "trows (factorizedTable ht) = []"
  shows "\<exists>heap' ht' new. executeInternal cap flat 1 np child shared (heap, ht) = Some (heap', ht') \<and>
    mset (trows (factorizedTable ht')) = mset (trows (factorizedTable shared)) + mset new \<and>
    (\<forall>k. \<forall>i < np. key_column heap' new k i = kept_column np child (Some (IdVal k)) i) \<and>
    (\<forall>k. own_states child \<and> consecutive child (Some (IdVal k)) \<longrightarrow> (\<forall>i < np. key_column heap' new k i =
       (if \<forall>j < np. delivered child (Some (IdVal k)) j \<noteq> [] then delivered child (Some (IdVal k)) i else []))) \<and>
    (\<forall>r\<in>set new. \<forall>i < np. \<exists>vs. shows_as heap' r (Suc i) (VList vs) \<and> length vs \<le> cap)"
proof -
  from executeInternal_ok[OF assms, of flat heap] obtain heap' ht' new where
    e: "executeInternal cap flat 1 np child shared (heap, ht) = Some (heap', ht')"
    "mset (trows (factorizedTable ht')) = mset (trows (factorizedTable shared)) + mset new"
    "\<forall>k. \<forall>i < np. key_column heap' new k i = kept_column np child (Some (IdVal k)) i"
    "\<forall>r\<in>set new. \<forall>i < np. \<exists>vs. shows_as heap' r (Suc i) (VList vs) \<and> length vs \<le> cap" by blast
  have "key_column heap' new k i = (if \<forall>j < np. delivered child (Some (IdVal k)) j \<noteq> [] then delivered child (Some (IdVal k)) i else [])"
    if "own_states child \<and> consecutive child (Some (IdVal k))" "i < np" for k i
    using kept_consecutive[OF assms(3) _ _ that(2), of "Some (IdVal k)"] e(3) that by simp
  with e show ?thesis by blast
qed

definition ex_child :: "chunk list" where
  "ex_child = map (\<lambda>(k, ns). ([[Some (IdVal (InternalID k 1))]], [(0, map (\<lambda>n. Some (IdVal (InternalID n 2))) ns)]))
     [(7, [1, 2]), (7, []), (7, [3, 4, 5]), (9, []), (8, [6])]"

lemma ex_child_ok: "table_ready 1 ex_ht" "child_ok 1 ex_child" "\<forall>(ks, ps)\<in>set ex_child. \<exists>k. ks = [[Some (IdVal k)]]"
  "own_states ex_child \<and> consecutive ex_child (Some (IdVal (InternalID 7 1)))"
proof -
  have "build_schema_ok 1 ht_schema" by code_simp
  then show "table_ready 1 ex_ht" using ex_ht_ok(1-3) by (simp add: table_ready_def)
  show "child_ok 1 ex_child" "\<forall>(ks, ps)\<in>set ex_child. \<exists>k. ks = [[Some (IdVal k)]]"
    by (auto simp: child_ok_def ex_child_def)
  show "own_states ex_child \<and> consecutive ex_child (Some (IdVal (InternalID 7 1)))" by code_simp
qed

theorem build_keeps_neighbours_witness:
  "\<exists>heap' ht' new. executeInternal 2 True 1 1 ex_child ex_ht ([], ex_ht) = Some (heap', ht') \<and>
    mset (trows (factorizedTable ht')) = mset new \<and>
    key_column heap' new (InternalID 7 1) 0 = map (\<lambda>n. Some (IdVal (InternalID n 2))) [1, 2, 3, 4, 5] \<and>
    key_column heap' new (InternalID 9 1) 0 = []"
proof -
  have s: "schema_eq (tableSchema (factorizedTable ex_ht)) (tableSchema (factorizedTable ex_ht))" unfolding ex_ht_ok(3) by code_simp
  have c: "delivered ex_child (Some (IdVal (InternalID 7 1))) 0 = map (\<lambda>n. Some (IdVal (InternalID n 2))) [1, 2, 3, 4, 5]"
    "kept_column 1 ex_child (Some (IdVal (InternalID 9 1))) 0 = []" by code_simp+
  from build_keeps_neighbours[OF _ ex_child_ok(1-3) table_ok_merged[OF ex_ht_ok(1)] s refl ex_ht_ok(6), of 2 True "[]"] obtain heap' ht' new where
    b: "executeInternal 2 True 1 1 ex_child ex_ht ([], ex_ht) = Some (heap', ht')"
    "mset (trows (factorizedTable ht')) = mset (trows (factorizedTable ex_ht)) + mset new"
    "key_column heap' new (InternalID 9 1) 0 = kept_column 1 ex_child (Some (IdVal (InternalID 9 1))) 0"
    "key_column heap' new (InternalID 7 1) 0 = (if \<forall>j < 1. delivered ex_child (Some (IdVal (InternalID 7 1))) j \<noteq> []
       then delivered ex_child (Some (IdVal (InternalID 7 1))) 0 else [])"
    using ex_child_ok(4) zero_less_one by (metis (lifting) zero_less_numeral)
  then show ?thesis using c ex_ht_ok(6) by (intro exI[of _ heap'] exI[of _ ht'] exI[of _ new]) simp
qed

end
