(* ===== verification/BuildProbe.thy ===== *)
theory BuildProbe
  imports IntersectMultiwayLoop IntersectMultiwayBuild
begin

text \<open>
  The build and the probe of the multiway intersection together: several threads build their local
  tables and merge them into the shared one, the shared table is finalized, and a key is probed. What
  the probe finds under a right-side node are the neighbours all threads received for that key, in runs of
  chunks that filled every payload column.

  The threads merge under a lock, so their merges are a sequence; the heap of overflow blocks is passed
  on from one to the next.
\<close>

definition build_threads ::
  "nat \<Rightarrow> bool \<Rightarrow> nat \<Rightarrow> JoinHashTable \<Rightarrow> chunk list list \<Rightarrow> ht_val overflow_heap \<times> JoinHashTable \<Rightarrow>
   (ht_val overflow_heap \<times> JoinHashTable) option" where
  "build_threads cap flatKeys np fresh children st =
     foldM (\<lambda>(heap, shared) child. executeInternal cap flatKeys 1 np child shared (heap, fresh)) st children"

section \<open>Merging keyed tables\<close>

lemma layout_schema_eq:
  assumes "layout s = layout t" "schema_ok s" "schema_ok t" "columns s \<noteq> []"
  shows "schema_eq s t"
proof -
  have "column_eq (columns s ! i) (columns t ! i)" if "i < length (columns s)" for i
  proof -
    have "layout s ! i = layout t ! i" using assms(1) by simp
    then show ?thesis using that layout_columns[OF assms(1)] by (simp add: layout_def column_eq_def)
  qed
  then show ?thesis using assms(4) layout_columns[OF assms(1)] by (simp add: schema_eq_iff[OF assms(2,3)] list_all2_conv_all_nth)
qed

lemma keyed_rows:
  "keyed ht \<longleftrightarrow> merged_ok (factorizedTable ht) \<and> 2 \<le> length (columns (tableSchema (factorizedTable ht))) \<and>
     (\<forall>r\<in>set (trows (factorizedTable ht)). length (fst r) = length (columns (tableSchema (factorizedTable ht))) \<and> \<not> snd r ! 0 \<and>
        fst r ! 0 = Value (IdVal (row_key r)) \<and> row_hash (factorizedTable ht) r = Some (Hash_internalID (row_key r)))"
  by (auto simp: keyed_def hashed_def)

lemma merge_keyed:
  assumes t: "keyed sh" and u: "keyed ht" and lay: "layout (tableSchema (factorizedTable sh)) = layout (tableSchema (factorizedTable ht))"
    and size: "flatTupleBlockSize (factorizedTable ht) = flatTupleBlockSize (factorizedTable sh)"
  obtains m where "merge_hash_tables sh ht = Some (sh\<lparr>factorizedTable := m\<rparr>)" "keyed (sh\<lparr>factorizedTable := m\<rparr>)"
    "mset (trows m) = mset (trows (factorizedTable sh)) + mset (trows (factorizedTable ht))"
    "layout (tableSchema m) = layout (tableSchema (factorizedTable sh))" "flatTupleBlockSize m = flatTupleBlockSize (factorizedTable sh)"
proof -
  let ?t = "factorizedTable sh" and ?u = "factorizedTable ht"
  have ok: "merged_ok ?t" "merged_ok ?u" using t u by (simp_all add: keyed_rows)
  then have s: "schema_ok (tableSchema ?t)" "schema_ok (tableSchema ?u)" by (simp_all add: merged_ok_def)
  have c: "columns (tableSchema ?t) \<noteq> []" using t by (auto simp: keyed_rows)
  from merge_tables_ok[OF ok layout_schema_eq[OF lay s c] size] obtain m where
    m: "merge_tables ?t ?u = Some m" "merged_ok m" "mset (trows m) = mset (trows ?t) + mset (trows ?u)" by blast
  have lm: "layout (tableSchema m) = layout (tableSchema ?t)" "flatTupleBlockSize m = flatTupleBlockSize ?t"
    using m(1) layout_mergeMayContainNulls[OF s(1)] by (auto simp: merge_tables_def ku_assert_def split: if_splits)
  have len: "length (columns (tableSchema m)) = length (columns (tableSchema ?t))"
    "length (columns (tableSchema ?u)) = length (columns (tableSchema ?t))"
    using layout_columns[OF lm(1)] layout_columns[OF lay] by simp_all
  then have h: "row_hash m r = row_hash ?t r" "row_hash ?u r = row_hash ?t r" for r by (simp_all add: row_hash_def)
  have set: "set (trows m) = set (trows ?t) \<union> set (trows ?u)" using m(3) by (metis set_mset_mset set_mset_union)
  have "keyed (sh\<lparr>factorizedTable := m\<rparr>)" using t u m(2) set len h by (auto simp: keyed_rows)
  with m lm show thesis by (intro that[of m]) (auto simp: merge_hash_tables_def)
qed

section \<open>The rows hold what the threads received\<close>

lemma key_column_mset: "mset rs = mset rs' \<Longrightarrow> mset (key_column heap rs k i) = mset (key_column heap rs' k i)"
proof -
  assume "mset rs = mset rs'"
  then have "image_mset (\<lambda>r. mset (row_values heap (Suc i) r)) (filter_mset (\<lambda>r. row_key r = k) (mset rs)) =
    image_mset (\<lambda>r. mset (row_values heap (Suc i) r)) (filter_mset (\<lambda>r. row_key r = k) (mset rs'))" by simp
  moreover have "mset (key_column heap xs k i) =
    sum_mset (image_mset (\<lambda>r. mset (row_values heap (Suc i) r)) (filter_mset (\<lambda>r. row_key r = k) (mset xs)))" for xs
    by (induction xs) (auto simp: key_column_def)
  ultimately show ?thesis by simp
qed

lemma key_column_append: "key_column heap (rs @ rs') k i = key_column heap rs k i @ key_column heap rs' k i"
  by (simp add: key_column_def)

lemma key_column_ext:
  assumes "\<forall>r\<in>set rs. \<exists>vs. shows_as heap r (Suc i) (VList vs)"
  shows "key_column (heap @ ext) rs k i = key_column heap rs k i"
  using assms
proof (induction rs)
  case (Cons r rs)
  then obtain vs where "shows_as heap r (Suc i) (VList vs)" by auto
  with shows_as_append[OF this, of ext] Cons show ?case by (simp add: key_column_def row_values_def shows_as_def)
qed (simp add: key_column_def)

text \<open>What the builds of all threads keep of a key.\<close>

definition kept_all :: "nat \<Rightarrow> chunk list list \<Rightarrow> ht_val option \<Rightarrow> nat \<Rightarrow> vals" where
  "kept_all np children x i = concat (map (\<lambda>child. kept_column np child x i) children)"

lemma kept_all_consecutive:
  assumes "\<forall>child\<in>set children. child_ok np child \<and> own_states child \<and> consecutive child x" "i < np"
  shows "kept_all np children x i =
    concat (map (\<lambda>child. if \<forall>j < np. delivered child x j \<noteq> [] then delivered child x i else []) children)"
  unfolding kept_all_def using assms kept_consecutive by (intro arg_cong[where f = concat] map_cong) auto

definition build_holds :: "nat \<Rightarrow> ht_val overflow_heap \<Rightarrow> JoinHashTable \<Rightarrow> chunk list list \<Rightarrow> bool" where
  "build_holds np heap ht children \<longleftrightarrow> keyed ht \<and>
     (\<forall>r\<in>set (trows (factorizedTable ht)). \<forall>i < np. \<exists>vs. shows_as heap r (Suc i) (VList vs)) \<and>
     (\<forall>k. \<forall>i < np. mset (key_column heap (trows (factorizedTable ht)) k i) = mset (kept_all np children (Some (IdVal k)) i))"

definition child_keys_ok :: "nat \<Rightarrow> chunk list \<Rightarrow> bool" where
  "child_keys_ok np child \<longleftrightarrow> child_ok np child \<and> (\<forall>(ks, ps)\<in>set child. \<exists>k. ks = [[Some (IdVal k)]])"

definition same_shape_tables :: "JoinHashTable \<Rightarrow> JoinHashTable \<Rightarrow> bool" where
  "same_shape_tables sh fresh \<longleftrightarrow> layout (tableSchema (factorizedTable sh)) = layout (tableSchema (factorizedTable fresh)) \<and>
     flatTupleBlockSize (factorizedTable sh) = flatTupleBlockSize (factorizedTable fresh) \<and>
     hashSlotsBlocks sh = hashSlotsBlocks fresh \<and> numSlotsPerBlockLog2 sh = numSlotsPerBlockLog2 fresh"

lemma build_thread_step:
  assumes "0 < cap" and fr: "table_ready np fresh" "trows (factorizedTable fresh) = []" and child: "child_keys_ok np child"
    and h: "build_holds np heap sh done" "same_shape_tables sh fresh"
  shows "\<exists>heap' sh'. executeInternal cap flat 1 np child sh (heap, fresh) = Some (heap', sh') \<and>
    build_holds np heap' sh' (done @ [child]) \<and> same_shape_tables sh' fresh"
proof -
  have ch: "child_ok np child" "\<forall>(ks, ps)\<in>set child. \<exists>k. ks = [[Some (IdVal k)]]" using child by (simp_all add: child_keys_ok_def)
  from build_table_ok[OF assms(1) fr(1) ch, of flat heap] fr(2) obtain ext ht where
    b: "build_local cap (append_cached cap flat) 1 np child (heap, fresh) = Some (heap @ ext, ht)" "table_ready np ht"
    "\<forall>k. \<forall>i < np. key_column (heap @ ext) (trows (factorizedTable ht)) k i = kept_column np child (Some (IdVal k)) i"
    "\<forall>r\<in>set (trows (factorizedTable ht)). \<forall>i < np. \<exists>vs. shows_as (heap @ ext) r (Suc i) (VList vs) \<and> length vs \<le> cap"
    "layout (tableSchema (factorizedTable ht)) = layout (tableSchema (factorizedTable fresh))"
    "flatTupleBlockSize (factorizedTable ht) = flatTupleBlockSize (factorizedTable fresh)" by auto
  have k: "keyed sh" "keyed ht" using h(1) b(2) by (simp_all add: build_holds_def table_ready_def)
  obtain m where m: "merge_hash_tables sh ht = Some (sh\<lparr>factorizedTable := m\<rparr>)" "keyed (sh\<lparr>factorizedTable := m\<rparr>)"
    "mset (trows m) = mset (trows (factorizedTable sh)) + mset (trows (factorizedTable ht))"
    "layout (tableSchema m) = layout (tableSchema (factorizedTable sh))" "flatTupleBlockSize m = flatTupleBlockSize (factorizedTable sh)"
    using merge_keyed[OF k] b(5,6) h(2) unfolding same_shape_tables_def by metis
  have set: "set (trows m) = set (trows (factorizedTable sh)) \<union> set (trows (factorizedTable ht))"
    using m(3) by (metis set_mset_mset set_mset_union)
  have old: "\<forall>r\<in>set (trows (factorizedTable sh)). \<exists>vs. shows_as heap r (Suc i) (VList vs)" if "i < np" for i
    using h(1) that by (auto simp: build_holds_def)
  have "mset (key_column (heap @ ext) (trows m) k i) = mset (kept_all np (done @ [child]) (Some (IdVal k)) i)" if "i < np" for k i
    using key_column_mset[of "trows m" "trows (factorizedTable sh) @ trows (factorizedTable ht)" "heap @ ext" k i] m(3)
      key_column_ext[OF old[OF that]] b(3) that h(1) by (simp add: key_column_append build_holds_def kept_all_def)
  moreover have "\<exists>vs. shows_as (heap @ ext) r (Suc i) (VList vs)" if "r \<in> set (trows m)" "i < np" for r i
    using that set b(4) old[OF that(2)] shows_as_append by blast
  ultimately have "build_holds np (heap @ ext) (sh\<lparr>factorizedTable := m\<rparr>) (done @ [child])"
    using m(2) by (simp add: build_holds_def)
  then show ?thesis using b(1) m h(2) by (auto simp: executeInternal_def same_shape_tables_def)
qed

lemma build_threads_ok:
  assumes "0 < cap" "table_ready np fresh" "trows (factorizedTable fresh) = []" "\<forall>child\<in>set children. child_keys_ok np child"
    and "build_holds np heap sh done" "same_shape_tables sh fresh"
  shows "\<exists>heap' sh'. build_threads cap flat np fresh children (heap, sh) = Some (heap', sh') \<and>
    build_holds np heap' sh' (done @ children) \<and> same_shape_tables sh' fresh"
  using assms(4-6)
proof (induction children arbitrary: heap sh "done")
  case (Cons child children)
  then have c: "child_keys_ok np child" by simp
  from build_thread_step[OF assms(1-3) c Cons.prems(2,3), of flat] obtain heap1 sh1 where
    s: "executeInternal cap flat 1 np child sh (heap, fresh) = Some (heap1, sh1)" "build_holds np heap1 sh1 (done @ [child])" "same_shape_tables sh1 fresh"
    by blast
  from Cons.IH[OF _ s(2,3)] Cons.prems(1) s(1) show ?case by (simp add: build_threads_def)
qed (simp add: build_threads_def)

section \<open>Probing the finalized table\<close>

text \<open>The column at a byte offset.\<close>

definition column_at :: "FactorizedTableSchema \<Rightarrow> 32 word \<Rightarrow> nat option" where
  "column_at s off = (case filter (\<lambda>c. colOffsets s ! c = unat off) [0..<length (columns s)] of [] \<Rightarrow> None | c # _ \<Rightarrow> Some c)"

lemma cell_at_column:
  "column_at s off = Some c \<Longrightarrow> cell_at_offset s r off = (case fst r ! c of Overflow n a \<Rightarrow> Some (n, a) | _ \<Rightarrow> None)"
  by (auto simp: column_at_def cell_at_offset_def split: list.splits)

lemma column_at_layout: "layout s = layout s' \<Longrightarrow> schema_ok s \<Longrightarrow> schema_ok s' \<Longrightarrow> column_at s off = column_at s' off"
  using layout_columns[of s s'] layout_sizes(1)[of s s'] by (simp add: column_at_def)

lemma shows_list_cell:
  assumes "shows_as heap r c (VList vs)"
  obtains n a where "fst r ! c = Overflow n a" "vs = take n (heap ! a)" "row_values heap c r = vs"
  using assms by (auto simp: shows_as_def cell_view_def row_values_def split: if_splits cell.splits)

text \<open>The lists of a key, read from the heap, are its values in the rows.\<close>

lemma key_lists_values:
  assumes col: "column_at (tableSchema (factorizedTable hf)) (offs ! j) = Some (Suc i)"
    and rows: "list_all2 (\<lambda>r r'. row_key r' = row_key r \<and> fst r' ! Suc i = fst r ! Suc i) rs (trows (factorizedTable hf))"
    and vals: "\<forall>r\<in>set rs. \<exists>vs. shows_as heap r (Suc i) (VList vs)"
  shows "concat (map (read_list heap) (key_lists hf offs key j)) = ids_of (key_column heap rs key i)"
    and "\<forall>r\<in>set (trows (factorizedTable hf)). cell_at_offset (tableSchema (factorizedTable hf)) r (offs ! j) \<noteq> None"
proof -
  let ?f = "\<lambda>rs'. concat (map (read_list heap) (filter (\<lambda>(n, a). n \<noteq> 0) (map (\<lambda>r. row_list hf offs r j) (filter (\<lambda>r. row_key r = key) rs'))))"
  have "?f rs' = ids_of (key_column heap rs key i) \<and> (\<forall>r\<in>set rs'. cell_at_offset (tableSchema (factorizedTable hf)) r (offs ! j) \<noteq> None)"
    if "list_all2 (\<lambda>r r'. row_key r' = row_key r \<and> fst r' ! Suc i = fst r ! Suc i) rs rs'" "\<forall>r\<in>set rs. \<exists>vs. shows_as heap r (Suc i) (VList vs)" for rs rs'
    using that
  proof (induction rule: list_all2_induct)
    case (Cons r rs r' rs')
    then obtain vs where "shows_as heap r (Suc i) (VList vs)" by auto
    then obtain n a where c: "fst r ! Suc i = Overflow n a" "vs = take n (heap ! a)" "row_values heap (Suc i) r = vs" by (rule shows_list_cell)
    have cell: "cell_at_offset (tableSchema (factorizedTable hf)) r' (offs ! j) = Some (n, a)"
      using Cons(1) c(1) by (simp add: cell_at_column[OF col])
    then have "row_list hf offs r' j = (n, a)" by (simp add: row_list_def)
    then show ?case using Cons c cell by (auto simp: key_column_def read_list_def ids_of_def)
  qed (simp add: key_column_def ids_of_def)
  from this[OF rows vals] show "concat (map (read_list heap) (key_lists hf offs key j)) = ids_of (key_column heap rs key i)"
    "\<forall>r\<in>set (trows (factorizedTable hf)). cell_at_offset (tableSchema (factorizedTable hf)) r (offs ! j) \<noteq> None"
    by (simp_all add: key_lists_def)
qed

lemma probe_built_ok:
  assumes h: "build_holds np heap ht children" and n: "0 < num_rows ht" "num_rows ht < 2 ^ 62"
    and fresh: "hashSlotsBlocks ht = []" "numSlotsPerBlockLog2 ht < 63" and sc: "length (columns (tableSchema (factorizedTable ht))) = np + 3"
    and js: "distinct (left2right_idx info ! i)" "\<forall>j\<in>set (left2right_idx info ! i). j < numRightNodes info" "left2right_idx info ! i \<noteq> []"
    and col: "\<forall>j\<in>set (left2right_idx info ! i). col j < np \<and>
      column_at (tableSchema (factorizedTable ht)) (keyOffsetInTuple info ! i ! j) = Some (Suc (col j))"
  shows "\<exists>hf probed ok. finalizeInternal ht = Some hf \<and> probe_left info hf i key = Some (probed, ok) \<and>
    ((\<forall>j\<in>set (left2right_idx info ! i). kept_all np children (Some (IdVal key)) (col j) \<noteq> []) \<longrightarrow> ok) \<and>
    (ok \<longrightarrow> (\<forall>j\<in>set (left2right_idx info ! i). mset (concat (map (read_list heap) (probed ! j))) =
       mset (ids_of (kept_all np children (Some (IdVal key)) (col j)))))"
proof -
  let ?js = "left2right_idx info ! i" and ?offs = "keyOffsetInTuple info ! i" and ?rs = "trows (factorizedTable ht)"
  have k: "keyed ht" using h by (simp add: build_holds_def)
  from finalize_ok[OF k n fresh] obtain hf where f: "finalizeInternal ht = Some hf" "built hf" "keyed hf" "num_rows hf = num_rows ht"
    "tableSchema (factorizedTable hf) = tableSchema (factorizedTable ht)"
    "\<forall>i < num_rows ht. row_key (trows (factorizedTable hf) ! i) = row_key (?rs ! i) \<and>
       (\<forall>c < prev_col (factorizedTable ht). fst (trows (factorizedTable hf) ! i) ! c = fst (?rs ! i) ! c)" by blast
  have vals: "concat (map (read_list heap) (key_lists hf ?offs key j)) = ids_of (key_column heap ?rs key (col j))"
    "\<forall>r\<in>set (trows (factorizedTable hf)). cell_at_offset (tableSchema (factorizedTable hf)) r (?offs ! j) \<noteq> None" if j: "j \<in> set ?js" for j
  proof -
    have c: "col j < np" "column_at (tableSchema (factorizedTable hf)) (?offs ! j) = Some (Suc (col j))" using col j f(5) by auto
    have "list_all2 (\<lambda>r r'. row_key r' = row_key r \<and> fst r' ! Suc (col j) = fst r ! Suc (col j)) ?rs (trows (factorizedTable hf))"
      using f(4,6) c(1) sc by (simp add: list_all2_conv_all_nth)
    moreover have "\<forall>r\<in>set ?rs. \<exists>vs. shows_as heap r (Suc (col j)) (VList vs)" using h c(1) by (auto simp: build_holds_def)
    ultimately show "concat (map (read_list heap) (key_lists hf ?offs key j)) = ids_of (key_column heap ?rs key (col j))"
      "\<forall>r\<in>set (trows (factorizedTable hf)). cell_at_offset (tableSchema (factorizedTable hf)) r (?offs ! j) \<noteq> None"
      using key_lists_values[of hf ?offs j "col j", OF c(2)] by blast+
  qed
  have "lists_readable hf ?offs ?js" using vals(2) by (auto simp: lists_readable_def)
  from probe_left_ok[OF f(2,3) this js, of key] obtain probed ok where p: "probe_left info hf i key = Some (probed, ok)"
    "ok \<longleftrightarrow> (\<forall>j\<in>set ?js. key_lists hf ?offs key j \<noteq> [])" "ok \<longrightarrow> (\<forall>j\<in>set ?js. probed ! j = key_lists hf ?offs key j)" by blast
  have ms: "mset (key_column heap ?rs key (col j)) = mset (kept_all np children (Some (IdVal key)) (col j))" if "j \<in> set ?js" for j
    using h col that by (auto simp: build_holds_def)
  have "key_lists hf ?offs key j \<noteq> []" if "j \<in> set ?js" "kept_all np children (Some (IdVal key)) (col j) \<noteq> []" for j
    using vals(1)[OF that(1)] ms[OF that(1)] that(2) by (auto simp: ids_of_def)
  moreover have "mset (concat (map (read_list heap) (probed ! j))) = mset (ids_of (kept_all np children (Some (IdVal key)) (col j)))"
    if "ok" "j \<in> set ?js" for j
    using p(3) that vals(1)[OF that(2)] arg_cong[OF ms[OF that(2)], of "image_mset (\<lambda>x. case x of Some (IdVal i) \<Rightarrow> i | _ \<Rightarrow> default_internalID)"]
    by (simp add: ids_of_def)
  ultimately show ?thesis using f(1) p by blast
qed

section \<open>Property\<close>

text \<open>
  C7: The build and the probe of the multiway intersection compose. When any number of threads have
  built their tables from the chunks of their children and merged them, finalizing the shared table and
  probing a key of a left-side node finds, for every connected right-side node, exactly the neighbours
  that the complete runs of all children delivered for that key, each as often as it was delivered; and
  the probe reports a match whenever none of these lists is empty. A run of chunks with the same key is
  complete when no payload column is empty over all its chunks. Columns of a chunk may be empty.
\<close>

theorem build_then_probe:
  assumes "0 < cap" "table_ready np fresh" "trows (factorizedTable fresh) = []" "hashSlotsBlocks fresh = []" "numSlotsPerBlockLog2 fresh < 63"
    and "\<forall>child\<in>set children. child_keys_ok np child"
    and "distinct (left2right_idx info ! i)" "\<forall>j\<in>set (left2right_idx info ! i). j < numRightNodes info" "left2right_idx info ! i \<noteq> []"
    and "\<forall>j\<in>set (left2right_idx info ! i). col j < np \<and>
      column_at (tableSchema (factorizedTable fresh)) (keyOffsetInTuple info ! i ! j) = Some (Suc (col j))"
  shows "\<exists>heap' ht. build_threads cap flat np fresh children (heap, fresh) = Some (heap', ht) \<and>
    (0 < num_rows ht \<and> num_rows ht < 2 ^ 62 \<longrightarrow>
     (\<exists>hf probed ok. finalizeInternal ht = Some hf \<and> probe_left info hf i key = Some (probed, ok) \<and>
       ((\<forall>j\<in>set (left2right_idx info ! i). kept_all np children (Some (IdVal key)) (col j) \<noteq> []) \<longrightarrow> ok) \<and>
       (ok \<longrightarrow> (\<forall>j\<in>set (left2right_idx info ! i). mset (concat (map (read_list heap') (probed ! j))) =
          mset (ids_of (kept_all np children (Some (IdVal key)) (col j)))))))"
proof -
  have k: "keyed fresh" and sc: "length (columns (tableSchema (factorizedTable fresh))) = np + 3"
    using assms(2) by (simp_all add: table_ready_def build_schema_ok_def)
  have h: "build_holds np heap fresh []" "same_shape_tables fresh fresh"
    using k assms(3) by (simp_all add: build_holds_def key_column_def kept_all_def same_shape_tables_def)
  from build_threads_ok[OF assms(1-3,6) h, of flat] obtain heap' ht where
    b: "build_threads cap flat np fresh children (heap, fresh) = Some (heap', ht)" "build_holds np heap' ht children"
    "same_shape_tables ht fresh" by auto
  have s: "schema_ok (tableSchema (factorizedTable ht))" "schema_ok (tableSchema (factorizedTable fresh))"
    using b(2) k by (simp_all add: build_holds_def keyed_rows merged_ok_def)
  have l: "layout (tableSchema (factorizedTable ht)) = layout (tableSchema (factorizedTable fresh))"
    "hashSlotsBlocks ht = []" "numSlotsPerBlockLog2 ht < 63" using b(3) assms(4,5) by (simp_all add: same_shape_tables_def)
  have "length (columns (tableSchema (factorizedTable ht))) = np + 3" using layout_columns[OF l(1)] sc by simp
  note P = probe_built_ok[OF b(2) _ _ l(2,3) this assms(7-9), of col key, unfolded column_at_layout[OF l(1) s]]
  show ?thesis using b(1) P assms(10) by blast
qed

definition ex_child2 :: "chunk list" where
  "ex_child2 = map (\<lambda>(k, ns). ([[Some (IdVal (InternalID k 1))]], [(0, map (\<lambda>n. Some (IdVal (InternalID n 2))) ns)]))
     [(9, [4]), (7, []), (7, [8, 1]), (5, [])]"

lemma ex_threads_ok: "\<forall>child\<in>set [ex_child, ex_child2]. child_keys_ok 1 child"
  using ex_child_ok by (auto simp: child_keys_ok_def child_ok_def ex_child2_def)

theorem build_then_probe_witness:
  "\<exists>heap' ht hf probed. build_threads 2 True 1 ex_ht [ex_child, ex_child2] ([], ex_ht) = Some (heap', ht) \<and>
    finalizeInternal ht = Some hf \<and> probe_left ex_info hf 0 (InternalID 7 1) = Some (probed, True) \<and>
    mset (concat (map (read_list heap') (probed ! 0))) = mset (map (\<lambda>n. InternalID n 2) [1, 2, 3, 4, 5, 8, 1])"
proof -
  have "left2right_idx ex_info ! 0 = [0]" "numRightNodes ex_info = 1" "column_at ht_schema (keyOffsetInTuple ex_info ! 0 ! 0) = Some (Suc 0)"
    by code_simp+
  then have i: "distinct (left2right_idx ex_info ! 0)" "\<forall>j\<in>set (left2right_idx ex_info ! 0). j < numRightNodes ex_info"
    "left2right_idx ex_info ! 0 \<noteq> []" "\<forall>j\<in>set (left2right_idx ex_info ! 0). (\<lambda>_. 0) j < (1 :: nat) \<and>
      column_at (tableSchema (factorizedTable ex_ht)) (keyOffsetInTuple ex_info ! 0 ! j) = Some (Suc ((\<lambda>_. 0) j))" "left2right_idx ex_info ! 0 = [0]"
    unfolding ex_ht_ok(3) by simp_all
  have c: "kept_all 1 [ex_child, ex_child2] (Some (IdVal (InternalID 7 1))) 0 = map (\<lambda>n. Some (IdVal (InternalID n 2))) [1, 2, 3, 4, 5, 8, 1]"
    by code_simp
  have n: "map_option (\<lambda>(heap, ht). num_rows ht) (build_threads 2 True 1 ex_ht [ex_child, ex_child2] ([], ex_ht)) = Some 6" by code_simp
  from build_then_probe[OF zero_less_numeral ex_child_ok(1) ex_ht_ok(6,4,5) ex_threads_ok i(1-4), of "num.Bit0 num.One" True "[]" "InternalID 7 1"] obtain heap' ht where
    b: "build_threads 2 True 1 ex_ht [ex_child, ex_child2] ([], ex_ht) = Some (heap', ht)"
    "0 < num_rows ht \<and> num_rows ht < 2 ^ 62 \<longrightarrow> (\<exists>hf probed ok. finalizeInternal ht = Some hf \<and>
       probe_left ex_info hf 0 (InternalID 7 1) = Some (probed, ok) \<and>
       ((\<forall>j\<in>set [0 :: nat]. kept_all 1 [ex_child, ex_child2] (Some (IdVal (InternalID 7 1))) 0 \<noteq> []) \<longrightarrow> ok) \<and>
       (ok \<longrightarrow> (\<forall>j\<in>set [0]. mset (concat (map (read_list heap') (probed ! j))) =
          mset (ids_of (kept_all 1 [ex_child, ex_child2] (Some (IdVal (InternalID 7 1))) 0)))))"
    unfolding i(5) by (elim exE conjE) (rule that)
  have "num_rows ht = 6" using n b(1) by simp
  then have "0 < num_rows ht \<and> num_rows ht < 2 ^ 62" by simp
  from mp[OF b(2) this] obtain hf probed ok where f: "finalizeInternal ht = Some hf" "probe_left ex_info hf 0 (InternalID 7 1) = Some (probed, ok)" "ok"
    "mset (concat (map (read_list heap') (probed ! 0))) = mset (ids_of (map (\<lambda>n. Some (IdVal (InternalID n 2))) [1, 2, 3, 4, 5, 8, 1]))"
    unfolding c by auto
  then show ?thesis using b(1) by (auto simp: ids_of_def)
qed

end
