(* ===== verification/QueryGraph.thy ===== *)
theory QueryGraph
  imports Prelude "HOL-Library.Word"
begin

text \<open>
  Query graphs of the binder and their subgraphs (\<open>binder/query/query_graph.cpp\<close> and
  \<open>include/binder/query/query_graph.h\<close>).

  A node or relationship expression is reduced to what the graph reads of it: its unique name, its
  printed form, whether its table entries are empty and, for a relationship, the unique names of its
  end nodes. A name-to-position map is a partial function; \<open>at\<close> throws when the name is missing,
  which is None here. A \<open>std::bitset\<close> over at most 64 variables is a word of that width. An
  \<open>std::unordered_set\<close> is a list without duplicates whose order carries no meaning: theorems speak
  about its elements only.
\<close>

section \<open>Query graphs\<close>

record NodeExpression =
  ne_uniqueName :: string
  ne_string :: string
  ne_isEmpty :: bool

record RelExpression =
  re_uniqueName :: string
  re_string :: string
  re_isEmpty :: bool
  re_srcNodeName :: string
  re_dstNodeName :: string

record QueryGraph =
  queryNodeNameToPosMap :: "string \<rightharpoonup> nat"
  queryRelNameToPosMap :: "string \<rightharpoonup> nat"
  queryNodes :: "NodeExpression list"
  queryRels :: "RelExpression list"

definition empty_query_graph :: QueryGraph where
  "empty_query_graph = \<lparr>queryNodeNameToPosMap = Map.empty, queryRelNameToPosMap = Map.empty, queryNodes = [], queryRels = []\<rparr>"

definition getNumQueryNodes :: "QueryGraph \<Rightarrow> nat" where
  "getNumQueryNodes q = length (queryNodes q)"

definition getNumQueryRels :: "QueryGraph \<Rightarrow> nat" where
  "getNumQueryRels q = length (queryRels q)"

definition containsQueryNode :: "QueryGraph \<Rightarrow> string \<Rightarrow> bool" where
  "containsQueryNode q name = (queryNodeNameToPosMap q name \<noteq> None)"

definition containsQueryRel :: "QueryGraph \<Rightarrow> string \<Rightarrow> bool" where
  "containsQueryRel q name = (queryRelNameToPosMap q name \<noteq> None)"

definition getQueryNodeIdx :: "QueryGraph \<Rightarrow> string \<Rightarrow> nat option" where
  "getQueryNodeIdx q name = queryNodeNameToPosMap q name"

definition getQueryRelIdx :: "QueryGraph \<Rightarrow> string \<Rightarrow> nat option" where
  "getQueryRelIdx q name = queryRelNameToPosMap q name"

definition getQueryNode_named :: "QueryGraph \<Rightarrow> string \<Rightarrow> NodeExpression option" where
  "getQueryNode_named q name = do { i \<leftarrow> getQueryNodeIdx q name; ku_assert (i < length (queryNodes q)); Some (queryNodes q ! i) }"

definition getQueryRel_named :: "QueryGraph \<Rightarrow> string \<Rightarrow> RelExpression option" where
  "getQueryRel_named q name = do { i \<leftarrow> getQueryRelIdx q name; ku_assert (i < length (queryRels q)); Some (queryRels q ! i) }"

definition getQueryNodes_at :: "QueryGraph \<Rightarrow> nat list \<Rightarrow> NodeExpression list option" where
  "getQueryNodes_at q poses =
     foldM (\<lambda>result pos. do { ku_assert (pos < length (queryNodes q)); Some (result @ [queryNodes q ! pos]) }) [] poses"

definition qg_isEmpty :: "QueryGraph \<Rightarrow> bool" where
  "qg_isEmpty q = (list_ex ne_isEmpty (queryNodes q) \<or> list_ex re_isEmpty (queryRels q))"

datatype pattern = NodePattern NodeExpression | RelPattern RelExpression

definition getAllPatterns :: "QueryGraph \<Rightarrow> pattern list" where
  "getAllPatterns q = map NodePattern (queryNodes q) @ map RelPattern (queryRels q)"

definition qg_addQueryNode :: "QueryGraph \<Rightarrow> NodeExpression \<Rightarrow> QueryGraph" where
  "qg_addQueryNode q n =
     (if containsQueryNode q (ne_uniqueName n) then q
      else q\<lparr>queryNodeNameToPosMap := (queryNodeNameToPosMap q)(ne_uniqueName n \<mapsto> length (queryNodes q)),
             queryNodes := queryNodes q @ [n]\<rparr>)"

definition qg_addQueryRel :: "QueryGraph \<Rightarrow> RelExpression \<Rightarrow> QueryGraph" where
  "qg_addQueryRel q r =
     (if containsQueryRel q (re_uniqueName r) then q
      else q\<lparr>queryRelNameToPosMap := (queryRelNameToPosMap q)(re_uniqueName r \<mapsto> length (queryRels q)),
             queryRels := queryRels q @ [r]\<rparr>)"

definition qg_merge :: "QueryGraph \<Rightarrow> QueryGraph \<Rightarrow> QueryGraph" where
  "qg_merge q other = foldl qg_addQueryRel (foldl qg_addQueryNode q (queryNodes other)) (queryRels other)"

text \<open>The variable names an expression depends on are collected by a visitor; here they are an argument.\<close>

definition canProjectExpression :: "QueryGraph \<Rightarrow> string list \<Rightarrow> bool" where
  "canProjectExpression q varNames = list_all (\<lambda>v. containsQueryNode q v \<or> containsQueryRel q v) varNames"

definition qg_isConnected :: "QueryGraph \<Rightarrow> QueryGraph \<Rightarrow> bool" where
  "qg_isConnected q other = list_ex (\<lambda>n. containsQueryNode other (ne_uniqueName n)) (queryNodes q)"

section \<open>Collections of query graphs\<close>

definition addAndMergeQueryGraphIfConnected :: "QueryGraph list \<Rightarrow> QueryGraph \<Rightarrow> QueryGraph list" where
  "addAndMergeQueryGraphIfConnected queryGraphs toAdd =
     (let (news, merged) = foldl (\<lambda>(news, toAdd) q.
            if qg_isConnected q toAdd then (news, qg_merge toAdd q) else (news @ [q], toAdd)) ([], toAdd) queryGraphs
      in news @ [merged])"

text \<open>
  The search for a graph to merge returns the first index that is not merged yet and connected. Each
  round merges one more graph, so the loop ends.
\<close>

definition find_graph_to_merge :: "QueryGraph list \<Rightarrow> nat set \<Rightarrow> QueryGraph \<Rightarrow> nat option" where
  "find_graph_to_merge graphs mergedIdx base =
     find (\<lambda>i. i \<notin> mergedIdx \<and> qg_isConnected base (graphs ! i)) [0..<length graphs]"

function merge_rounds :: "nat \<Rightarrow> QueryGraph list \<times> nat set \<Rightarrow> QueryGraph list \<times> nat set" where
  "merge_rounds b (graphs, mergedIdx) =
     (case find_graph_to_merge graphs mergedIdx (graphs ! b) of
        None \<Rightarrow> (graphs, mergedIdx)
      | Some i \<Rightarrow> merge_rounds b (graphs[b := qg_merge (graphs ! b) (graphs ! i)], insert i mergedIdx))"
  by pat_completeness auto
termination
proof (relation "measure (\<lambda>(b, graphs, mergedIdx). card ({..<length graphs} - mergedIdx))")
  fix b graphs mergedIdx i
  assume "find_graph_to_merge graphs mergedIdx (graphs ! b) = Some i"
  then have i: "i < length graphs" "i \<notin> mergedIdx" by (auto simp: find_graph_to_merge_def find_Some_iff)
  then have "{..<length graphs} - insert i mergedIdx \<subset> {..<length graphs} - mergedIdx" by auto
  then have "card ({..<length graphs} - insert i mergedIdx) < card ({..<length graphs} - mergedIdx)" by (rule psubset_card_mono[rotated]) simp
  then show "((b, graphs[b := qg_merge (graphs ! b) (graphs ! i)], insert i mergedIdx), (b, graphs, mergedIdx)) \<in>
      measure (\<lambda>(b, graphs, mergedIdx). card ({..<length graphs} - mergedIdx))" by simp
qed simp

definition mergeGraphs :: "QueryGraph list \<Rightarrow> nat \<Rightarrow> QueryGraph list option" where
  "mergeGraphs queryGraphs b =
     do { ku_assert (b < length queryGraphs);
          let (graphs, mergedIdx) = merge_rounds b (queryGraphs, {b});
          Some (map (\<lambda>i. graphs ! i) (filter (\<lambda>i. i = b \<or> i \<notin> mergedIdx) [0..<length graphs])) }"

partial_function (option) finalize_from :: "nat \<Rightarrow> QueryGraph list \<Rightarrow> QueryGraph list option" where
  "finalize_from b graphs =
     do { graphs' \<leftarrow> mergeGraphs graphs b;
          if length graphs' = length graphs \<or> b + 1 = length graphs' then Some graphs' else finalize_from (b + 1) graphs' }"

declare finalize_from.simps [code]

definition collection_finalize :: "QueryGraph list \<Rightarrow> QueryGraph list option" where
  "collection_finalize graphs = finalize_from 0 graphs"

definition collection_merge :: "QueryGraph list \<Rightarrow> QueryGraph list \<Rightarrow> QueryGraph list option" where
  "collection_merge graphs other = collection_finalize (foldl addAndMergeQueryGraphIfConnected graphs other)"

definition collection_contains :: "QueryGraph list \<Rightarrow> string \<Rightarrow> bool" where
  "collection_contains graphs name = list_ex (\<lambda>q. containsQueryNode q name \<or> containsQueryRel q name) graphs"

definition collection_getQueryNodes :: "QueryGraph list \<Rightarrow> NodeExpression list" where
  "collection_getQueryNodes graphs = foldl (\<lambda>result q. result @ queryNodes q) [] graphs"

definition collection_getQueryRels :: "QueryGraph list \<Rightarrow> RelExpression list" where
  "collection_getQueryRels graphs = foldl (\<lambda>result q. result @ queryRels q) [] graphs"

text \<open>The binder adds the graphs of the pattern elements one after the other.\<close>

definition bindGraphPattern :: "QueryGraph list \<Rightarrow> QueryGraph list option" where
  "bindGraphPattern elements = collection_finalize (foldl addAndMergeQueryGraphIfConnected [] elements)"

section \<open>Subgraphs\<close>

record SubqueryGraph =
  queryNodesSelector :: "64 word"
  queryRelsSelector :: "64 word"

definition new_SubqueryGraph :: SubqueryGraph where
  "new_SubqueryGraph = \<lparr>queryNodesSelector = 0, queryRelsSelector = 0\<rparr>"

definition sg_addQueryNode :: "SubqueryGraph \<Rightarrow> nat \<Rightarrow> SubqueryGraph" where
  "sg_addQueryNode s pos = s\<lparr>queryNodesSelector := set_bit pos (queryNodesSelector s)\<rparr>"

definition sg_addQueryRel :: "SubqueryGraph \<Rightarrow> nat \<Rightarrow> SubqueryGraph" where
  "sg_addQueryRel s pos = s\<lparr>queryRelsSelector := set_bit pos (queryRelsSelector s)\<rparr>"

definition addSubqueryGraph :: "SubqueryGraph \<Rightarrow> SubqueryGraph \<Rightarrow> SubqueryGraph" where
  "addSubqueryGraph s other =
     \<lparr>queryNodesSelector = or (queryNodesSelector s) (queryNodesSelector other),
      queryRelsSelector = or (queryRelsSelector s) (queryRelsSelector other)\<rparr>"

definition bitset_count :: "64 word \<Rightarrow> nat" where
  "bitset_count w = length (filter (bit w) [0..<64])"

definition sg_getNumQueryRels :: "SubqueryGraph \<Rightarrow> nat" where
  "sg_getNumQueryRels s = bitset_count (queryRelsSelector s)"

definition getTotalNumVariables :: "SubqueryGraph \<Rightarrow> nat" where
  "getTotalNumVariables s = bitset_count (queryNodesSelector s) + bitset_count (queryRelsSelector s)"

definition isSingleRel :: "SubqueryGraph \<Rightarrow> bool" where
  "isSingleRel s = (bitset_count (queryRelsSelector s) = 1 \<and> bitset_count (queryNodesSelector s) = 0)"

text \<open>The hash of a bitset is the library's, an argument here.\<close>

definition SubqueryGraphHasher :: "(64 word \<Rightarrow> nat) \<Rightarrow> SubqueryGraph \<Rightarrow> nat" where
  "SubqueryGraphHasher hash key =
     (if 0 = bitset_count (queryRelsSelector key) then hash (queryNodesSelector key) else hash (queryRelsSelector key))"

definition containAllVariables :: "QueryGraph \<Rightarrow> SubqueryGraph \<Rightarrow> string list \<Rightarrow> bool" where
  "containAllVariables q s variables =
     list_all (\<lambda>var.
       (case getQueryNodeIdx q var of None \<Rightarrow> True | Some i \<Rightarrow> bit (queryNodesSelector s) i) \<and>
       (case getQueryRelIdx q var of None \<Rightarrow> True | Some i \<Rightarrow> bit (queryRelsSelector s) i)) variables"

definition rel_ends :: "QueryGraph \<Rightarrow> nat \<Rightarrow> (nat \<times> nat) option" where
  "rel_ends q relPos =
     do { src \<leftarrow> getQueryNodeIdx q (re_srcNodeName (queryRels q ! relPos));
          dst \<leftarrow> getQueryNodeIdx q (re_dstNodeName (queryRels q ! relPos));
          Some (src, dst) }"

definition add_unselected :: "SubqueryGraph \<Rightarrow> nat \<Rightarrow> nat list \<Rightarrow> nat list" where
  "add_unselected s pos result = (if \<not> bit (queryNodesSelector s) pos then List.insert pos result else result)"

definition getNodeNbrPositions :: "QueryGraph \<Rightarrow> SubqueryGraph \<Rightarrow> nat list option" where
  "getNodeNbrPositions q s =
     foldM (\<lambda>result relPos.
       if \<not> bit (queryRelsSelector s) relPos then Some result
       else do { (src, dst) \<leftarrow> rel_ends q relPos;
                 Some (add_unselected s dst (add_unselected s src result)) }) [] [0..<getNumQueryRels q]"

definition getRelNbrPositions :: "QueryGraph \<Rightarrow> SubqueryGraph \<Rightarrow> nat list option" where
  "getRelNbrPositions q s =
     foldM (\<lambda>result relPos.
       if bit (queryRelsSelector s) relPos then Some result
       else do { (src, dst) \<leftarrow> rel_ends q relPos;
                 Some (if bit (queryNodesSelector s) src \<or> bit (queryNodesSelector s) dst
                       then List.insert relPos result else result) }) [] [0..<getNumQueryRels q]"

definition getNbrNodeIndices :: "QueryGraph \<Rightarrow> SubqueryGraph \<Rightarrow> nat list option" where
  "getNbrNodeIndices q s =
     foldM (\<lambda>result i.
       if \<not> bit (queryRelsSelector s) i then Some result
       else do { (src, dst) \<leftarrow> rel_ends q i;
                 Some (add_unselected s dst (add_unselected s src result)) }) [] [0..<getNumQueryRels q]"

definition getNodePositionsIgnoringNodeSelector :: "QueryGraph \<Rightarrow> SubqueryGraph \<Rightarrow> nat list option" where
  "getNodePositionsIgnoringNodeSelector q s =
     foldM (\<lambda>result relPos.
       if bit (queryRelsSelector s) relPos
       then do { (src, dst) \<leftarrow> rel_ends q relPos; Some (List.insert dst (List.insert src result)) }
       else Some result)
       (filter (bit (queryNodesSelector s)) [0..<getNumQueryNodes q]) [0..<getNumQueryRels q]"

definition getConnectedNodePos :: "QueryGraph \<Rightarrow> SubqueryGraph \<Rightarrow> SubqueryGraph \<Rightarrow> nat list option" where
  "getConnectedNodePos q s nbr =
     do { mine \<leftarrow> getNodeNbrPositions q s;
          theirs \<leftarrow> getNodeNbrPositions q nbr;
          Some (filter (bit (queryNodesSelector nbr)) mine @ filter (bit (queryNodesSelector s)) theirs) }"

definition getBaseNbrSubgraph :: "QueryGraph \<Rightarrow> SubqueryGraph \<Rightarrow> SubqueryGraph list option" where
  "getBaseNbrSubgraph q s =
     do { nodes \<leftarrow> getNodeNbrPositions q s;
          rels \<leftarrow> getRelNbrPositions q s;
          let result = foldl (\<lambda>result pos. List.insert (sg_addQueryNode new_SubqueryGraph pos) result) [] nodes;
          Some (foldl (\<lambda>result pos. List.insert (sg_addQueryRel new_SubqueryGraph pos) result) result rels) }"

definition getNextNbrSubgraphs :: "QueryGraph \<Rightarrow> SubqueryGraph \<Rightarrow> SubqueryGraph \<Rightarrow> SubqueryGraph list option" where
  "getNextNbrSubgraphs q s prevNbr =
     do { nodes \<leftarrow> getNodeNbrPositions q prevNbr;
          rels \<leftarrow> getRelNbrPositions q prevNbr;
          let result = foldl (\<lambda>result pos. if bit (queryNodesSelector s) pos then result
                                           else List.insert (sg_addQueryNode prevNbr pos) result) [] nodes;
          Some (foldl (\<lambda>result pos. if bit (queryRelsSelector s) pos then result
                                    else List.insert (sg_addQueryRel prevNbr pos) result) result rels) }"

definition nbr_round :: "QueryGraph \<Rightarrow> SubqueryGraph \<Rightarrow> SubqueryGraph list \<Rightarrow> SubqueryGraph list option" where
  "nbr_round q s result =
     foldM (\<lambda>tmp prevNbr. do { subgraphs \<leftarrow> getNextNbrSubgraphs q s prevNbr;
                               Some (foldl (\<lambda>tmp sg. List.insert sg tmp) tmp subgraphs) }) [] result"

definition getNbrSubgraphs :: "QueryGraph \<Rightarrow> SubqueryGraph \<Rightarrow> nat \<Rightarrow> SubqueryGraph list option" where
  "getNbrSubgraphs q s n =
     do { base \<leftarrow> getBaseNbrSubgraph q s; foldM (\<lambda>result i. nbr_round q s result) base [1..<n] }"

definition sg_toString :: "QueryGraph \<Rightarrow> SubqueryGraph \<Rightarrow> string" where
  "sg_toString q s =
     ''Nodes={'' @
     concat (map (\<lambda>i. ne_string (queryNodes q ! i) @ '','') (filter (bit (queryNodesSelector s)) [0..<getNumQueryNodes q])) @
     ''},Rels={'' @
     concat (map (\<lambda>i. re_string (queryRels q ! i) @ '','') (filter (bit (queryRelsSelector s)) [0..<getNumQueryRels q])) @
     ''}''"

section \<open>Well-formed query graphs\<close>

text \<open>Names are distinct and the maps are their positions.\<close>

definition index_map :: "string list \<Rightarrow> (string \<rightharpoonup> nat) \<Rightarrow> bool" where
  "index_map names m \<longleftrightarrow> distinct names \<and> (\<forall>x i. m x = Some i \<longleftrightarrow> i < length names \<and> names ! i = x)"

abbreviation node_names :: "QueryGraph \<Rightarrow> string list" where
  "node_names q \<equiv> map ne_uniqueName (queryNodes q)"

abbreviation rel_names :: "QueryGraph \<Rightarrow> string list" where
  "rel_names q \<equiv> map re_uniqueName (queryRels q)"

definition qg_ok :: "QueryGraph \<Rightarrow> bool" where
  "qg_ok q \<longleftrightarrow> index_map (node_names q) (queryNodeNameToPosMap q) \<and> index_map (rel_names q) (queryRelNameToPosMap q)"

lemma index_map_dom: "index_map names m \<Longrightarrow> m x \<noteq> None \<longleftrightarrow> x \<in> set names"
  by (auto simp: index_map_def in_set_conv_nth)

lemma index_map_snoc: "index_map names m \<Longrightarrow> x \<notin> set names \<Longrightarrow> index_map (names @ [x]) (m(x \<mapsto> length names))"
  by (auto simp: index_map_def nth_append in_set_conv_nth less_Suc_eq split: if_splits)

lemma qg_ok_empty [simp]: "qg_ok empty_query_graph"
  by (simp add: qg_ok_def index_map_def empty_query_graph_def)

lemma contains_names:
  assumes "qg_ok q"
  shows "containsQueryNode q x \<longleftrightarrow> x \<in> set (node_names q)" "containsQueryRel q x \<longleftrightarrow> x \<in> set (rel_names q)"
  using assms unfolding qg_ok_def containsQueryNode_def containsQueryRel_def by (simp_all only: index_map_dom)

lemma addQueryNode_ok:
  assumes "qg_ok q"
  shows "qg_ok (qg_addQueryNode q n)" "set (node_names (qg_addQueryNode q n)) = insert (ne_uniqueName n) (set (node_names q))"
    "rel_names (qg_addQueryNode q n) = rel_names q"
  using assms contains_names(1)[OF assms, of "ne_uniqueName n"] index_map_snoc[of "node_names q" _ "ne_uniqueName n"]
  by (auto simp: qg_addQueryNode_def qg_ok_def)

lemma addQueryRel_ok:
  assumes "qg_ok q"
  shows "qg_ok (qg_addQueryRel q r)" "set (rel_names (qg_addQueryRel q r)) = insert (re_uniqueName r) (set (rel_names q))"
    "node_names (qg_addQueryRel q r) = node_names q"
  using assms contains_names(2)[OF assms, of "re_uniqueName r"] index_map_snoc[of "rel_names q" _ "re_uniqueName r"]
  by (auto simp: qg_addQueryRel_def qg_ok_def)

lemma addQueryNodes_ok:
  "qg_ok q \<Longrightarrow> qg_ok (foldl qg_addQueryNode q ns) \<and>
   set (node_names (foldl qg_addQueryNode q ns)) = set (node_names q) \<union> ne_uniqueName ` set ns \<and>
   rel_names (foldl qg_addQueryNode q ns) = rel_names q"
proof (induction ns arbitrary: q)
  case (Cons n ns)
  from Cons.IH[OF addQueryNode_ok(1)[OF Cons.prems, of n]] addQueryNode_ok(2,3)[OF Cons.prems, of n] show ?case by auto
qed simp

lemma addQueryRels_ok:
  "qg_ok q \<Longrightarrow> qg_ok (foldl qg_addQueryRel q rs) \<and>
   set (rel_names (foldl qg_addQueryRel q rs)) = set (rel_names q) \<union> re_uniqueName ` set rs \<and>
   node_names (foldl qg_addQueryRel q rs) = node_names q"
proof (induction rs arbitrary: q)
  case (Cons r rs)
  from Cons.IH[OF addQueryRel_ok(1)[OF Cons.prems, of r]] addQueryRel_ok(2,3)[OF Cons.prems, of r] show ?case by auto
qed simp

text \<open>The node and relationship names of a graph as sets.\<close>

abbreviation nset :: "QueryGraph \<Rightarrow> string set" where "nset q \<equiv> set (node_names q)"

abbreviation rset :: "QueryGraph \<Rightarrow> string set" where "rset q \<equiv> set (rel_names q)"

lemma merge_graph_ok:
  assumes "qg_ok q"
  shows "qg_ok (qg_merge q other)" "nset (qg_merge q other) = nset q \<union> nset other" "rset (qg_merge q other) = rset q \<union> rset other"
proof -
  let ?n = "foldl qg_addQueryNode q (queryNodes other)"
  have n: "qg_ok ?n" "nset ?n = nset q \<union> nset other" "rel_names ?n = rel_names q"
    using addQueryNodes_ok[OF assms, of "queryNodes other"] by auto
  from addQueryRels_ok[OF n(1), of "queryRels other"] have r: "qg_ok (qg_merge q other)"
    "rset (qg_merge q other) = set (rel_names ?n) \<union> rset other" "node_names (qg_merge q other) = node_names ?n"
    by (auto simp: qg_merge_def)
  show "qg_ok (qg_merge q other)" by (rule r(1))
  show "nset (qg_merge q other) = nset q \<union> nset other" using r(3) n(2) by simp
  show "rset (qg_merge q other) = rset q \<union> rset other" using r(2) n(3) by simp
qed

lemma isConnected_iff: "qg_ok other \<Longrightarrow> qg_isConnected q other \<longleftrightarrow> nset q \<inter> nset other \<noteq> {}"
  by (auto simp: qg_isConnected_def list_ex_iff contains_names simp del: set_map) auto

section \<open>The components of a pattern\<close>

text \<open>Two graphs of a pattern are linked when a chain of graphs that share nodes leads from one to the other.\<close>

definition linked :: "QueryGraph set \<Rightarrow> (QueryGraph \<times> QueryGraph) set" where
  "linked E = {(a, b). a \<in> E \<and> b \<in> E \<and> nset a \<inter> nset b \<noteq> {}}\<^sup>*"

text \<open>A graph of the collection is the union of graphs that are all linked to each other.\<close>

definition joins :: "QueryGraph set \<Rightarrow> QueryGraph set \<Rightarrow> QueryGraph \<Rightarrow> bool" where
  "joins E F g \<longleftrightarrow> qg_ok g \<and> F \<subseteq> E \<and> nset g = (\<Union>e\<in>F. nset e) \<and> rset g = (\<Union>e\<in>F. rset e) \<and> F \<times> F \<subseteq> linked E"

definition apart :: "QueryGraph list \<Rightarrow> bool" where
  "apart gs \<longleftrightarrow> sorted_wrt (\<lambda>g h. nset g \<inter> nset h = {}) gs"

definition components :: "QueryGraph set \<Rightarrow> QueryGraph list \<Rightarrow> bool" where
  "components E gs \<longleftrightarrow> apart gs \<and> (\<exists>Fs. list_all2 (joins E) Fs gs \<and> \<Union>(set Fs) = E)"

lemma linked_mono: "E \<subseteq> E' \<Longrightarrow> linked E \<subseteq> linked E'"
  unfolding linked_def by (intro rtrancl_mono) auto

lemma linked_sym: "(a, b) \<in> linked E \<Longrightarrow> (b, a) \<in> linked E"
  unfolding linked_def by (rule symD[OF sym_rtrancl]) (auto simp: sym_def)

lemma joins_mono: "joins E F g \<Longrightarrow> E \<subseteq> E' \<Longrightarrow> joins E' F g"
  unfolding joins_def by (simp, meson linked_mono order_trans)

lemma joins_merge:
  assumes g: "joins E F g" and h: "joins E F' h" and shared: "nset g \<inter> nset h \<noteq> {}"
  shows "joins E (F \<union> F') (qg_merge g h)"
proof -
  have ok: "qg_ok g" using g by (simp add: joins_def)
  from shared obtain a b where ab: "a \<in> F" "b \<in> F'" "nset a \<inter> nset b \<noteq> {}" using g h by (auto simp: joins_def)
  then have "(a, b) \<in> linked E" using g h unfolding linked_def joins_def by (intro r_into_rtrancl) auto
  then have "(x, y) \<in> linked E" if "x \<in> F" "y \<in> F'" for x y
  proof -
    have "(x, a) \<in> linked E" "(b, y) \<in> linked E" using g h ab that by (auto simp: joins_def)
    with \<open>(a, b) \<in> linked E\<close> show ?thesis unfolding linked_def by (meson rtrancl_trans)
  qed
  then have "(F \<union> F') \<times> (F \<union> F') \<subseteq> linked E" using g h linked_sym by (auto simp: joins_def)
  then show ?thesis using g h merge_graph_ok[OF ok, of h] unfolding joins_def by auto
qed

text \<open>
  Adding a graph to the components keeps them apart: the pass merges every component that shares a
  node with the graph, and those it kept before share none with what is merged later.
\<close>

lemma add_graph_pass:
  assumes "apart (ks @ gs)" "list_all2 (joins E) Fs (ks @ gs)" "joins E F toAdd" "\<forall>k\<in>set ks. nset k \<inter> nset toAdd = {}"
  shows "\<exists>ks' merged Fs' F'. foldl (\<lambda>(news, toAdd) q. if qg_isConnected q toAdd then (news, qg_merge toAdd q) else (news @ [q], toAdd))
      (ks, toAdd) gs = (ks', merged) \<and> apart (ks' @ [merged]) \<and> list_all2 (joins E) (Fs' @ [F']) (ks' @ [merged]) \<and>
    \<Union>(set (Fs' @ [F'])) = \<Union>(set Fs) \<union> F"
  using assms
proof (induction gs arbitrary: ks Fs F toAdd)
  case Nil
  then have "list_all2 (joins E) (Fs @ [F]) (ks @ [toAdd])" "apart (ks @ [toAdd])"
    by (auto simp: apart_def sorted_wrt_append intro: list_all2_appendI)
  then show ?case by (intro exI[of _ ks] exI[of _ toAdd] exI[of _ Fs] exI[of _ F]) auto
next
  case (Cons g gs)
  from Cons.prems(2) obtain Fk Fg Fr where F: "Fs = Fk @ Fg # Fr" "list_all2 (joins E) Fk ks" "joins E Fg g" "list_all2 (joins E) Fr gs"
    by (auto simp: list_all2_append2 list_all2_Cons2)
  have ok: "qg_ok toAdd" using Cons.prems(3) by (simp add: joins_def)
  show ?case
  proof (cases "qg_isConnected g toAdd")
    case True
    then have "nset toAdd \<inter> nset g \<noteq> {}" using isConnected_iff[OF ok] by blast
    from joins_merge[OF Cons.prems(3) F(3) this] have j: "joins E (F \<union> Fg) (qg_merge toAdd g)" .
    have a: "apart (ks @ gs)" "\<forall>k\<in>set ks. nset k \<inter> nset g = {}"
      using Cons.prems(1) unfolding apart_def sorted_wrt_append by auto
    then have d: "\<forall>k\<in>set ks. nset k \<inter> nset (qg_merge toAdd g) = {}"
      using Cons.prems(4) unfolding merge_graph_ok(2)[OF ok] by blast
    have "list_all2 (joins E) (Fk @ Fr) (ks @ gs)" using F(2,4) by (intro list_all2_appendI)
    from Cons.IH[OF a(1) this j d] show ?thesis using True F(1) by (simp add: ac_simps)
  next
    case False
    then have "nset g \<inter> nset toAdd = {}" using isConnected_iff[OF ok] by blast
    then have a: "apart ((ks @ [g]) @ gs)" "\<forall>k\<in>set (ks @ [g]). nset k \<inter> nset toAdd = {}" using Cons.prems(1,4) by auto
    have "list_all2 (joins E) Fs ((ks @ [g]) @ gs)" using Cons.prems(2) by simp
    from Cons.IH[OF a(1) this Cons.prems(3) a(2)] show ?thesis using False by simp
  qed
qed

lemma addAndMerge_components:
  assumes "components E gs" "qg_ok g"
  shows "components (insert g E) (addAndMergeQueryGraphIfConnected gs g)"
proof -
  let ?E = "insert g E"
  from assms(1) obtain Fs where F: "apart gs" "list_all2 (joins E) Fs gs" "\<Union>(set Fs) = E" by (auto simp: components_def)
  have "list_all2 (joins ?E) Fs gs" using F(2) by (rule list_all2_mono) (auto intro: joins_mono)
  moreover have "joins ?E {g} g" using assms(2) by (simp add: joins_def linked_def)
  ultimately obtain ks merged Fs' F' where p: "foldl (\<lambda>(news, toAdd) q. if qg_isConnected q toAdd then (news, qg_merge toAdd q) else (news @ [q], toAdd))
      ([], g) gs = (ks, merged)" "apart (ks @ [merged])" "list_all2 (joins ?E) (Fs' @ [F']) (ks @ [merged])" "\<Union>(set (Fs' @ [F'])) = \<Union>(set Fs) \<union> {g}"
    using add_graph_pass[of "[]" gs ?E Fs "{g}" g] F(1) by auto
  have "addAndMergeQueryGraphIfConnected gs g = ks @ [merged]" by (simp add: addAndMergeQueryGraphIfConnected_def p(1))
  moreover have "\<Union>(set (Fs' @ [F'])) = ?E" using p(4) F(3) by simp
  ultimately show ?thesis using p(2,3) unfolding components_def by metis
qed

lemma add_all_components:
  assumes "\<forall>g\<in>set gs. qg_ok g"
  shows "components (set gs) (foldl addAndMergeQueryGraphIfConnected [] gs)"
  using assms
proof (induction gs rule: rev_induct)
  case Nil
  then show ?case by (simp add: components_def apart_def)
next
  case (snoc g gs)
  then show ?case using addAndMerge_components[of "set gs" _ g] by simp
qed

lemma apart_nth: "apart gs \<Longrightarrow> i < length gs \<Longrightarrow> j < length gs \<Longrightarrow> i \<noteq> j \<Longrightarrow> nset (gs ! i) \<inter> nset (gs ! j) = {}"
  unfolding apart_def sorted_wrt_iff_nth_less by (metis inf_commute linorder_neqE_nat)

lemma finalize_components:
  assumes "components E gs" "gs \<noteq> []"
  shows "collection_finalize gs = Some gs"
proof -
  from assms(1) have a: "apart gs" and ok: "\<forall>g\<in>set gs. qg_ok g"
    by (auto simp: components_def joins_def list_all2_conv_all_nth in_set_conv_nth)
  have "find_graph_to_merge gs {0} (gs ! 0) = None"
    using apart_nth[OF a, of 0] ok assms(2)
    by (auto simp: find_graph_to_merge_def find_None_iff isConnected_iff)
  then have "merge_rounds 0 (gs, {0}) = (gs, {0})" by simp
  moreover have "filter (\<lambda>i. i = 0 \<or> i \<notin> {0}) [0..<length gs] = [0..<length gs]" by (auto simp: filter_id_conv)
  ultimately have "mergeGraphs gs 0 = Some gs" using assms(2) by (simp add: mergeGraphs_def map_nth)
  then show ?thesis unfolding collection_finalize_def by (subst finalize_from.simps) simp
qed

section \<open>Property\<close>

text \<open>
  C14: The graphs the binder keeps for a pattern are its connected components. No two of them share a
  node, every pattern element is part of one, and the elements of one graph are linked by chains of
  elements that share nodes. They are the graphs collected while the elements are added one by one: the
  final merging returns them unchanged.
\<close>

theorem bind_components:
  assumes "elements \<noteq> []" "\<forall>g\<in>set elements. qg_ok g"
  shows "bindGraphPattern elements = collection_finalize (foldl addAndMergeQueryGraphIfConnected [] elements) \<and>
    collection_finalize (foldl addAndMergeQueryGraphIfConnected [] elements) = Some (foldl addAndMergeQueryGraphIfConnected [] elements) \<and>
    components (set elements) (foldl addAndMergeQueryGraphIfConnected [] elements)"
proof -
  let ?gs = "foldl addAndMergeQueryGraphIfConnected [] elements"
  have c: "components (set elements) ?gs" by (rule add_all_components[OF assms(2)])
  have "?gs \<noteq> []" using c assms(1) by (auto simp: components_def)
  with finalize_components[OF c] c show ?thesis by (simp add: bindGraphPattern_def)
qed

definition ex_node :: "string \<Rightarrow> NodeExpression" where
  "ex_node x = \<lparr>ne_uniqueName = x, ne_string = x, ne_isEmpty = False\<rparr>"

definition ex_rel :: "string \<Rightarrow> string \<Rightarrow> string \<Rightarrow> RelExpression" where
  "ex_rel x a b = \<lparr>re_uniqueName = x, re_string = x, re_isEmpty = False, re_srcNodeName = a, re_dstNodeName = b\<rparr>"

definition ex_edge :: "string \<Rightarrow> string \<Rightarrow> string \<Rightarrow> QueryGraph" where
  "ex_edge x a b = qg_addQueryRel (qg_addQueryNode (qg_addQueryNode empty_query_graph (ex_node a)) (ex_node b)) (ex_rel x a b)"

lemma ex_edge_ok: "qg_ok (ex_edge x a b)"
  unfolding ex_edge_def by (intro addQueryRel_ok(1) addQueryNode_ok(1) qg_ok_empty)

theorem bind_components_witness:
  "\<exists>gs. bindGraphPattern [ex_edge ''e'' ''a'' ''b'', ex_edge ''f'' ''c'' ''d'', ex_edge ''g'' ''b'' ''c''] = Some gs \<and> length gs = 1 \<and>
     components (set [ex_edge ''e'' ''a'' ''b'', ex_edge ''f'' ''c'' ''d'', ex_edge ''g'' ''b'' ''c'']) gs"
proof -
  have "map_option length (bindGraphPattern [ex_edge ''e'' ''a'' ''b'', ex_edge ''f'' ''c'' ''d'', ex_edge ''g'' ''b'' ''c'']) = Some 1"
    by code_simp
  with bind_components[of "[ex_edge ''e'' ''a'' ''b'', ex_edge ''f'' ''c'' ''d'', ex_edge ''g'' ''b'' ''c'']"] ex_edge_ok
  show ?thesis by auto
qed

end
