(* ===== verification/SubqueryGraphs.thy ===== *)
theory SubqueryGraphs
  imports QueryGraph
begin

text \<open>
  The enumeration of neighbour subgraphs (\<open>SubqueryGraph::getNbrSubgraphs\<close>) against its
  specification. A subgraph is read as the set of its node and relationship variables, and a
  relationship variable is adjacent to the nodes it connects.
\<close>

section \<open>Growing connected sets\<close>

text \<open>
  From the neighbours of a set \<open>G\<close>, sets are grown by one adjacent element at a time. What is
  reached after \<open>n\<close> steps are the connected sets of \<open>n + 1\<close> elements outside \<open>G\<close> that touch it.
\<close>

definition conn :: "('v \<times> 'v) set \<Rightarrow> 'v set \<Rightarrow> bool" where
  "conn A S \<longleftrightarrow> (\<forall>u\<in>S. \<forall>v\<in>S. (u, v) \<in> (A \<inter> S \<times> S)\<^sup>*)"

fun level :: "('v \<times> 'v) set \<Rightarrow> 'v set \<Rightarrow> nat \<Rightarrow> 'v set set" where
  "level A G 0 = {{w} | w. w \<notin> G \<and> (\<exists>v\<in>G. (w, v) \<in> A)}"
| "level A G (Suc n) = {insert w T | w T. T \<in> level A G n \<and> w \<notin> T \<and> w \<notin> G \<and> (\<exists>v\<in>T. (w, v) \<in> A)}"

definition touching :: "('v \<times> 'v) set \<Rightarrow> 'v set \<Rightarrow> nat \<Rightarrow> 'v set \<Rightarrow> bool" where
  "touching A G n S \<longleftrightarrow> finite S \<and> card S = n \<and> S \<inter> G = {} \<and> conn A S \<and> (\<exists>v\<in>S. \<exists>u\<in>G. (v, u) \<in> A)"

lemma conn_insert:
  assumes "conn A T" "sym A" "v \<in> T" "(w, v) \<in> A"
  shows "conn A (insert w T)"
proof -
  let ?R = "A \<inter> insert w T \<times> insert w T"
  have T: "(x, y) \<in> ?R\<^sup>*" if "x \<in> T" "y \<in> T" for x y
  proof -
    have "(A \<inter> T \<times> T)\<^sup>* \<subseteq> ?R\<^sup>*" by (intro rtrancl_mono) auto
    with assms(1) that show ?thesis by (auto simp: conn_def)
  qed
  have w: "(w, v) \<in> ?R" "(v, w) \<in> ?R" using assms(2-4) by (auto dest: symD)
  have "(w, y) \<in> ?R\<^sup>* \<and> (y, w) \<in> ?R\<^sup>*" if "y \<in> T" for y
    using T[OF assms(3) that] T[OF that assms(3)] w by (meson converse_rtrancl_into_rtrancl rtrancl_into_rtrancl)
  with T show ?thesis unfolding conn_def by auto
qed

lemma level_touching:
  assumes "sym A" "S \<in> level A G n"
  shows "touching A G (Suc n) S"
  using assms(2)
proof (induction n arbitrary: S)
  case 0
  then show ?case by (auto simp: touching_def conn_def)
next
  case (Suc n)
  then obtain w T v where T: "S = insert w T" "T \<in> level A G n" "w \<notin> T" "w \<notin> G" "v \<in> T" "(w, v) \<in> A" by auto
  from Suc.IH[OF T(2)] T conn_insert[OF _ assms(1) T(5,6)] show ?case by (auto simp: touching_def)
qed

text \<open>A path that leaves a set crosses its border.\<close>

lemma crossing:
  assumes "(x, y) \<in> R\<^sup>*" "x \<in> T" "y \<notin> T"
  shows "\<exists>u v. u \<in> T \<and> v \<notin> T \<and> (u, v) \<in> R"
  using assms by (induction rule: converse_rtrancl_induct) auto

lemma touching_level:
  assumes "sym A" "touching A G n S" "0 < n"
  shows "S \<in> level A G (n - 1)"
proof -
  from assms(2) obtain v where S: "finite S" "card S = n" "S \<inter> G = {}" "conn A S" "v \<in> S" "\<exists>u\<in>G. (v, u) \<in> A"
    by (auto simp: touching_def)
  have "\<exists>T. T \<subseteq> S \<and> v \<in> T \<and> card T = Suc k \<and> T \<in> level A G k" if "k < n" for k
    using that
  proof (induction k)
    case 0
    with S show ?case by (intro exI[of _ "{v}"]) auto
  next
    case (Suc k)
    then obtain T where T: "T \<subseteq> S" "v \<in> T" "card T = Suc k" "T \<in> level A G k" by auto
    then have "T \<noteq> S" using S(2) Suc.prems by auto
    then obtain y where y: "y \<in> S" "y \<notin> T" using T(1) by auto
    have "(v, y) \<in> (A \<inter> S \<times> S)\<^sup>*" using S(4,5) y(1) by (auto simp: conn_def)
    from crossing[OF this T(2) y(2)] obtain a w where w: "a \<in> T" "w \<notin> T" "(a, w) \<in> A" "w \<in> S" by auto
    have "(w, a) \<in> A" by (rule symD[OF assms(1) w(3)])
    then have "insert w T \<in> level A G (Suc k)" unfolding level.simps using T(4) w S(3) by blast
    moreover have "card (insert w T) = Suc (Suc k)" using T(1,3) w(2) S(1) by (simp add: finite_subset)
    moreover have "insert w T \<subseteq> S" "v \<in> insert w T" using T(1,2) w(4) by auto
    ultimately show ?case by metis
  qed
  from this[of "n - 1"] assms(3) obtain T where T: "T \<subseteq> S" "card T = n" "T \<in> level A G (n - 1)" by auto
  then have "T = S" using S(1,2) by (metis card_subset_eq)
  with T(3) show ?thesis by simp
qed

lemma level_iff: "sym A \<Longrightarrow> 0 < n \<Longrightarrow> S \<in> level A G (n - 1) \<longleftrightarrow> touching A G n S"
  using level_touching[of A S G "n - 1"] touching_level[of A G n S] by auto

section \<open>The variables of a subgraph\<close>

datatype qvar = QNode nat | QRel nat

definition svars :: "SubqueryGraph \<Rightarrow> qvar set" where
  "svars s = QNode ` {i. bit (queryNodesSelector s) i} \<union> QRel ` {i. bit (queryRelsSelector s) i}"

lemma svars_mem [simp]:
  "QNode i \<in> svars s \<longleftrightarrow> bit (queryNodesSelector s) i" "QRel i \<in> svars s \<longleftrightarrow> bit (queryRelsSelector s) i"
  by (auto simp: svars_def)

lemma svars_inj: "inj svars"
proof (rule injI)
  fix s t assume eq: "svars s = svars t"
  have "bit (queryNodesSelector s) i = bit (queryNodesSelector t) i" "bit (queryRelsSelector s) i = bit (queryRelsSelector t) i" for i
    using eq svars_mem by blast+
  then have "queryNodesSelector s = queryNodesSelector t" "queryRelsSelector s = queryRelsSelector t"
    by (auto intro: bit_word_eqI)
  then show "s = t" by simp
qed

lemma svars_add:
  "i < 64 \<Longrightarrow> svars (sg_addQueryNode s i) = insert (QNode i) (svars s)"
  "i < 64 \<Longrightarrow> svars (sg_addQueryRel s i) = insert (QRel i) (svars s)"
  by (auto simp: svars_def sg_addQueryNode_def sg_addQueryRel_def bit_simps)

lemma svars_new [simp]: "svars new_SubqueryGraph = {}"
  by (auto simp: svars_def new_SubqueryGraph_def)

text \<open>Graphs of at most 64 nodes and relationships whose relationships end in nodes of the graph.\<close>

definition qg_closed :: "QueryGraph \<Rightarrow> bool" where
  "qg_closed q \<longleftrightarrow> qg_ok q \<and> length (queryNodes q) \<le> 64 \<and> length (queryRels q) \<le> 64 \<and>
     (\<forall>r\<in>set (queryRels q). re_srcNodeName r \<in> set (node_names q) \<and> re_dstNodeName r \<in> set (node_names q))"

definition adj :: "QueryGraph \<Rightarrow> (qvar \<times> qvar) set" where
  "adj q = {(u, v). \<exists>r i j. r < length (queryRels q) \<and> rel_ends q r = Some (i, j) \<and>
     (u = QRel r \<and> (v = QNode i \<or> v = QNode j) \<or> v = QRel r \<and> (u = QNode i \<or> u = QNode j))}"

lemma sym_adj: "sym (adj q)"
  by (auto simp: sym_def adj_def)

lemma rel_ends_ok:
  assumes "qg_closed q" "r < length (queryRels q)"
  shows "\<exists>i j. rel_ends q r = Some (i, j) \<and> i < 64 \<and> j < 64"
proof -
  have idx: "\<exists>i < 64. getQueryNodeIdx q x = Some i" if "x \<in> set (node_names q)" for x
  proof -
    from that obtain i where i: "i < length (node_names q)" "node_names q ! i = x" by (metis in_set_conv_nth)
    then have "queryNodeNameToPosMap q x = Some i" using assms(1) by (auto simp: qg_closed_def qg_ok_def index_map_def)
    with i assms(1) show ?thesis by (auto simp: getQueryNodeIdx_def qg_closed_def)
  qed
  have "queryRels q ! r \<in> set (queryRels q)" using assms(2) by simp
  then obtain i j where "i < 64" "getQueryNodeIdx q (re_srcNodeName (queryRels q ! r)) = Some i" "j < 64"
    "getQueryNodeIdx q (re_dstNodeName (queryRels q ! r)) = Some j"
    using assms(1) idx unfolding qg_closed_def by meson
  then show ?thesis by (simp add: rel_ends_def)
qed

text \<open>The neighbours of a subgraph: variables outside of it that are adjacent to one inside.\<close>

definition nbrs :: "QueryGraph \<Rightarrow> SubqueryGraph \<Rightarrow> qvar set" where
  "nbrs q s = {w. w \<notin> svars s \<and> (\<exists>v\<in>svars s. (w, v) \<in> adj q)}"

lemma adj_qnode: "(QNode i, v) \<in> adj q \<longleftrightarrow>
    (\<exists>r a b. r < length (queryRels q) \<and> rel_ends q r = Some (a, b) \<and> v = QRel r \<and> (i = a \<or> i = b))"
  unfolding adj_def by blast

lemma adj_qrel: "(QRel r, v) \<in> adj q \<longleftrightarrow>
    (r < length (queryRels q) \<and> (\<exists>a b. rel_ends q r = Some (a, b) \<and> (v = QNode a \<or> v = QNode b)))"
  unfolding adj_def by blast

lemma nbrs_mem:
  "QNode i \<in> nbrs q s \<longleftrightarrow> \<not> bit (queryNodesSelector s) i \<and>
     (\<exists>r < length (queryRels q). bit (queryRelsSelector s) r \<and> (\<exists>a b. rel_ends q r = Some (a, b) \<and> (i = a \<or> i = b)))"
  "QRel r \<in> nbrs q s \<longleftrightarrow> r < length (queryRels q) \<and> \<not> bit (queryRelsSelector s) r \<and>
     (\<exists>a b. rel_ends q r = Some (a, b) \<and> (bit (queryNodesSelector s) a \<or> bit (queryNodesSelector s) b))"
  unfolding nbrs_def mem_Collect_eq svars_mem adj_qnode adj_qrel Bex_def by (metis svars_mem(2), metis svars_mem(1))

lemma getNodeNbrPositions_ok:
  assumes "qg_closed q"
  shows "\<exists>ns. getNodeNbrPositions q s = Some ns \<and> QNode ` set ns = nbrs q s \<inter> range QNode"
proof -
  let ?R = "\<lambda>k. {i. \<not> bit (queryNodesSelector s) i \<and>
    (\<exists>r < k. bit (queryRelsSelector s) r \<and> (\<exists>a b. rel_ends q r = Some (a, b) \<and> (i = a \<or> i = b)))}"
  have "\<exists>ns. getNodeNbrPositions q s = Some ns \<and> set ns = ?R (length (queryRels q))"
    unfolding getNodeNbrPositions_def getNumQueryRels_def
  proof (rule foldM_upt_rule[where I = "\<lambda>k ns. set ns = ?R k"])
    fix k ns assume k: "k < length (queryRels q)" and I: "set ns = ?R k"
    from rel_ends_ok[OF assms k] obtain a b where "rel_ends q k = Some (a, b)" by blast
    with I show "\<exists>ns'. (if \<not> bit (queryRelsSelector s) k then Some ns
      else do { (src, dst) \<leftarrow> rel_ends q k; Some (add_unselected s dst (add_unselected s src ns)) }) = Some ns' \<and> set ns' = ?R (Suc k)"
      by (auto simp: less_Suc_eq add_unselected_def)
  qed auto
  moreover have "?R (length (queryRels q)) = {i. QNode i \<in> nbrs q s}" by (simp only: nbrs_mem)
  then have "QNode ` ?R (length (queryRels q)) = nbrs q s \<inter> range QNode" by auto
  ultimately show ?thesis by metis
qed

lemma getRelNbrPositions_ok:
  assumes "qg_closed q"
  shows "\<exists>rs. getRelNbrPositions q s = Some rs \<and> QRel ` set rs = nbrs q s \<inter> range QRel"
proof -
  let ?R = "\<lambda>k. {r. r < k \<and> \<not> bit (queryRelsSelector s) r \<and>
    (\<exists>a b. rel_ends q r = Some (a, b) \<and> (bit (queryNodesSelector s) a \<or> bit (queryNodesSelector s) b))}"
  have "\<exists>rs. getRelNbrPositions q s = Some rs \<and> set rs = ?R (length (queryRels q))"
    unfolding getRelNbrPositions_def getNumQueryRels_def
  proof (rule foldM_upt_rule[where I = "\<lambda>k rs. set rs = ?R k"])
    fix k rs assume k: "k < length (queryRels q)" and I: "set rs = ?R k"
    from rel_ends_ok[OF assms k] obtain a b where ends: "rel_ends q k = Some (a, b)" by blast
    then have "?R (Suc k) = (if \<not> bit (queryRelsSelector s) k \<and> (bit (queryNodesSelector s) a \<or> bit (queryNodesSelector s) b)
        then insert k (?R k) else ?R k)" unfolding less_Suc_eq by auto
    with I ends show "\<exists>rs'. (if bit (queryRelsSelector s) k then Some rs
      else do { (src, dst) \<leftarrow> rel_ends q k; Some (if bit (queryNodesSelector s) src \<or> bit (queryNodesSelector s) dst
        then List.insert k rs else rs) }) = Some rs' \<and> set rs' = ?R (Suc k)"
      by (simp split: if_splits)
  qed auto
  moreover have "?R (length (queryRels q)) = {r. QRel r \<in> nbrs q s}" by (simp only: nbrs_mem)
  then have "QRel ` ?R (length (queryRels q)) = nbrs q s \<inter> range QRel" by auto
  ultimately show ?thesis by metis
qed

lemma nbr_bounds:
  assumes "qg_closed q" "(w, v) \<in> adj q"
  shows "(\<exists>i. w = QNode i \<and> i < 64) \<or> (\<exists>r. w = QRel r \<and> r < 64)"
proof -
  from assms(2) obtain r i j where r: "r < length (queryRels q)" "rel_ends q r = Some (i, j)" "w = QRel r \<or> w = QNode i \<or> w = QNode j"
    by (auto simp: adj_def)
  moreover have "length (queryRels q) \<le> 64" using assms(1) by (simp add: qg_closed_def)
  ultimately show ?thesis using rel_ends_ok[OF assms(1) r(1)] by auto
qed

section \<open>The enumeration\<close>

lemma foldl_insert_set: "set (foldl (\<lambda>result x. if P x then result else List.insert (f x) result) xs ys) = set xs \<union> f ` {y \<in> set ys. \<not> P y}"
  by (induction ys arbitrary: xs) auto

lemmas foldl_insert_all = foldl_insert_set[where P = "\<lambda>_. False", simplified]

text \<open>The sets of variables of one more element, from a list of nodes and one of relationships.\<close>

lemma grown_vars:
  assumes "\<forall>i\<in>set ns. i < 64" "\<forall>r\<in>set rs. r < 64"
  shows "svars ` (sg_addQueryNode t ` set ns \<union> sg_addQueryRel t ` set rs) = (\<lambda>w. insert w (svars t)) ` (QNode ` set ns \<union> QRel ` set rs)"
proof -
  have "svars ` sg_addQueryNode t ` set ns = (\<lambda>w. insert w (svars t)) ` QNode ` set ns"
    unfolding image_image using assms(1) by (intro image_cong) (auto simp: svars_add)
  moreover have "svars ` sg_addQueryRel t ` set rs = (\<lambda>w. insert w (svars t)) ` QRel ` set rs"
    unfolding image_image using assms(2) by (intro image_cong) (auto simp: svars_add)
  ultimately show ?thesis by (simp add: image_Un)
qed

lemma nbr_lists:
  assumes "qg_closed q"
  shows "\<exists>ns rs. getNodeNbrPositions q s = Some ns \<and> getRelNbrPositions q s = Some rs \<and> QNode ` set ns \<union> QRel ` set rs = nbrs q s \<and>
    (\<forall>i\<in>set ns. i < 64) \<and> (\<forall>r\<in>set rs. r < 64)"
proof -
  obtain ns where n: "getNodeNbrPositions q s = Some ns" "QNode ` set ns = nbrs q s \<inter> range QNode"
    using getNodeNbrPositions_ok[OF assms, of s] by (elim exE conjE)
  obtain rs where r: "getRelNbrPositions q s = Some rs" "QRel ` set rs = nbrs q s \<inter> range QRel"
    using getRelNbrPositions_ok[OF assms, of s] by (elim exE conjE)
  have b: "(\<exists>i. w = QNode i \<and> i < 64) \<or> (\<exists>r. w = QRel r \<and> r < 64)" if "w \<in> nbrs q s" for w
    using that nbr_bounds[OF assms] unfolding nbrs_def by blast
  have "i < 64" if "i \<in> set ns" for i using b[of "QNode i"] n(2) imageI[OF that, of QNode] by simp
  moreover have "i < 64" if "i \<in> set rs" for i using b[of "QRel i"] r(2) imageI[OF that, of QRel] by simp
  moreover have "nbrs q s \<subseteq> range QNode \<union> range QRel" using b by blast
  then have "QNode ` set ns \<union> QRel ` set rs = nbrs q s" unfolding n(2) r(2) by blast
  ultimately show ?thesis using n(1) r(1) by blast
qed

lemma base_level:
  assumes "qg_closed q"
  shows "\<exists>base. getBaseNbrSubgraph q s = Some base \<and> svars ` set base = level (adj q) (svars s) 0"
proof -
  from nbr_lists[OF assms, of s] obtain ns rs where
    n: "getNodeNbrPositions q s = Some ns" "getRelNbrPositions q s = Some rs" "QNode ` set ns \<union> QRel ` set rs = nbrs q s"
    "\<forall>i\<in>set ns. i < 64" "\<forall>r\<in>set rs. r < 64" by blast
  have "svars ` (sg_addQueryNode new_SubqueryGraph ` set ns \<union> sg_addQueryRel new_SubqueryGraph ` set rs) = (\<lambda>w. {w}) ` nbrs q s"
    unfolding grown_vars[OF n(4,5)] n(3) by simp
  also have "\<dots> = level (adj q) (svars s) 0" by (auto simp: nbrs_def)
  finally show ?thesis using n(1,2) by (simp add: getBaseNbrSubgraph_def foldl_insert_all Let_def)
qed

lemma next_subgraphs:
  assumes "qg_closed q"
  shows "\<exists>l. getNextNbrSubgraphs q s t = Some l \<and> svars ` set l = (\<lambda>w. insert w (svars t)) ` (nbrs q t - svars s)"
proof -
  from nbr_lists[OF assms, of t] obtain ns rs where
    n: "getNodeNbrPositions q t = Some ns" "getRelNbrPositions q t = Some rs" "QNode ` set ns \<union> QRel ` set rs = nbrs q t"
    "\<forall>i\<in>set ns. i < 64" "\<forall>r\<in>set rs. r < 64" by blast
  let ?ns = "filter (\<lambda>i. \<not> bit (queryNodesSelector s) i) ns" and ?rs = "filter (\<lambda>r. \<not> bit (queryRelsSelector s) r) rs"
  have "QNode ` set ?ns \<union> QRel ` set ?rs = nbrs q t - svars s" unfolding n(3)[symmetric] by (auto simp: image_iff)
  with grown_vars[of ?ns ?rs t] n(4,5)
  have "svars ` (sg_addQueryNode t ` set ?ns \<union> sg_addQueryRel t ` set ?rs) = (\<lambda>w. insert w (svars t)) ` (nbrs q t - svars s)" by simp
  with n(1,2) show ?thesis by (simp add: getNextNbrSubgraphs_def foldl_insert_set Let_def)
qed

lemma round_level:
  assumes "qg_closed q" "svars ` set l = level (adj q) (svars s) n"
  shows "\<exists>l'. nbr_round q s l = Some l' \<and> svars ` set l' = level (adj q) (svars s) (Suc n)"
proof -
  let ?N = "\<lambda>ts. \<Union>t\<in>ts. (\<lambda>w. insert w (svars t)) ` (nbrs q t - svars s)"
  have "\<exists>l'. nbr_round q s l = Some l' \<and> svars ` set l' = ?N (set l)" unfolding nbr_round_def
  proof (rule foldM_rule[where I = "\<lambda>pre l'. svars ` set l' = ?N (set pre)"])
    fix pre t rest tmp assume I: "svars ` set tmp = ?N (set pre)"
    from next_subgraphs[OF assms(1), of s t] obtain k where
      "getNextNbrSubgraphs q s t = Some k" "svars ` set k = (\<lambda>w. insert w (svars t)) ` (nbrs q t - svars s)" by blast
    with I show "\<exists>tmp'. do { subgraphs \<leftarrow> getNextNbrSubgraphs q s t; Some (foldl (\<lambda>tmp sg. List.insert sg tmp) tmp subgraphs) } = Some tmp' \<and>
        svars ` set tmp' = ?N (set (pre @ [t]))"
      using foldl_insert_all[of "\<lambda>x. x" tmp k] by (simp add: image_Un Un_commute)
  qed simp
  moreover have "?N (set l) = {insert w T | w T. T \<in> svars ` set l \<and> w \<notin> T \<and> w \<notin> svars s \<and> (\<exists>v\<in>T. (w, v) \<in> adj q)}" (is "_ = ?M")
  proof (intro set_eqI iffI)
    fix S assume "S \<in> ?N (set l)"
    then obtain t w where "t \<in> set l" "w \<in> nbrs q t" "w \<notin> svars s" "S = insert w (svars t)" by blast
    then show "S \<in> ?M" unfolding nbrs_def by blast
  next
    fix S assume "S \<in> ?M"
    then obtain t w where "t \<in> set l" "w \<notin> svars t" "w \<notin> svars s" "\<exists>v\<in>svars t. (w, v) \<in> adj q" "S = insert w (svars t)" by blast
    then have "w \<in> nbrs q t - svars s" unfolding nbrs_def by blast
    with \<open>t \<in> set l\<close> \<open>S = _\<close> show "S \<in> ?N (set l)" by blast
  qed
  ultimately show ?thesis unfolding assms(2) level.simps by simp
qed

lemma getNbrSubgraphs_level:
  assumes "qg_closed q"
  shows "\<exists>l. getNbrSubgraphs q s n = Some l \<and> svars ` set l = level (adj q) (svars s) (n - 1)"
proof -
  from base_level[OF assms, of s] obtain base where b: "getBaseNbrSubgraph q s = Some base" "svars ` set base = level (adj q) (svars s) 0" by blast
  have "\<exists>l. foldM (\<lambda>result i. nbr_round q s result) base [1..<n] = Some l \<and> svars ` set l = level (adj q) (svars s) (n - 1)"
  proof (cases "1 \<le> n")
    case True
    show ?thesis
    proof (rule foldM_upt_rule[where I = "\<lambda>k l. svars ` set l = level (adj q) (svars s) (k - 1)", OF True])
      show "svars ` set base = level (adj q) (svars s) (1 - 1)" using b(2) by (simp only: diff_self_eq_0)
      fix k l assume k: "1 \<le> k" and "svars ` set l = level (adj q) (svars s) (k - 1)"
      from round_level[OF assms this(2)] k show "\<exists>l'. nbr_round q s l = Some l' \<and> svars ` set l' = level (adj q) (svars s) (Suc k - 1)"
        by (simp del: level.simps)
    qed
  next
    case False
    then have "[1..<n] = []" "n - 1 = 0" by auto
    then show ?thesis using b(2) by (simp del: level.simps)
  qed
  with b(1) show ?thesis by (simp add: getNbrSubgraphs_def)
qed

section \<open>Property\<close>

text \<open>
  C15: The neighbour enumeration of the join order planner is sound and complete. For a positive size the
  subgraphs it returns are exactly the connected ones with that many variables that are disjoint from
  the given subgraph and adjacent to it.
\<close>

theorem nbr_subgraphs_complete:
  assumes "qg_closed q" "0 < n"
  shows "\<exists>l. getNbrSubgraphs q s n = Some l \<and> (\<forall>t. t \<in> set l \<longleftrightarrow> touching (adj q) (svars s) n (svars t))"
proof -
  from getNbrSubgraphs_level[OF assms(1), of s n] obtain l where
    l: "getNbrSubgraphs q s n = Some l" "svars ` set l = level (adj q) (svars s) (n - 1)" by blast
  have "t \<in> set l \<longleftrightarrow> touching (adj q) (svars s) n (svars t)" for t
    using inj_image_mem_iff[OF svars_inj, of t "set l"] level_iff[OF sym_adj assms(2)] unfolding l(2) by metis
  with l(1) show ?thesis by blast
qed

definition ex_triangle :: QueryGraph where
  "ex_triangle = qg_merge (qg_merge (ex_edge ''e'' ''a'' ''b'') (ex_edge ''f'' ''b'' ''c'')) (ex_edge ''g'' ''c'' ''a'')"

lemma ex_triangle_closed: "qg_closed ex_triangle"
proof -
  have "qg_ok ex_triangle" unfolding ex_triangle_def by (intro merge_graph_ok(1) ex_edge_ok)
  moreover have "length (queryNodes ex_triangle) = 3" "length (queryRels ex_triangle) = 3"
    "list_all (\<lambda>r. re_srcNodeName r \<in> set (node_names ex_triangle) \<and> re_dstNodeName r \<in> set (node_names ex_triangle)) (queryRels ex_triangle)"
    by code_simp+
  ultimately show ?thesis by (simp add: qg_closed_def list_all_iff)
qed

theorem nbr_subgraphs_complete_witness:
  "\<exists>l. getNbrSubgraphs ex_triangle (sg_addQueryNode new_SubqueryGraph 0) 2 = Some l \<and> length l = 2 \<and>
     touching (adj ex_triangle) (svars (sg_addQueryNode new_SubqueryGraph 0)) 2 (svars (l ! 0))"
proof -
  have "map_option length (getNbrSubgraphs ex_triangle (sg_addQueryNode new_SubqueryGraph 0) 2) = Some 2" by code_simp
  with nbr_subgraphs_complete[OF ex_triangle_closed, of 2 "sg_addQueryNode new_SubqueryGraph 0"] nth_mem show ?thesis by fastforce
qed

end
