(* ===== verification/IntersectOp.thy ===== *)
theory IntersectOp
  imports IntersectMultiwayLoop
begin

text \<open>
  The operator that intersects the neighbour lists of several hash tables
  (\<open>processor/operator/intersect/intersect.cpp\<close>), and the two readers of the factorized table it
  uses for the payloads.

  The list a tuple points to is read as the list of its identifiers. Positions and counters are
  natural numbers, except the product of the numbers of probed tuples, which is a 32-bit word as in the
  source. The child operator is the list of the key tuples it will still deliver.
\<close>

section \<open>Probing\<close>

definition collect_tuple :: "JoinHashTable \<Rightarrow> nodeID \<Rightarrow> tuple_ptr \<Rightarrow> tuple_ptr list \<Rightarrow> tuple_ptr list option" where
  "collect_tuple ht key p found =
     do { r \<leftarrow> row_at (flatTupleBlockCollection (factorizedTable ht)) p;
          k \<leftarrow> tuple_key r;
          Some (if id_eq k key then found @ [p] else found) }"

partial_function (option) collect_tuples :: "JoinHashTable \<Rightarrow> nodeID \<Rightarrow> tuple_ptr option \<Rightarrow> tuple_ptr list \<Rightarrow> tuple_ptr list option" where
  "collect_tuples ht key p found =
     (case p of
        None \<Rightarrow> Some found
      | Some x \<Rightarrow> Option.bind (collect_tuple ht key x found) (\<lambda>found'.
                   Option.bind (getPrevTuple ht x) (\<lambda>q. collect_tuples ht key q found')))"

declare collect_tuples.simps [code]

definition probeHT :: "JoinHashTable \<Rightarrow> nodeID \<Rightarrow> tuple_ptr list option" where
  "probeHT ht key =
     (if ft_numTuples (factorizedTable ht) = 0 then Some []
      else do { p \<leftarrow> getTupleForHash ht (Hash_internalID key); collect_tuples ht key p [] })"

definition intersect_probeHTs :: "JoinHashTable list \<Rightarrow> nodeID list \<Rightarrow> tuple_ptr list list option" where
  "intersect_probeHTs hts keys =
     foldM (\<lambda>probed i. do { found \<leftarrow> probeHT (hts ! i) (keys ! i); Some (probed @ [found]) }) [] [0..<length keys]"

section \<open>Intersecting two lists\<close>

text \<open>
  The loop over both lists. It compacts the left identifiers in place and records the positions of
  the common elements in the two buffers.
\<close>

function two_way_loop ::
  "nodeID list \<Rightarrow> nat \<Rightarrow> nodeID list \<Rightarrow> nat \<Rightarrow> nat \<Rightarrow> nat \<Rightarrow> nat \<Rightarrow> nat list \<Rightarrow> nat list \<Rightarrow> nodeID list \<times> nat list \<times> nat list \<times> nat" where
  "two_way_loop left lsize right rsize l r out lbuf rbuf =
     (if l < lsize \<and> r < rsize
      then (let a = left ! l; b = right ! r in
            if id_lt a b then two_way_loop left lsize right rsize (l + 1) r out lbuf rbuf
            else if id_gt a b then two_way_loop left lsize right rsize l (r + 1) out lbuf rbuf
            else two_way_loop (left[out := a]) lsize right rsize (l + 1) (r + 1) (out + 1) (lbuf[out := l]) (rbuf[out := r]))
      else (left, lbuf, rbuf, out))"
  by pat_completeness auto

termination
  by (relation "measure (\<lambda>(left, lsize, right, rsize, l, r, out, lbuf, rbuf). (lsize - l) + (rsize - r))") auto

declare two_way_loop.simps [simp del]

definition twoWayIntersect ::
  "nodeID list \<Rightarrow> SelectionVector \<Rightarrow> nodeID list \<Rightarrow> SelectionVector \<Rightarrow> (nodeID list \<times> SelectionVector \<times> SelectionVector) option" where
  "twoWayIntersect left lSel right rSel =
     do { ku_assert (selectedSize lSel \<le> selectedSize rSel);
          ku_assert (selectedSize lSel \<le> length left \<and> selectedSize rSel \<le> length right);
          let (left', lbuf, rbuf, out) = two_way_loop left (selectedSize lSel) right (selectedSize rSel) 0 0 0
                (selectedPositionsBuffer lSel) (selectedPositionsBuffer rSel);
          lSel' \<leftarrow> setToFiltered_size out (lSel\<lparr>selectedPositionsBuffer := lbuf\<rparr>);
          rSel' \<leftarrow> setToFiltered_size out (rSel\<lparr>selectedPositionsBuffer := rbuf\<rparr>);
          Some (left', lSel', rSel') }"

section \<open>Intersecting all lists\<close>

text \<open>The list of a tuple: the column after the key, a single value when the column is flat.\<close>

definition cell_ids :: "ht_val overflow_heap \<Rightarrow> ht_val row \<Rightarrow> bool \<Rightarrow> nodeID list option" where
  "cell_ids heap r flat =
     (if flat then (case fst r ! 1 of Value (IdVal k) \<Rightarrow> Some [k] | _ \<Rightarrow> None)
      else (case fst r ! 1 of
              Overflow n a \<Rightarrow> foldM (\<lambda>ids x. case x of Some (IdVal k) \<Rightarrow> Some (ids @ [k]) | _ \<Rightarrow> None) [] (take n (heap ! a))
            | _ \<Rightarrow> None))"

definition fetchListsToIntersectFromTuples :: "ht_val overflow_heap \<Rightarrow> ht_val row list \<Rightarrow> bool list \<Rightarrow> nodeID list list option" where
  "fetchListsToIntersectFromTuples heap tps isFlatValue =
     foldM (\<lambda>ls i. do { ids \<leftarrow> cell_ids heap (tps ! i) (isFlatValue ! i); Some (ls @ [ids]) }) [] [0..<length tps]"

definition smallest_list :: "nodeID list list \<Rightarrow> nat" where
  "smallest_list ls =
     foldl (\<lambda>smallest i. if length (ls ! i) < length (ls ! smallest) then i else smallest) 0 [1..<length ls]"

definition swap_front :: "nat \<Rightarrow> 'a list \<Rightarrow> 'a list" where
  "swap_front k xs = (if k \<noteq> 0 then xs[k := xs ! 0, 0 := xs ! k] else xs)"

definition swapSmallestListToFront :: "nodeID list list \<Rightarrow> (nodeID list list \<times> nat list) option" where
  "swapSmallestListToFront ls =
     do { ku_assert (length ls \<ge> 2);
          let k = smallest_list ls;
          Some (swap_front k ls, swap_front k [0..<length ls]) }"

definition slice_one :: "nat \<Rightarrow> SelectionVector \<Rightarrow> SelectionVector \<Rightarrow> SelectionVector option" where
  "slice_one cap slicer sel =
     do { sel' \<leftarrow> foldM (\<lambda>sel i. do { pos \<leftarrow> sel_at cap slicer i;
                                     x \<leftarrow> sel_at cap sel pos;
                                     ku_assert (i < getCapacity sel);
                                     Some (sel\<lparr>selectedPositionsBuffer := (selectedPositionsBuffer sel)[i := x]\<rparr>) })
                    sel [0..<selectedSize slicer];
          setToFiltered_size (selectedSize slicer) sel' }"

definition sliceSelVectors :: "nat \<Rightarrow> SelectionVector list \<Rightarrow> SelectionVector \<Rightarrow> SelectionVector list option" where
  "sliceSelVectors cap sels slicer =
     foldM (\<lambda>acc sel. do { sel' \<leftarrow> slice_one cap slicer sel; Some (acc @ [sel']) }) [] sels"

definition intersect_step ::
  "nat \<Rightarrow> nodeID list list \<Rightarrow> nodeID list \<times> SelectionVector \<times> SelectionVector list \<Rightarrow> nat \<Rightarrow>
   (nodeID list \<times> SelectionVector \<times> SelectionVector list) option" where
  "intersect_step cap ls = (\<lambda>(out, lSel, sels) i.
     do { ku_assert (i + 1 < length sels);
          rSel \<leftarrow> setToUnfiltered_size (length (ls ! (i + 1))) (sels ! (i + 1));
          (out', lSel', rSel') \<leftarrow> twoWayIntersect out lSel (ls ! (i + 1)) rSel;
          sliced \<leftarrow> sliceSelVectors cap (take (i + 1) sels) lSel';
          Some (out', setToUnfiltered lSel', sliced @ rSel' # drop (i + 2) sels) })"

text \<open>The result: the data of the output vector, its selected size, and the selection vectors.\<close>

definition intersectLists ::
  "nat \<Rightarrow> nodeID list list \<Rightarrow> nodeID list \<Rightarrow> SelectionVector list \<Rightarrow> (nodeID list \<times> nat \<times> SelectionVector list) option" where
  "intersectLists cap ls outKeys sels =
     do { ku_assert (ls \<noteq> []);
          let n = length (ls ! 0);
          if n = 0 then Some (outKeys, 0, sels)
          else do { ku_assert (n \<le> cap);
                    ku_assert (sels \<noteq> []);
                    lSel \<leftarrow> setSelSize n (new_SelectionVector n);
                    sel \<leftarrow> setToUnfiltered_size n (sels ! 0);
                    (out, lSel', sels') \<leftarrow> foldM (intersect_step cap ls)
                       (ls ! 0 @ drop n outKeys, lSel, sels[0 := sel]) [0..<length ls - 1];
                    Some (out, selectedSize lSel', sels') } }"

section \<open>Payloads\<close>

text \<open>
  Reading an overflow list through a selection: the loop runs over all elements of the list and reads
  the selected position of every index, also of indices that are not selected. A position that is not
  below the number of elements is a read past the list, None here. As in the other reader, a null
  in a column that is guaranteed to have none has no defined value.
\<close>

definition readUnflatCol_sel ::
  "nat \<Rightarrow> 'v overflow_heap \<Rightarrow> FactorizedTableSchema \<Rightarrow> 'v row \<Rightarrow> SelectionVector \<Rightarrow> nat \<Rightarrow> 'v dst_vector \<Rightarrow> 'v dst_vector option" where
  "readUnflatCol_sel cap heap s r sel col v =
     (case fst r ! col of
        Overflow n a \<Rightarrow>
          do { ku_assert (isUnfiltered cap (dsel v));
               v' \<leftarrow> foldM (\<lambda>v i. do { pos \<leftarrow> sel_at cap sel i;
                                      ku_assert (pos < n);
                                      ku_assert (\<not> (hasNoNullGuarantee (columns s ! col) \<and> heap ! a ! pos = None));
                                      put_value i (heap ! a ! pos) v }) v [0..<n];
               dsel' \<leftarrow> setSelSize (selectedSize sel) (dsel v');
               Some (v'\<lparr>dsel := dsel'\<rparr>) }
      | _ \<Rightarrow> None)"

definition lookup_sel ::
  "nat \<Rightarrow> 'v overflow_heap \<Rightarrow> FactorizedTableSchema \<Rightarrow> SelectionVector \<Rightarrow> 'v row \<Rightarrow> (nat \<times> 'v dst_vector) list \<Rightarrow> 'v dst_vector list option" where
  "lookup_sel cap heap s sel r cols =
     foldM (\<lambda>vs (col, v). do { v' \<leftarrow> (if isFlat (columns s ! col) then readFlatCol cap s [r] col v
                                      else readUnflatCol_sel cap heap s r sel col v);
                               Some (vs @ [v']) }) [] cols"

text \<open>The payload columns start after the build key and the intersect key.\<close>

definition payload_columns :: "nat \<Rightarrow> nat list" where
  "payload_columns n = map (\<lambda>i. i + 2) [0..<n]"

definition populatePayloads ::
  "nat \<Rightarrow> ht_val overflow_heap \<Rightarrow> JoinHashTable list \<Rightarrow> ht_val row list \<Rightarrow> nat list \<Rightarrow> SelectionVector list \<Rightarrow>
   ht_val dst_vector list list \<Rightarrow> ht_val dst_vector list list option" where
  "populatePayloads cap heap hts tps listIdxes sels payloads =
     foldM (\<lambda>payloads i.
       do { let k = listIdxes ! i;
            vs \<leftarrow> lookup_sel cap heap (tableSchema (factorizedTable (hts ! k))) (sels ! i) (tps ! k)
                   (zip (payload_columns (length (payloads ! k))) (payloads ! k));
            Some (payloads[k := vs]) }) payloads [0..<length listIdxes]"

section \<open>The operator\<close>

text \<open>The carry \<open>-1u\<close> is None. \<open>numProbed\<close> holds the numbers of probed tuples.\<close>

fun has_next :: "nat list \<Rightarrow> nat \<Rightarrow> nat list \<Rightarrow> bool \<times> nat list \<times> nat" where
  "has_next numProbed 0 idxs =
     (let idxs' = idxs[0 := idxs ! 0 + 1] in (idxs' ! 0 \<noteq> numProbed ! 0, idxs', 0))"
| "has_next numProbed (Suc c) idxs =
     (let idxs' = idxs[Suc c := idxs ! Suc c + 1] in
      if idxs' ! Suc c = numProbed ! Suc c
      then (let (ok, idxs'', c') = has_next numProbed c (idxs'[Suc c := 0]) in
            if ok then (True, idxs'', c' + 1) else (False, idxs'', c'))
      else (True, idxs', Suc c))"

text \<open>The end of a round: the next combination and its carry, or no carry after the last one.\<close>

definition advance_tuples :: "nat list \<Rightarrow> nat \<Rightarrow> nat list \<Rightarrow> nat option \<times> nat list" where
  "advance_tuples numProbed carry idxs =
     (let (ok, idxs', carry') = has_next numProbed carry idxs in (if ok then Some carry' else None, idxs'))"

record Intersect =
  is_outKeys :: "nodeID list"
  is_outSize :: nat
  is_payloads :: "ht_val dst_vector list list"
  is_selVectors :: "SelectionVector list"
  is_probed :: "tuple_ptr list list"
  is_tupleIdx :: "nat list"
  is_carry :: "nat option"

definition intersect_init :: "nat \<Rightarrow> nat \<Rightarrow> ht_val dst_vector list list \<Rightarrow> Intersect" where
  "intersect_init cap numBuilds payloads =
     \<lparr>is_outKeys = replicate cap default_internalID, is_outSize = 0, is_payloads = payloads,
      is_selVectors = replicate numBuilds (new_SelectionVector cap), is_probed = replicate numBuilds [],
      is_tupleIdx = replicate numBuilds 0, is_carry = None\<rparr>"

definition num_to_intersect :: "tuple_ptr list list \<Rightarrow> 32 word" where
  "num_to_intersect probed = foldl (\<lambda>n ps. n * of_nat (length ps)) 1 probed"

text \<open>The outer loop reads keys until every table has a match.\<close>

fun fetch_probe :: "JoinHashTable list \<Rightarrow> nodeID list list \<Rightarrow> Intersect \<Rightarrow> (bool \<times> nodeID list list \<times> Intersect) option" where
  "fetch_probe hts [] op = Some (False, [], op)"
| "fetch_probe hts (keys # child) op =
     do { probed \<leftarrow> intersect_probeHTs hts keys;
          let op' = op\<lparr>is_probed := probed\<rparr>;
          if num_to_intersect probed = 0 then fetch_probe hts child op'
          else Some (True, child, op'\<lparr>is_carry := Some (length hts - 1), is_tupleIdx := replicate (length hts) 0\<rparr>) }"

definition intersect_tuples :: "nat \<Rightarrow> ht_val overflow_heap \<Rightarrow> JoinHashTable list \<Rightarrow> Intersect \<Rightarrow> nat \<Rightarrow> Intersect option" where
  "intersect_tuples cap heap hts op carry =
     do { tps \<leftarrow> foldM (\<lambda>tps i. do { r \<leftarrow> row_at (flatTupleBlockCollection (factorizedTable (hts ! i))) (is_probed op ! i ! (is_tupleIdx op ! i));
                                           Some (tps @ [r]) }) [] [0..<length hts];
          ls \<leftarrow> fetchListsToIntersectFromTuples heap tps
                     (map (\<lambda>ht. isFlat (columns (tableSchema (factorizedTable ht)) ! 1)) hts);
          (ls', listIdxes) \<leftarrow> swapSmallestListToFront ls;
          (out, n, sels) \<leftarrow> intersectLists cap ls' (is_outKeys op) (is_selVectors op);
          payloads \<leftarrow> (if n \<noteq> 0 then populatePayloads cap heap hts tps listIdxes sels (is_payloads op) else Some (is_payloads op));
          let (carry', idxs) = advance_tuples (map length (is_probed op)) carry (is_tupleIdx op);
          Some (op\<lparr>is_outKeys := out, is_outSize := n, is_selVectors := sels, is_payloads := payloads,
                   is_tupleIdx := idxs, is_carry := carry'\<rparr>) }"

partial_function (option) intersect_getNext ::
  "nat \<Rightarrow> ht_val overflow_heap \<Rightarrow> JoinHashTable list \<Rightarrow> nodeID list list \<Rightarrow> Intersect \<Rightarrow> (bool \<times> nodeID list list \<times> Intersect) option" where
  "intersect_getNext cap heap hts child op =
     Option.bind (if is_carry op = None then fetch_probe hts child op else Some (True, child, op)) (\<lambda>(ok, child', op').
       if \<not> ok then Some (False, child', op')
       else (case is_carry op' of
               None \<Rightarrow> None
             | Some carry \<Rightarrow> Option.bind (intersect_tuples cap heap hts op' carry) (\<lambda>op''.
                 if is_outSize op'' = 0 then intersect_getNext cap heap hts child' op''
                 else Some (True, child', op''))))"

declare intersect_getNext.simps [code]

section \<open>Properties of the loop over two lists\<close>

text \<open>What a run adds: positions in both lists of the elements they share.\<close>

definition matched :: "nodeID list \<Rightarrow> nodeID list \<Rightarrow> nat \<Rightarrow> nat \<Rightarrow> nat list \<Rightarrow> nat list \<Rightarrow> bool" where
  "matched L R l r lp rp \<longleftrightarrow> length rp = length lp \<and> map ((!) L) lp = filter (\<lambda>x. x \<in> set (drop r R)) (drop l L) \<and>
     map ((!) R) rp = map ((!) L) lp \<and> sorted_wrt (<) lp \<and> (\<forall>p\<in>set lp. l \<le> p \<and> p < length L) \<and> (\<forall>p\<in>set rp. p < length R)"

lemma sorted_drop_less: "sorted_wrt (<) xs \<Longrightarrow> r < length xs \<Longrightarrow> x < xs ! r \<Longrightarrow> x \<notin> set (drop r (xs :: nodeID list))"
proof
  assume s: "sorted_wrt (<) xs" and r: "r < length xs" "x < xs ! r" and "x \<in> set (drop r xs)"
  then obtain k where "k < length xs - r" "x = xs ! (r + k)" by (auto simp: in_set_conv_nth)
  moreover from this have "xs ! r \<le> xs ! (r + k)"
    using s by (cases k) (auto simp: sorted_wrt_iff_nth_less intro: less_imp_le)
  ultimately show False using r(2) by simp
qed

definition two_way_post ::
  "nodeID list \<Rightarrow> nodeID list \<Rightarrow> nat \<Rightarrow> nat \<Rightarrow> nat \<Rightarrow> nodeID list \<Rightarrow> nat list \<Rightarrow> nat list \<Rightarrow> nat list \<Rightarrow> nat list \<Rightarrow>
   nodeID list \<times> nat list \<times> nat list \<times> nat \<Rightarrow> bool" where
  "two_way_post L R l r out left lbuf rbuf lp rp = (\<lambda>(left', lbuf', rbuf', out'). out' = out + length lp \<and> matched L R l r lp rp \<and>
     length left' = length left \<and> length lbuf' = length lbuf \<and> length rbuf' = length rbuf \<and>
     take out' left' = take out left @ map ((!) L) lp \<and> take out' lbuf' = take out lbuf @ lp \<and> take out' rbuf' = take out rbuf @ rp)"

lemma two_way_loop_ok:
  assumes "sorted_wrt (<) L" "sorted_wrt (<) R" "out \<le> l" "out \<le> r" "length L \<le> length left" "length L \<le> length lbuf" "length R \<le> length rbuf"
    and "\<forall>i < length L. l \<le> i \<longrightarrow> left ! i = L ! i"
  shows "\<exists>lp rp. two_way_post L R l r out left lbuf rbuf lp rp (two_way_loop left (length L) R (length R) l r out lbuf rbuf)"
  using assms(3-)
proof (induction "(length L - l) + (length R - r)" arbitrary: l r out left lbuf rbuf rule: less_induct)
  case less
  note prems = less.prems
  let ?run = "two_way_loop left (length L) R (length R) l r out lbuf rbuf"
  show ?case
  proof (cases "l < length L \<and> r < length R")
    case False
    then have "filter (\<lambda>x. x \<in> set (drop r R)) (drop l L) = []" by auto
    then have "matched L R l r [] []" by (simp add: matched_def)
    moreover have "?run = (left, lbuf, rbuf, out)" by (subst two_way_loop.simps) (use False in auto)
    ultimately show ?thesis by (intro exI[of _ "[]"]) (simp add: two_way_post_def)
  next
    case True
    then have lr: "l < length L" "r < length R" by auto
    have dl: "drop l L = L ! l # drop (Suc l) L" and dr: "drop r R = R ! r # drop (Suc r) R"
      using lr by (simp_all add: Cons_nth_drop_Suc)
    have ll: "left ! l = L ! l" using prems(6) lr(1) by simp
    have d: "(length L - Suc l) + (length R - r) < (length L - l) + (length R - r)"
      "(length L - l) + (length R - Suc r) < (length L - l) + (length R - r)"
      "(length L - Suc l) + (length R - Suc r) < (length L - l) + (length R - r)" using lr by linarith+
    consider "L ! l < R ! r" | "L ! l > R ! r" | "L ! l = R ! r" by fastforce
    then show ?thesis
    proof cases
      case 1
      have run: "?run = two_way_loop left (length L) R (length R) (Suc l) r out lbuf rbuf"
        by (subst two_way_loop.simps) (use 1 lr ll in \<open>simp add: Let_def\<close>)
      obtain lp rp where ih: "two_way_post L R (Suc l) r out left lbuf rbuf lp rp (two_way_loop left (length L) R (length R) (Suc l) r out lbuf rbuf)"
        using less.hyps[OF d(1), of out left lbuf rbuf] prems by auto
      have "matched L R l r lp rp" if "matched L R (Suc l) r lp rp"
        using that sorted_drop_less[OF assms(2) lr(2) 1] by (auto simp: matched_def dl)
      with ih show ?thesis unfolding run two_way_post_def by (auto split: prod.splits)
    next
      case 2
      have run: "?run = two_way_loop left (length L) R (length R) l (Suc r) out lbuf rbuf"
        by (subst two_way_loop.simps) (use 2 order.asym[OF 2] lr ll in \<open>auto simp: Let_def\<close>)
      obtain lp rp where ih: "two_way_post L R l (Suc r) out left lbuf rbuf lp rp (two_way_loop left (length L) R (length R) l (Suc r) out lbuf rbuf)"
        using less.hyps[OF d(2), of out left lbuf rbuf] prems by auto
      have "filter (\<lambda>x. x \<in> set (drop r R)) (drop l L) = filter (\<lambda>x. x \<in> set (drop (Suc r) R)) (drop l L)"
        using sorted_drop_less[OF assms(1) lr(1) 2] by (intro filter_cong) (auto simp: dr)
      then have "matched L R l r lp rp" if "matched L R l (Suc r) lp rp" using that by (simp add: matched_def)
      with ih show ?thesis unfolding run two_way_post_def by (auto split: prod.splits)
    next
      case 3
      let ?left = "left[out := L ! l]" and ?lbuf = "lbuf[out := l]" and ?rbuf = "rbuf[out := r]"
      have run: "?run = two_way_loop ?left (length L) R (length R) (Suc l) (Suc r) (Suc out) ?lbuf ?rbuf"
        by (subst two_way_loop.simps) (use 3 lr ll in \<open>simp add: Let_def\<close>)
      obtain lp rp where ih: "two_way_post L R (Suc l) (Suc r) (Suc out) ?left ?lbuf ?rbuf lp rp
          (two_way_loop ?left (length L) R (length R) (Suc l) (Suc r) (Suc out) ?lbuf ?rbuf)"
        using less.hyps[OF d(3), of "Suc out" ?left ?lbuf ?rbuf] prems by auto
      have gt: "R ! r < x" if "x \<in> set (drop (Suc l) L)" for x
      proof -
        from that obtain i where "i < length L - Suc l" "x = L ! (Suc l + i)" by (auto simp: in_set_conv_nth)
        then show ?thesis unfolding 3[symmetric] using assms(1) by (simp add: sorted_wrt_iff_nth_less)
      qed
      have "filter (\<lambda>x. x \<in> set (drop r R)) (drop l L) = L ! l # filter (\<lambda>x. x \<in> set (drop (Suc r) R)) (drop (Suc l) L)"
        using gt 3 by (auto simp: dl dr intro!: filter_cong)
      then have m: "matched L R l r (l # lp) (r # rp)" if "matched L R (Suc l) (Suc r) lp rp"
        using that lr 3 by (auto simp: matched_def)
      have tk: "take (Suc out) (xs[out := y]) = take out xs @ [y]" if "out < length xs" for xs :: "'z list" and y
        using that by (simp add: take_Suc_conv_app_nth)
      have "out < length left" "out < length lbuf" "out < length rbuf" using prems lr by auto
      with ih m show ?thesis unfolding run two_way_post_def
        by (intro exI[of _ "l # lp"] exI[of _ "r # rp"]) (auto simp: tk split: prod.splits)
    qed
  qed
qed

lemma matched_index: "matched L R 0 0 lp rp \<Longrightarrow> i < length lp \<Longrightarrow> i \<le> lp ! i"
proof -
  assume "matched L R 0 0 lp rp" "i < length lp"
  then have s: "sorted_wrt (<) lp" by (simp add: matched_def)
  from \<open>i < length lp\<close> show "i \<le> lp ! i"
  proof (induction i)
    case (Suc i)
    then have "lp ! i < lp ! Suc i" using s by (simp add: sorted_wrt_iff_nth_less)
    with Suc show ?case by simp
  qed simp
qed

text \<open>A selection vector of full capacity and the positions it selects.\<close>

definition sel_full :: "nat \<Rightarrow> SelectionVector \<Rightarrow> bool" where
  "sel_full cap sel \<longleftrightarrow> getCapacity sel = cap \<and> selectedSize sel \<le> cap"

lemma pointee_length: "getCapacity sel = cap \<Longrightarrow> length (pointee cap sel) = cap"
  by (cases "selState sel") (auto simp: pointee_def INCREMENTAL_SELECTED_POS_def getCapacity_def)

lemma sel_at_full: "getCapacity sel = cap \<Longrightarrow> i < cap \<Longrightarrow> sel_at cap sel i = Some (pointee cap sel ! i)"
  by (simp add: sel_at_def pointee_length)

lemma slice_one_ok:
  assumes "sel_full cap sel" "\<And>i. i < length lp \<Longrightarrow> sel_at cap slicer i = Some (lp ! i)" "selectedSize slicer = length lp"
    and "\<And>i. i < length lp \<Longrightarrow> i \<le> lp ! i" "\<forall>p\<in>set lp. p < selectedSize sel" "sorted_wrt (<) lp"
  shows "\<exists>sel'. slice_one cap slicer sel = Some sel' \<and> sel_full cap sel' \<and>
    getSelectedPositions cap sel' = map ((!) (getSelectedPositions cap sel)) lp"
proof -
  let ?P = "pointee cap sel" and ?n = "length lp"
  have c: "getCapacity sel = cap" "selectedSize sel \<le> cap" using assms(1) by (auto simp: sel_full_def)
  have lp: "lp ! i < cap" if "i < ?n" for i using assms(5) nth_mem[OF that] c(2) by fastforce
  let ?I = "\<lambda>k s. getCapacity s = cap \<and> selState s = selState sel \<and> (\<forall>i < k. selectedPositionsBuffer s ! i = ?P ! (lp ! i)) \<and>
    (\<forall>i < cap. k \<le> i \<longrightarrow> pointee cap s ! i = ?P ! i)"
  have "\<exists>s. foldM (\<lambda>sel i. do { pos \<leftarrow> sel_at cap slicer i; x \<leftarrow> sel_at cap sel pos; ku_assert (i < getCapacity sel);
      Some (sel\<lparr>selectedPositionsBuffer := (selectedPositionsBuffer sel)[i := x]\<rparr>) }) sel [0..<?n] = Some s \<and> ?I ?n s"
  proof (rule foldM_upt_rule[where I = ?I])
    fix k s assume k: "k < ?n" and I: "?I k s"
    have kc: "k < cap" using assms(4)[OF k] lp[OF k] by simp
    have x: "sel_at cap s (lp ! k) = Some (?P ! (lp ! k))"
      using I assms(4)[OF k] lp[OF k] sel_at_full[of s cap "lp ! k"] by simp
    have "?I (Suc k) (s\<lparr>selectedPositionsBuffer := (selectedPositionsBuffer s)[k := ?P ! (lp ! k)]\<rparr>)"
      using I kc by (cases "selState sel") (auto simp: getCapacity_def pointee_def nth_list_update less_Suc_eq)
    then show "\<exists>s'. do { pos \<leftarrow> sel_at cap slicer k; x \<leftarrow> sel_at cap s pos; ku_assert (k < getCapacity s);
        Some (s\<lparr>selectedPositionsBuffer := (selectedPositionsBuffer s)[k := x]\<rparr>) } = Some s' \<and> ?I (Suc k) s'"
      using x assms(2)[OF k] I kc by simp
  qed (use c in auto)
  then obtain s where s: "foldM (\<lambda>sel i. do { pos \<leftarrow> sel_at cap slicer i; x \<leftarrow> sel_at cap sel pos; ku_assert (i < getCapacity sel);
      Some (sel\<lparr>selectedPositionsBuffer := (selectedPositionsBuffer sel)[i := x]\<rparr>) }) sel [0..<?n] = Some s" "?I ?n s" by blast
  have n: "?n \<le> cap"
  proof (cases "?n = 0")
    case False
    then show ?thesis using assms(4)[of "?n - 1"] lp[of "?n - 1"] by simp
  qed simp
  let ?r = "(setToFiltered s)\<lparr>selectedSize := ?n\<rparr>"
  have "slice_one cap slicer sel = Some ?r" using s n by (simp add: slice_one_def assms(3) setToFiltered_size_def)
  moreover have "sel_full cap ?r" using s(2) n by (simp add: sel_full_def setToFiltered_def getCapacity_def)
  moreover have "getSelectedPositions cap ?r = map ((!) (getSelectedPositions cap sel)) lp"
    using s(2) n assms(5) by (intro nth_equalityI) (auto simp: getSelectedPositions_def setToFiltered_def pointee_def getCapacity_def)
  ultimately show ?thesis by blast
qed

lemma sliceSelVectors_ok:
  assumes "\<forall>sel\<in>set sels. sel_full cap sel \<and> (\<forall>p\<in>set lp. p < selectedSize sel)"
    "\<And>i. i < length lp \<Longrightarrow> sel_at cap slicer i = Some (lp ! i)" "selectedSize slicer = length lp"
    and "\<And>i. i < length lp \<Longrightarrow> i \<le> lp ! i" "sorted_wrt (<) lp"
  shows "\<exists>sels'. sliceSelVectors cap sels slicer = Some sels' \<and> list_all2 (\<lambda>sel sel'. sel_full cap sel' \<and>
    getSelectedPositions cap sel' = map ((!) (getSelectedPositions cap sel)) lp) sels sels'"
  unfolding sliceSelVectors_def
proof (rule foldM_rule[where I = "\<lambda>pre acc. list_all2 (\<lambda>sel sel'. sel_full cap sel' \<and>
    getSelectedPositions cap sel' = map ((!) (getSelectedPositions cap sel)) lp) pre acc"])
  fix pre sel rest acc assume x: "sels = pre @ sel # rest" and I: "list_all2 (\<lambda>sel sel'. sel_full cap sel' \<and>
    getSelectedPositions cap sel' = map ((!) (getSelectedPositions cap sel)) lp) pre acc"
  from x slice_one_ok[of cap sel lp slicer, OF _ assms(2,3,4)] assms(1,5) obtain sel' where
    "slice_one cap slicer sel = Some sel'" "sel_full cap sel'" "getSelectedPositions cap sel' = map ((!) (getSelectedPositions cap sel)) lp" by auto
  with I show "\<exists>acc'. do { sel' \<leftarrow> slice_one cap slicer sel; Some (acc @ [sel']) } = Some acc' \<and> list_all2 (\<lambda>sel sel'. sel_full cap sel' \<and>
    getSelectedPositions cap sel' = map ((!) (getSelectedPositions cap sel)) lp) (pre @ [sel]) acc'" by (auto intro: list_all2_appendI)
qed simp

lemma twoWayIntersect_ok:
  assumes "sorted_wrt (<) L" "sorted_wrt (<) R" "take (length L) out = L" "selectedSize lSel = length L" "length L \<le> getCapacity lSel"
    "selectedSize rSel = length R" "length R \<le> getCapacity rSel" "length L \<le> length R"
  shows "\<exists>out' lSel' rSel' lp rp. twoWayIntersect out lSel R rSel = Some (out', lSel', rSel') \<and> matched L R 0 0 lp rp \<and>
    take (length lp) out' = map ((!) L) lp \<and> length out' = length out \<and>
    selState lSel' = DYNAMIC \<and> selectedSize lSel' = length lp \<and> getCapacity lSel' = getCapacity lSel \<and> take (length lp) (selectedPositionsBuffer lSel') = lp \<and>
    selState rSel' = DYNAMIC \<and> selectedSize rSel' = length rp \<and> getCapacity rSel' = getCapacity rSel \<and> take (length rp) (selectedPositionsBuffer rSel') = rp"
proof -
  have len: "length L \<le> length out" using assms(3) by (metis length_take min.cobounded1)
  have nth: "\<forall>i < length L. 0 \<le> i \<longrightarrow> out ! i = L ! i" using assms(3) by (metis nth_take)
  let ?lbuf = "selectedPositionsBuffer lSel" and ?rbuf = "selectedPositionsBuffer rSel"
  have bufs: "length L \<le> length ?lbuf" "length R \<le> length ?rbuf" using assms(5,7) by (simp_all add: getCapacity_def)
  obtain lp rp where p: "two_way_post L R 0 0 0 out ?lbuf ?rbuf lp rp (two_way_loop out (length L) R (length R) 0 0 0 ?lbuf ?rbuf)"
    using two_way_loop_ok[OF assms(1,2) le_refl le_refl len bufs nth] by blast
  obtain out' lbuf rbuf k where run: "two_way_loop out (length L) R (length R) 0 0 0 ?lbuf ?rbuf = (out', lbuf, rbuf, k)" by (metis prod_cases4)
  have r: "two_way_loop out (length L) R (length R) 0 0 0 ?lbuf ?rbuf = (out', lbuf, rbuf, length lp)"
    "matched L R 0 0 lp rp" "length out' = length out" "length lbuf = getCapacity lSel" "length rbuf = getCapacity rSel"
    "take (length lp) out' = map ((!) L) lp" "take (length lp) lbuf = lp" "take (length lp) rbuf = rp"
    using p run unfolding run two_way_post_def by (auto simp: getCapacity_def)
  have "length (map ((!) L) lp) \<le> length (drop 0 L)" using r(2) unfolding matched_def by (metis length_filter_le)
  then have "length lp \<le> length L" by simp
  moreover have "length rp = length lp" using r(2) by (simp add: matched_def)
  ultimately show ?thesis using r assms(4-8) len
    by (intro exI[of _ out'] exI[of _ "lSel\<lparr>selectedPositionsBuffer := lbuf, selState := DYNAMIC, selectedSize := length lp\<rparr>"]
        exI[of _ "rSel\<lparr>selectedPositionsBuffer := rbuf, selState := DYNAMIC, selectedSize := length lp\<rparr>"] exI[of _ lp] exI[of _ rp])
       (simp add: twoWayIntersect_def setToFiltered_size_def setToFiltered_def getCapacity_def)
qed

text \<open>The elements of the first list that are in the next \<open>i\<close> lists.\<close>

definition common :: "nodeID list list \<Rightarrow> nat \<Rightarrow> nodeID list" where
  "common ls i = filter (\<lambda>x. \<forall>j\<in>{1..i}. x \<in> set (ls ! j)) (ls ! 0)"

lemma common_0 [simp]: "common ls 0 = ls ! 0"
  by (simp add: common_def)

lemma common_Suc: "common ls (Suc i) = filter (\<lambda>x. x \<in> set (ls ! Suc i)) (common ls i)"
proof -
  have "{1..Suc i} = insert (Suc i) {1..i}" by auto
  then show ?thesis unfolding common_def filter_filter by (auto intro!: filter_cong)
qed

lemma common_length: "length (common ls i) \<le> length (ls ! 0)"
  by (simp add: common_def)

text \<open>The selected positions of a list are those of the current result.\<close>

definition selects :: "nat \<Rightarrow> nodeID list \<Rightarrow> nodeID list \<Rightarrow> SelectionVector \<Rightarrow> bool" where
  "selects cap l cur sel \<longleftrightarrow> (\<forall>p\<in>set (getSelectedPositions cap sel). p < length l) \<and> map ((!) l) (getSelectedPositions cap sel) = cur"

definition intersect_inv :: "nat \<Rightarrow> nodeID list list \<Rightarrow> nat \<Rightarrow> nodeID list \<times> SelectionVector \<times> SelectionVector list \<Rightarrow> bool" where
  "intersect_inv cap ls i = (\<lambda>(out, lSel, sels). take (length (common ls i)) out = common ls i \<and>
     selectedSize lSel = length (common ls i) \<and> getCapacity lSel = length (ls ! 0) \<and> length sels = length ls \<and>
     (\<forall>sel\<in>set sels. sel_full cap sel) \<and> (\<forall>j \<le> i. selects cap (ls ! j) (common ls i) (sels ! j)))"

lemma selects_size: "selects cap l cur sel \<Longrightarrow> sel_full cap sel \<Longrightarrow> selectedSize sel = length cur"
  by (auto simp: selects_def getSelectedPositions_def sel_full_def pointee_length dest!: arg_cong[where f = length])

lemma selects_slice:
  assumes "selects cap l cur sel" "getSelectedPositions cap sel' = map ((!) (getSelectedPositions cap sel)) lp" "\<forall>p\<in>set lp. p < length cur"
  shows "selects cap l (map ((!) cur) lp) sel'"
proof -
  let ?P = "getSelectedPositions cap sel"
  have len: "length ?P = length cur" using assms(1) by (metis length_map selects_def)
  have "p < length l" if "p \<in> set (map ((!) ?P) lp)" for p using that assms(1,3) len by (auto simp: selects_def)
  moreover have "map ((!) l) (map ((!) ?P) lp) = map ((!) cur) lp"
    using assms(1,3) len unfolding selects_def by (auto intro!: nth_equalityI)
  ultimately show ?thesis unfolding selects_def assms(2) by blast
qed

lemma intersect_step_ok:
  assumes sorted: "\<forall>l\<in>set ls. sorted_wrt (<) l \<and> length l \<le> cap" and small: "\<forall>l\<in>set ls. length (ls ! 0) \<le> length l"
    and i: "i + 1 < length ls" and inv: "intersect_inv cap ls i st"
  shows "\<exists>st'. intersect_step cap ls st i = Some st' \<and> intersect_inv cap ls (Suc i) st'"
proof -
  obtain out lSel sels where st: "st = (out, lSel, sels)" by (cases st)
  let ?L = "common ls i" and ?R = "ls ! Suc i"
  have I: "take (length ?L) out = ?L" "selectedSize lSel = length ?L" "getCapacity lSel = length (ls ! 0)" "length sels = length ls"
    "\<forall>sel\<in>set sels. sel_full cap sel" "\<forall>j \<le> i. selects cap (ls ! j) ?L (sels ! j)"
    using inv by (auto simp: st intersect_inv_def)
  have R: "sorted_wrt (<) ?R" "length ?R \<le> cap" "length (ls ! 0) \<le> length ?R" using sorted small i by auto
  have "ls ! 0 \<in> set ls" using i by (intro nth_mem) linarith
  then have L: "sorted_wrt (<) ?L" "length ?L \<le> length (ls ! 0)"
    using sorted by (auto simp: common_def intro!: sorted_wrt_filter)
  have full: "sel_full cap (sels ! Suc i)" using I(4,5) i by simp
  let ?rSel = "(sels ! Suc i)\<lparr>selectedSize := length ?R, selState := STATIC\<rparr>"
  have rs: "setToUnfiltered_size (length ?R) (sels ! Suc i) = Some ?rSel" "getCapacity ?rSel = cap"
    using full R(2) by (simp_all add: setToUnfiltered_size_def sel_full_def getCapacity_def)
  from twoWayIntersect_ok[OF L(1) R(1) I(1,2), of ?rSel] I(3) L(2) R rs(2) obtain out' lSel' rSel' lp rp where
    t: "twoWayIntersect out lSel ?R ?rSel = Some (out', lSel', rSel')" "matched ?L ?R 0 0 lp rp" "take (length lp) out' = map ((!) ?L) lp"
    "selState lSel' = DYNAMIC" "selectedSize lSel' = length lp" "getCapacity lSel' = length (ls ! 0)" "take (length lp) (selectedPositionsBuffer lSel') = lp"
    "selState rSel' = DYNAMIC" "selectedSize rSel' = length rp" "getCapacity rSel' = cap" "take (length rp) (selectedPositionsBuffer rSel') = rp" by auto
  have m: "map ((!) ?L) lp = common ls (Suc i)" "map ((!) ?R) rp = common ls (Suc i)" "sorted_wrt (<) lp" "\<forall>p\<in>set lp. p < length ?L" "\<forall>p\<in>set rp. p < length ?R"
    using t(2) unfolding matched_def common_Suc by auto
  have len: "length (common ls (Suc i)) = length lp" "length rp = length lp" "length lp \<le> length (ls ! 0)"
    using m(1,2) common_length[of ls "Suc i"] by (metis length_map)+
  have sl: "sel_at cap lSel' k = Some (lp ! k)" if "k < length lp" for k
  proof -
    have "selectedPositionsBuffer lSel' ! k = lp ! k" using t(7) that by (metis nth_take)
    then show ?thesis using that t(4,6) len(3) by (simp add: sel_at_def pointee_def getCapacity_def)
  qed
  have "selectedSize (sels ! j) = length ?L" if "j \<le> i" for j using selects_size I(4-6) that i by auto
  then have pre: "\<forall>sel\<in>set (take (Suc i) sels). sel_full cap sel \<and> (\<forall>p\<in>set lp. p < selectedSize sel)"
    using I(4,5) m(4) i by (fastforce simp: in_set_conv_nth[of _ "take (Suc i) sels"])
  obtain sliced where s: "sliceSelVectors cap (take (Suc i) sels) lSel' = Some sliced"
    "list_all2 (\<lambda>sel sel'. sel_full cap sel' \<and> getSelectedPositions cap sel' = map ((!) (getSelectedPositions cap sel)) lp) (take (Suc i) sels) sliced"
    using sliceSelVectors_ok[OF pre sl t(5) matched_index[OF t(2)] m(3)] by blast
  let ?sels = "sliced @ rSel' # drop (Suc (Suc i)) sels"
  have slen: "length sliced = Suc i" using list_all2_lengthD[OF s(2)] I(4) i by simp
  have sfull: "sel_full cap rSel'" using t(9,10) len R(2,3) by (simp add: sel_full_def)
  have rpos: "getSelectedPositions cap rSel' = rp" using t(8,9,11) by (simp add: getSelectedPositions_def pointee_def)
  have "selects cap (ls ! j) (common ls (Suc i)) (?sels ! j)" if "j \<le> Suc i" for j
  proof (cases "j = Suc i")
    case True
    then show ?thesis using slen rpos m(2,5) by (simp add: selects_def nth_append)
  next
    case False
    then have j: "j \<le> i" using that by simp
    then have "getSelectedPositions cap (sliced ! j) = map ((!) (getSelectedPositions cap (sels ! j))) lp"
      using s(2) I(4) i by (auto simp: list_all2_conv_all_nth)
    from selects_slice[OF I(6)[rule_format, OF j] this m(4)] show ?thesis using j slen m(1) by (simp add: nth_append)
  qed
  moreover have "\<forall>sel\<in>set sliced. sel_full cap sel"
    using s(2) slen I(4) i by (auto simp: list_all2_conv_all_nth in_set_conv_nth)
  then have "\<forall>sel\<in>set ?sels. sel_full cap sel" using sfull I(5) by (auto dest: in_set_dropD)
  moreover have "length ?sels = length ls" using slen I(4) i by simp
  ultimately have "intersect_inv cap ls (Suc i) (out', setToUnfiltered lSel', ?sels)"
    using t(3,5,6) m(1) len by (simp add: intersect_inv_def setToUnfiltered_def getCapacity_def)
  moreover have "intersect_step cap ls st i = Some (out', setToUnfiltered lSel', ?sels)"
    using rs(1) t(1) s(1) i I(4) by (simp add: st intersect_step_def)
  ultimately show ?thesis by blast
qed

lemma intersectLists_ok:
  assumes "ls \<noteq> []" "\<forall>l\<in>set ls. sorted_wrt (<) l \<and> length l \<le> cap" "\<forall>l\<in>set ls. length (ls ! 0) \<le> length l"
    and "length sels = length ls" "\<forall>sel\<in>set sels. sel_full cap sel" "ls ! 0 \<noteq> []"
  shows "\<exists>out sels'. intersectLists cap ls outKeys sels = Some (out, length (common ls (length ls - 1)), sels') \<and>
    take (length (common ls (length ls - 1))) out = common ls (length ls - 1) \<and>
    length sels' = length ls \<and> (\<forall>sel\<in>set sels'. sel_full cap sel) \<and>
    (\<forall>j < length ls. selects cap (ls ! j) (common ls (length ls - 1)) (sels' ! j))"
proof -
  let ?n = "length (ls ! 0)" and ?k = "length ls - 1"
  have ls0: "?n \<le> cap" "0 < length ls" using assms(1,2) by auto
  let ?sel = "(sels ! 0)\<lparr>selectedSize := ?n, selState := STATIC\<rparr>" and ?l = "(new_SelectionVector ?n)\<lparr>selectedSize := ?n\<rparr>"
  have ne: "sels \<noteq> []" using ls0(2) assms(4) by (cases sels) simp_all
  then have s0: "sel_full cap (sels ! 0)" "sels \<noteq> []" using assms(5) by simp_all
  have sets: "setToUnfiltered_size ?n (sels ! 0) = Some ?sel" "setSelSize ?n (new_SelectionVector ?n) = Some ?l" "getCapacity ?l = ?n"
    using s0 ls0 by (simp_all add: setToUnfiltered_size_def setSelSize_def sel_full_def getCapacity_def new_SelectionVector_def setToUnfiltered_def)
  have full: "sel_full cap ?sel" using s0(1) ls0 by (simp add: sel_full_def getCapacity_def)
  have pos: "getSelectedPositions cap ?sel = [0..<?n]"
    using ls0 by (simp add: getSelectedPositions_def pointee_def INCREMENTAL_SELECTED_POS_def)
  have "map ((!) (ls ! 0)) [0..<?n] = ls ! 0" by (rule map_nth)
  then have "selects cap (ls ! 0) (ls ! 0) ?sel" unfolding selects_def pos by simp
  moreover have "\<forall>sel\<in>set (sels[0 := ?sel]). sel_full cap sel" using assms(5) full by (auto dest: set_update_subset_insert[THEN subsetD])
  ultimately have "intersect_inv cap ls 0 (ls ! 0 @ drop ?n outKeys, ?l, sels[0 := ?sel])"
    using sets(3) assms(1,4) by (simp add: intersect_inv_def)
  then have "\<exists>st. foldM (intersect_step cap ls) (ls ! 0 @ drop ?n outKeys, ?l, sels[0 := ?sel]) [0..<?k] = Some st \<and> intersect_inv cap ls ?k st"
    using intersect_step_ok[OF assms(2,3)] by (intro foldM_upt_rule[where I = "intersect_inv cap ls"]) auto
  then obtain out lSel sels' where f: "foldM (intersect_step cap ls) (ls ! 0 @ drop ?n outKeys, ?l, sels[0 := ?sel]) [0..<?k] = Some (out, lSel, sels')"
    "intersect_inv cap ls ?k (out, lSel, sels')" by auto
  then have "intersectLists cap ls outKeys sels = Some (out, length (common ls ?k), sels')"
    using sets assms(1,6) s0(2) ls0 by (simp add: intersectLists_def intersect_inv_def)
  with f(2) ls0(2) show ?thesis by (auto simp: intersect_inv_def)
qed

section \<open>The smallest list and the order of the tuples\<close>

lemma smallest_list_ok:
  assumes "ls \<noteq> []"
  shows "smallest_list ls < length ls \<and> (\<forall>i < length ls. length (ls ! smallest_list ls) \<le> length (ls ! i))"
proof -
  have "foldl (\<lambda>s i. if length (ls ! i) < length (ls ! s) then i else s) 0 [1..<length ls] < length ls \<and>
      (\<forall>i < length ls. length (ls ! foldl (\<lambda>s i. if length (ls ! i) < length (ls ! s) then i else s) 0 [1..<length ls]) \<le> length (ls ! i))"
  proof (rule foldl_upt_rule[where I = "\<lambda>k s. s < length ls \<and> (\<forall>i < k. length (ls ! s) \<le> length (ls ! i))"])
    show "1 \<le> length ls" using assms by (cases ls) auto
  qed (use assms in \<open>auto simp: less_Suc_eq\<close>)
  then show ?thesis by (simp add: smallest_list_def)
qed

lemma swap_front_perm: "k < length xs \<Longrightarrow> mset (swap_front k xs) = mset xs"
proof -
  assume k: "k < length xs"
  then have "0 < length xs" by linarith
  from mset_swap[OF this k] show ?thesis by (simp add: swap_front_def)
qed

lemma swap_front_nth: "k < length xs \<Longrightarrow> swap_front k xs ! 0 = xs ! k"
  by (cases xs; cases k) (auto simp: swap_front_def)

lemma swapSmallest_ok:
  assumes "2 \<le> length ls"
  shows "\<exists>ls' idxs. swapSmallestListToFront ls = Some (ls', idxs) \<and> mset ls' = mset ls \<and> (\<forall>l\<in>set ls'. length (ls' ! 0) \<le> length l) \<and>
    mset idxs = mset [0..<length ls] \<and> ls' = map ((!) ls) idxs"
proof -
  let ?k = "smallest_list ls"
  have k: "?k < length ls" "\<forall>i < length ls. length (ls ! ?k) \<le> length (ls ! i)" using smallest_list_ok[of ls] assms by (metis list.size(3) not_numeral_le_zero)+
  have m: "mset (swap_front ?k ls) = mset ls" by (rule swap_front_perm[OF k(1)])
  have "0 < length ls" using k(1) by linarith
  then have "[0..<length ls] ! 0 = 0" using nth_upt[of 0 0 "length ls"] by simp
  then have "swap_front ?k ls = map ((!) ls) (swap_front ?k [0..<length ls])"
    using k(1) by (auto simp: swap_front_def map_update map_nth)
  moreover have "\<forall>l\<in>set (swap_front ?k ls). length (swap_front ?k ls ! 0) \<le> length l"
    unfolding swap_front_nth[OF k(1)] mset_eq_setD[OF m] using k(2) by (auto simp: in_set_conv_nth)
  moreover have "swapSmallestListToFront ls = Some (swap_front ?k ls, swap_front ?k [0..<length ls])"
    using assms by (simp add: swapSmallestListToFront_def Let_def)
  moreover have "mset (swap_front ?k [0..<length ls]) = mset [0..<length ls]" using k(1) by (intro swap_front_perm) simp
  ultimately show ?thesis using m by blast
qed

lemma intersect_smallest_ok:
  assumes "2 \<le> length ls" "\<forall>l\<in>set ls. sorted_wrt (<) l \<and> length l \<le> cap" "length sels = length ls" "\<forall>sel\<in>set sels. sel_full cap sel"
  shows "\<exists>ls' idxs out n sels'. swapSmallestListToFront ls = Some (ls', idxs) \<and> intersectLists cap ls' outKeys sels = Some (out, n, sels') \<and>
    sorted_wrt (<) (take n out) \<and> set (take n out) = (\<Inter>l\<in>set ls. set l) \<and> mset idxs = mset [0..<length ls] \<and>
    (\<forall>j < length ls. n \<noteq> 0 \<longrightarrow> map ((!) (ls ! (idxs ! j))) (getSelectedPositions cap (sels' ! j)) = take n out)"
proof -
  from swapSmallest_ok[OF assms(1)] obtain ls' idxs where s: "swapSmallestListToFront ls = Some (ls', idxs)" "mset ls' = mset ls"
    "\<forall>l\<in>set ls'. length (ls' ! 0) \<le> length l" "mset idxs = mset [0..<length ls]" "ls' = map ((!) ls) idxs" by blast
  have eq: "set ls' = set ls" "length ls' = length ls" using s(2) by (auto dest: mset_eq_setD mset_eq_length)
  have l0: "ls' \<noteq> []" "ls' ! 0 \<in> set ls'" using eq(2) assms(1) by (auto intro!: nth_mem)
  show ?thesis
  proof (cases "ls' ! 0 = []")
    case True
    then have "intersectLists cap ls' outKeys sels = Some (outKeys, 0, sels)" using l0(1) by (simp add: intersectLists_def)
    moreover have "(\<Inter>l\<in>set ls. set l) = {}" using True l0(2) eq(1) by auto
    ultimately show ?thesis using s(1,4) by auto
  next
    case False
    let ?C = "common ls' (length ls' - 1)"
    from intersectLists_ok[OF l0(1) _ s(3) _ assms(4) False, of outKeys] assms(2,3) eq obtain out sels' where
      i: "intersectLists cap ls' outKeys sels = Some (out, length ?C, sels')" "take (length ?C) out = ?C"
      "\<forall>j < length ls'. selects cap (ls' ! j) ?C (sels' ! j)" by auto
    have "set ?C = (\<Inter>l\<in>set ls'. set l)"
    proof -
      have "set ?C = {x \<in> set (ls' ! 0). \<forall>j\<in>{1..length ls' - 1}. x \<in> set (ls' ! j)}" by (simp add: common_def)
      also have "\<dots> = {x. \<forall>j < length ls'. x \<in> set (ls' ! j)}"
      proof -
        have "(x \<in> set (ls' ! 0) \<and> (\<forall>j\<in>{1..length ls' - 1}. x \<in> set (ls' ! j))) \<longleftrightarrow> (\<forall>j < length ls'. x \<in> set (ls' ! j))" for x
        proof
          assume a: "x \<in> set (ls' ! 0) \<and> (\<forall>j\<in>{1..length ls' - 1}. x \<in> set (ls' ! j))"
          show "\<forall>j < length ls'. x \<in> set (ls' ! j)"
          proof (intro allI impI)
            fix j assume "j < length ls'"
            with a show "x \<in> set (ls' ! j)" by (cases "j = 0") auto
          qed
        qed (use l0(1) in auto)
        then show ?thesis by auto
      qed
      also have "\<dots> = {x. \<forall>l\<in>set ls'. x \<in> set l}" by (simp add: all_set_conv_all_nth)
      also have "\<dots> = (\<Inter>l\<in>set ls'. set l)" by auto
      finally show ?thesis .
    qed
    moreover have "sorted_wrt (<) ?C" using assms(2) l0(2) eq(1) unfolding common_def by (intro sorted_wrt_filter) auto
    moreover have "map ((!) (ls ! (idxs ! j))) (getSelectedPositions cap (sels' ! j)) = ?C" if "j < length ls" for j
    proof -
      have "ls' ! j = ls ! (idxs ! j)" using s(5) that eq(2) by (metis length_map nth_map)
      then show ?thesis using i(3) that eq(2) unfolding selects_def by metis
    qed
    ultimately show ?thesis using s(1,4) i(1,2) eq(1) by metis
  qed
qed

section \<open>The order of the tuples\<close>

text \<open>The rank of the first \<open>c + 1\<close> indices and the number of their combinations.\<close>

fun rank :: "nat list \<Rightarrow> nat \<Rightarrow> nat list \<Rightarrow> nat" where
  "rank ns 0 idxs = idxs ! 0"
| "rank ns (Suc c) idxs = rank ns c idxs * ns ! Suc c + idxs ! Suc c"

fun combinations :: "nat list \<Rightarrow> nat \<Rightarrow> nat" where
  "combinations ns 0 = ns ! 0"
| "combinations ns (Suc c) = combinations ns c * ns ! Suc c"

definition in_range :: "nat list \<Rightarrow> nat \<Rightarrow> nat list \<Rightarrow> bool" where
  "in_range ns c idxs \<longleftrightarrow> (\<forall>j \<le> c. idxs ! j < ns ! j)"

lemma rank_cong: "(\<And>j. j \<le> c \<Longrightarrow> idxs ! j = idxs' ! j) \<Longrightarrow> rank ns c idxs = rank ns c idxs'"
  by (induction c) auto

lemma rank_less: "in_range ns c idxs \<Longrightarrow> rank ns c idxs + 1 \<le> combinations ns c"
proof (induction c)
  case (Suc c)
  then have "rank ns c idxs + 1 \<le> combinations ns c" "idxs ! Suc c < ns ! Suc c" by (auto simp: in_range_def)
  then have "(rank ns c idxs + 1) * ns ! Suc c \<le> combinations ns c * ns ! Suc c" by (intro mult_le_mono1)
  with \<open>idxs ! Suc c < ns ! Suc c\<close> show ?case by simp
qed (auto simp: in_range_def)

lemma rank_inj: "in_range ns c a \<Longrightarrow> in_range ns c b \<Longrightarrow> rank ns c a = rank ns c b \<Longrightarrow> j \<le> c \<Longrightarrow> a ! j = b ! j"
proof (induction c arbitrary: j)
  case (Suc c)
  have n: "a ! Suc c < ns ! Suc c" "b ! Suc c < ns ! Suc c" "in_range ns c a" "in_range ns c b" using Suc.prems by (auto simp: in_range_def)
  have eq: "rank ns c a * ns ! Suc c + a ! Suc c = rank ns c b * ns ! Suc c + b ! Suc c" using Suc.prems(3) by simp
  have "(rank ns c a * ns ! Suc c + a ! Suc c) mod ns ! Suc c = a ! Suc c" "(rank ns c b * ns ! Suc c + b ! Suc c) mod ns ! Suc c = b ! Suc c"
    using n by simp_all
  with eq have last: "a ! Suc c = b ! Suc c" by simp
  with eq n(1) have "rank ns c a = rank ns c b" by simp
  with Suc.IH[OF n(3,4)] last Suc.prems(4) show ?case by (auto simp: le_Suc_eq)
qed simp

lemma has_next_ok:
  assumes "in_range ns c idxs" "c < length idxs"
  shows "\<exists>ok idxs' c'. has_next ns c idxs = (ok, idxs', c') \<and> length idxs' = length idxs \<and> (\<forall>j > c. idxs' ! j = idxs ! j) \<and>
    (ok \<longleftrightarrow> rank ns c idxs + 1 < combinations ns c) \<and> (ok \<longrightarrow> c' = c \<and> in_range ns c idxs' \<and> rank ns c idxs' = rank ns c idxs + 1)"
  using assms
proof (induction c arbitrary: idxs)
  case 0
  then show ?case by (auto simp: in_range_def Let_def nth_list_update)
next
  case (Suc c)
  let ?u = "idxs[Suc c := idxs ! Suc c + 1]" and ?n = "ns ! Suc c"
  have lt: "idxs ! Suc c < ?n" "in_range ns c idxs" using Suc.prems(1) by (auto simp: in_range_def)
  show ?case
  proof (cases "idxs ! Suc c + 1 = ?n")
    case False
    have r: "rank ns c ?u = rank ns c idxs" by (rule rank_cong) auto
    have "(rank ns c idxs + 1) * ?n \<le> combinations ns c * ?n" using rank_less[OF lt(2)] by (intro mult_le_mono1)
    with False lt Suc.prems r show ?thesis by (auto simp: Let_def in_range_def nth_list_update)
  next
    case True
    let ?w = "?u[Suc c := 0]"
    have w: "in_range ns c ?w" "c < length ?w" "rank ns c ?w = rank ns c idxs"
      using lt(2) Suc.prems(2) by (auto simp: in_range_def nth_list_update intro!: rank_cong)
    from Suc.IH[OF w(1,2)] obtain ok idxs' c' where h: "has_next ns c ?w = (ok, idxs', c')" "length idxs' = length idxs"
      "\<forall>j > c. idxs' ! j = ?w ! j" "ok \<longleftrightarrow> rank ns c idxs + 1 < combinations ns c"
      "ok \<longrightarrow> c' = c \<and> in_range ns c idxs' \<and> rank ns c idxs' = rank ns c idxs + 1" unfolding w(3) by auto
    have iff: "rank ns c idxs * ?n + idxs ! Suc c + 1 < combinations ns c * ?n \<longleftrightarrow> rank ns c idxs + 1 < combinations ns c"
    proof -
      have "rank ns c idxs * ?n + idxs ! Suc c + 1 = (rank ns c idxs + 1) * ?n" using True by (simp add: algebra_simps)
      then show ?thesis using lt(1) by (simp del: mult_Suc)
    qed
    have z: "idxs' ! Suc c = 0" using h(3) Suc.prems(2) by simp
    have "rank ns (Suc c) idxs' = rank ns (Suc c) idxs + 1" "in_range ns (Suc c) idxs'" if ok
      using h(5) z that True lt(1) by (auto simp: in_range_def le_Suc_eq algebra_simps)
    moreover have "\<forall>j > Suc c. idxs' ! j = idxs ! j" using h(3) by auto
    ultimately show ?thesis using h(1,2,4,5) True iff Suc.prems(2) by (cases ok) (auto simp: Let_def)
  qed
qed

text \<open>The carry and the indices after \<open>k\<close> rounds from the first combination.\<close>

definition next_round :: "nat list \<Rightarrow> nat option \<times> nat list \<Rightarrow> nat option \<times> nat list" where
  "next_round ns = (\<lambda>(carry, idxs). case carry of None \<Rightarrow> (None, idxs) | Some c \<Rightarrow> advance_tuples ns c idxs)"

definition nth_round :: "nat list \<Rightarrow> nat \<Rightarrow> nat option \<times> nat list" where
  "nth_round ns k = (next_round ns ^^ k) (Some (length ns - 1), replicate (length ns) 0)"

lemma combinations_prod: "c < length ns \<Longrightarrow> combinations ns c = prod_list (take (Suc c) ns)"
proof (induction c)
  case 0
  then show ?case by (cases ns) auto
next
  case (Suc c)
  then show ?case by (simp add: take_Suc_conv_app_nth)
qed

lemma combinations_all: "ns \<noteq> [] \<Longrightarrow> combinations ns (length ns - 1) = prod_list ns"
  by (subst combinations_prod) (cases ns, auto)+

lemma nth_round_ok:
  assumes "ns \<noteq> []" "\<forall>n\<in>set ns. 0 < n" "k < prod_list ns"
  shows "\<exists>idxs. nth_round ns k = (Some (length ns - 1), idxs) \<and> length idxs = length ns \<and> in_range ns (length ns - 1) idxs \<and>
    rank ns (length ns - 1) idxs = k"
  using assms(3)
proof (induction k)
  case 0
  have "rank ns c (replicate (length ns) 0) = 0" if "c < length ns" for c using that by (induction c) auto
  moreover have "length ns - 1 < length ns" using assms(1) by (cases ns) auto
  ultimately show ?case using assms(2) by (auto simp: nth_round_def in_range_def)
next
  case (Suc k)
  then obtain idxs where ih: "nth_round ns k = (Some (length ns - 1), idxs)" "length idxs = length ns" "in_range ns (length ns - 1) idxs"
    "rank ns (length ns - 1) idxs = k" by auto
  have "length ns - 1 < length idxs" using assms(1) ih(2) by (cases ns) auto
  from has_next_ok[OF ih(3) this] Suc.prems ih(2,4) combinations_all[OF assms(1)] obtain idxs' where
    "has_next ns (length ns - 1) idxs = (True, idxs', length ns - 1)" "length idxs' = length ns" "in_range ns (length ns - 1) idxs'"
    "rank ns (length ns - 1) idxs' = k + 1" by auto
  with ih(1) show ?case by (simp add: nth_round_def next_round_def advance_tuples_def)
qed

lemma nth_round_end:
  assumes "ns \<noteq> []" "\<forall>n\<in>set ns. 0 < n"
  shows "fst (nth_round ns (prod_list ns)) = None"
proof -
  have "0 < prod_list ns" using assms(2) by (induction ns) auto
  then obtain k where k: "prod_list ns = Suc k" by (cases "prod_list ns") auto
  from nth_round_ok[OF assms, of k] k obtain idxs where n: "nth_round ns k = (Some (length ns - 1), idxs)" "length idxs = length ns"
    "in_range ns (length ns - 1) idxs" "rank ns (length ns - 1) idxs = k" by auto
  have "length ns - 1 < length idxs" using assms(1) n(2) by (cases ns) auto
  from has_next_ok[OF n(3) this] n(4) k combinations_all[OF assms(1)] obtain idxs' c' where
    "has_next ns (length ns - 1) idxs = (False, idxs', c')" by auto
  with n(1) k show ?thesis by (simp add: nth_round_def next_round_def advance_tuples_def)
qed

lemma enumeration_ok:
  assumes "ns \<noteq> []" "\<forall>n\<in>set ns. 0 < n"
  shows "(\<lambda>k. snd (nth_round ns k)) ` {..<prod_list ns} = {idxs. length idxs = length ns \<and> (\<forall>j < length ns. idxs ! j < ns ! j)}"
    and "inj_on (\<lambda>k. snd (nth_round ns k)) {..<prod_list ns}"
proof -
  let ?c = "length ns - 1" and ?t = "\<lambda>k. snd (nth_round ns k)"
  have c: "j < length ns \<longleftrightarrow> j \<le> ?c" for j using assms(1) by (cases ns) auto
  have rng: "in_range ns ?c idxs \<longleftrightarrow> (\<forall>j < length ns. idxs ! j < ns ! j)" for idxs by (simp add: in_range_def c)
  have ok: "length (?t k) = length ns \<and> in_range ns ?c (?t k) \<and> rank ns ?c (?t k) = k" if "k < prod_list ns" for k
    using nth_round_ok[OF assms that] by auto
  have "idxs = ?t (rank ns ?c idxs)" "rank ns ?c idxs < prod_list ns" if "length idxs = length ns" "in_range ns ?c idxs" for idxs
  proof -
    show lt: "rank ns ?c idxs < prod_list ns" using rank_less[OF that(2)] combinations_all[OF assms(1)] by simp
    show "idxs = ?t (rank ns ?c idxs)"
      using rank_inj[OF that(2), of "?t (rank ns ?c idxs)"] ok[OF lt] that(1) c by (intro nth_equalityI) auto
  qed
  then show "?t ` {..<prod_list ns} = {idxs. length idxs = length ns \<and> (\<forall>j < length ns. idxs ! j < ns ! j)}"
    using ok unfolding rng[symmetric] by blast
  show "inj_on ?t {..<prod_list ns}" using ok by (intro inj_onI) (metis lessThan_iff)
qed

text \<open>The product of the numbers of tuples is computed in 32 bits.\<close>

lemma num_to_intersect_prod: "num_to_intersect probed = of_nat (prod_list (map length probed))"
proof -
  have "foldl (\<lambda>n ps. n * of_nat (length ps)) (of_nat m) probed = (of_nat (m * prod_list (map length probed)) :: 32 word)" for m
    by (induction probed arbitrary: m) (simp_all flip: of_nat_mult add: mult.assoc)
  from this[of 1] show ?thesis by (simp add: num_to_intersect_def)
qed

lemma num_to_intersect_zero: "num_to_intersect probed = 0 \<longleftrightarrow> 2 ^ 32 dvd prod_list (map length probed)"
  unfolding num_to_intersect_prod by (simp only: word_of_nat_eq_0_iff) simp

text \<open>Probing collects the tuples with the key, the newest first.\<close>

lemma probeHT_ok:
  assumes "built ht" "keyed ht"
  shows "probeHT ht k = Some (key_matches ht k)"
proof -
  let ?f = "\<lambda>p found. if ptr_key ht p = k then found @ [p] else found"
  have num: "ft_numTuples (factorizedTable ht) = num_rows ht" using assms(2) by (simp add: keyed_def hashed_def merged_ok_def)
  have body: "collect_tuple ht k p found = Some (?f p found)" if "p \<in> set (bucket ht (Hash_internalID k))" for p found
  proof -
    from bucket_ptrs[OF that] obtain i where i: "i < num_rows ht" "p = tptr (factorizedTable ht) i" by blast
    have "tuple_key (trows (factorizedTable ht) ! i) = Some (row_key (trows (factorizedTable ht) ! i))"
      using assms(2) i(1) by (auto simp: keyed_def tuple_key_def)
    with keyed_row[OF assms(2) i(1)] show ?thesis unfolding i(2) by (simp add: collect_tuple_def)
  qed
  have fold: "fold ?f ps found = found @ filter (\<lambda>p. ptr_key ht p = k) ps" for ps found by (induction ps arbitrary: found) auto
  from jht.walk[where run = "collect_tuples ht k" and h = "Hash_internalID k" and s = "[]", OF collect_tuples.simps body assms(1)]
  obtain p where "getTupleForHash ht (Hash_internalID k) = Some p" "collect_tuples ht k p [] = Some (key_matches ht k)"
    unfolding fold bucket_matches[OF assms(2)] by auto
  moreover have "key_matches ht k = []" if "num_rows ht = 0" using that by (simp add: key_matches_def)
  ultimately show ?thesis by (auto simp: probeHT_def num)
qed

section \<open>Properties\<close>

text \<open>
  C16: On strictly ascending neighbour lists that fit a vector, the operator computes their intersection:
  the output vector holds it in ascending order, and the selection vector of every list selects the
  positions of the output in that list, so that payloads are read for the right neighbours.
\<close>

theorem intersect_lists_correct:
  assumes "2 \<le> length ls" "\<forall>l\<in>set ls. sorted_wrt (<) l \<and> length l \<le> cap" "length sels = length ls" "\<forall>sel\<in>set sels. sel_full cap sel"
  shows "\<exists>ls' idxs out n sels'. swapSmallestListToFront ls = Some (ls', idxs) \<and> intersectLists cap ls' outKeys sels = Some (out, n, sels') \<and>
    sorted_wrt (<) (take n out) \<and> set (take n out) = (\<Inter>l\<in>set ls. set l) \<and> mset idxs = mset [0..<length ls] \<and>
    (\<forall>j < length ls. n \<noteq> 0 \<longrightarrow> map ((!) (ls ! (idxs ! j))) (getSelectedPositions cap (sels' ! j)) = take n out)"
  by (rule intersect_smallest_ok[OF assms])

definition ex_ids :: "64 word list \<Rightarrow> nodeID list" where
  "ex_ids ns = map (\<lambda>n. InternalID n 0) ns"

theorem intersect_lists_correct_witness:
  "\<exists>ls' idxs out sels'. swapSmallestListToFront [ex_ids [1, 2, 3, 4, 5], ex_ids [2, 4, 6]] = Some (ls', idxs) \<and>
    intersectLists 8 ls' [] (replicate 2 (new_SelectionVector 8)) = Some (out, 2, sels') \<and>
    sorted_wrt (<) (take 2 out) \<and> set (take 2 out) = set (ex_ids [2, 4])"
proof -
  let ?ls = "[ex_ids [1, 2, 3, 4, 5], ex_ids [2, 4, 6]]"
  have p: "\<forall>l\<in>set ?ls. sorted_wrt (<) l \<and> length l \<le> 8" "\<forall>sel\<in>set (replicate 2 (new_SelectionVector 8)). sel_full 8 sel" by code_simp+
  have i: "(\<Inter>l\<in>set ?ls. set l) = set (ex_ids [2, 4])" by code_simp
  have n: "Option.bind (swapSmallestListToFront ?ls) (\<lambda>(ls', idxs). map_option (\<lambda>r. fst (snd r))
      (intersectLists 8 ls' [] (replicate 2 (new_SelectionVector 8)))) = Some 2" by code_simp
  from intersect_lists_correct[OF _ p(1) _ p(2), of "[]"] n show ?thesis unfolding i by fastforce
qed

text \<open>
  C17: From the first combination on, with the carry each round leaves for the next, the rounds of the
  operator go through every combination of the probed tuples exactly once, and after the last one no
  carry is left. The operator starts them when the number of combinations is not a multiple of
  two to the power of 32: the number is computed in 32 bits, and where it wraps around to zero the
  operator skips all combinations as if a table had no match.
\<close>

theorem tuple_combinations_enumerated:
  assumes "intersect_probeHTs hts keys = Some probed" "length probed = length hts" "hts \<noteq> []"
  shows "fetch_probe hts (keys # child) op =
      (if 2 ^ 32 dvd prod_list (map length probed) then fetch_probe hts child (op\<lparr>is_probed := probed\<rparr>)
       else Some (True, child, op\<lparr>is_probed := probed, is_carry := fst (nth_round (map length probed) 0),
              is_tupleIdx := snd (nth_round (map length probed) 0)\<rparr>)) \<and>
    ([] \<notin> set probed \<longrightarrow>
      (\<forall>k < prod_list (map length probed). fst (nth_round (map length probed) k) \<noteq> None) \<and>
      fst (nth_round (map length probed) (prod_list (map length probed))) = None \<and>
      (\<lambda>k. snd (nth_round (map length probed) k)) ` {..<prod_list (map length probed)} =
        {idxs. length idxs = length hts \<and> (\<forall>j < length hts. idxs ! j < length (probed ! j))} \<and>
      inj_on (\<lambda>k. snd (nth_round (map length probed) k)) {..<prod_list (map length probed)})"
proof (intro conjI impI)
  let ?ns = "map length probed"
  show "fetch_probe hts (keys # child) op = (if 2 ^ 32 dvd prod_list ?ns then fetch_probe hts child (op\<lparr>is_probed := probed\<rparr>)
       else Some (True, child, op\<lparr>is_probed := probed, is_carry := fst (nth_round ?ns 0), is_tupleIdx := snd (nth_round ?ns 0)\<rparr>))"
    using assms by (simp only: fetch_probe.simps num_to_intersect_zero Let_def) (simp add: nth_round_def)
  assume "[] \<notin> set probed"
  then have ns: "?ns \<noteq> []" "\<forall>n\<in>set ?ns. 0 < n" using assms(2,3) by auto
  show "\<forall>k < prod_list ?ns. fst (nth_round ?ns k) \<noteq> None" using nth_round_ok[OF ns] by fastforce
  show "fst (nth_round ?ns (prod_list ?ns)) = None" by (rule nth_round_end[OF ns])
  show "(\<lambda>k. snd (nth_round ?ns k)) ` {..<prod_list ?ns} = {idxs. length idxs = length hts \<and> (\<forall>j < length hts. idxs ! j < length (probed ! j))}"
    using enumeration_ok(1)[OF ns] assms(2) by auto
  show "inj_on (\<lambda>k. snd (nth_round ?ns k)) {..<prod_list ?ns}" by (rule enumeration_ok(2)[OF ns])
qed

theorem tuple_combinations_enumerated_witness:
  "\<exists>probed. intersect_probeHTs [ex_final, ex_final] [InternalID 9 1, InternalID 9 1] = Some probed \<and>
     fst (nth_round (map length probed) (prod_list (map length probed))) = None \<and>
     inj_on (\<lambda>k. snd (nth_round (map length probed) k)) {..<prod_list (map length probed)}"
proof -
  have "map_option (\<lambda>probed. length probed = 2 \<and> [] \<notin> set probed) (intersect_probeHTs [ex_final, ex_final] [InternalID 9 1, InternalID 9 1]) = Some True"
    by code_simp
  then obtain probed where p: "intersect_probeHTs [ex_final, ex_final] [InternalID 9 1, InternalID 9 1] = Some probed"
    "length probed = length [ex_final, ex_final]" "[] \<notin> set probed" by auto
  from tuple_combinations_enumerated[OF p(1,2), of "[]" "intersect_init 4 2 []"] p show ?thesis by auto
qed

text \<open>
  C33: The reader of an unflat payload column runs over all elements of the list, not over the selected
  positions. The positions behind the selected ones are left over from an earlier, longer list, so the
  reader leaves the list. Here the second intersection selects position 0 of a list of two elements
  and the reader asks for the element at position 4.
\<close>

theorem payload_read_out_of_list:
  "\<exists>out sels out' sels'.
    intersectLists 8 [ex_ids [4, 5], ex_ids [1, 2, 3, 4, 5]] [] (replicate 2 (new_SelectionVector 8)) = Some (out, 2, sels) \<and>
    intersectLists 8 [ex_ids [1], ex_ids [1, 2]] out sels = Some (out', 1, sels') \<and>
    getSelectedPositions 8 (sels' ! 1) = [0] \<and> sel_at 8 (sels' ! 1) 1 = Some 4 \<and>
    readUnflatCol_sel 8 [[Some 7, Some (9 :: nat)]] ht_schema ([Value 0, Overflow 2 0, Value 0, Value 0], replicate 4 False) (sels' ! 1) 1
      \<lparr>dflat = False, dsel = new_SelectionVector 8, dvals = replicate 8 None\<rparr> = None"
proof -
  let ?run = "do { (out, n, sels) \<leftarrow> intersectLists 8 [ex_ids [4, 5], ex_ids [1, 2, 3, 4, 5]] [] (replicate 2 (new_SelectionVector 8));
    ku_assert (n = 2); (out', n', sels') \<leftarrow> intersectLists 8 [ex_ids [1], ex_ids [1, 2]] out sels; ku_assert (n' = 1);
    Some (getSelectedPositions 8 (sels' ! 1) = [0] \<and> sel_at 8 (sels' ! 1) 1 = Some 4 \<and>
      readUnflatCol_sel 8 [[Some 7, Some (9 :: nat)]] ht_schema ([Value 0, Overflow 2 0, Value 0, Value 0], replicate 4 False) (sels' ! 1) 1
      \<lparr>dflat = False, dsel = new_SelectionVector 8, dvals = replicate 8 None\<rparr> = None) }"
  have "?run = Some True" by code_simp
  then show ?thesis by (auto split: Option.bind_splits)
qed

end
