(* ===== verification/DateTypes.thy ===== *)
theory DateTypes
  imports Prelude "HOL-Library.Word" "HOL-Library.Signed_Division"
begin

text \<open>
  Dates (\<open>common/types/date_t.cpp\<close>, \<open>date_t.h\<close>).

  A date is the number of days since 1970-01-01. Fields of 32 and 64 bits are integers; where the code
  adds to a field, an overflow of the signed type is undefined behaviour and None here (\<open>i32\<close>,
  \<open>i64\<close>). Division and remainder truncate towards zero, which is \<open>sdiv\<close> and \<open>smod\<close>; a test
  whether a remainder is zero does not depend on that. A \<open>ConversionException\<close> is None as well.
\<close>

section \<open>Machine integers\<close>

definition i32 :: "int \<Rightarrow> int option" where
  "i32 x = (if - 2147483648 \<le> x \<and> x \<le> 2147483647 then Some x else None)"

definition i64 :: "int \<Rightarrow> int option" where
  "i64 x = (if - 9223372036854775808 \<le> x \<and> x \<le> 9223372036854775807 then Some x else None)"

section \<open>Tables\<close>

definition NORMAL_DAYS :: "int list" where
  "NORMAL_DAYS = [
     0, 31, 28, 31, 30, 31, 30, 31, 31, 30, 31, 30, 31]"

definition LEAP_DAYS :: "int list" where
  "LEAP_DAYS = [
     0, 31, 29, 31, 30, 31, 30, 31, 31, 30, 31, 30, 31]"

definition CUMULATIVE_LEAP_DAYS :: "int list" where
  "CUMULATIVE_LEAP_DAYS = [
     0, 31, 60, 91, 121, 152, 182, 213, 244, 274, 305, 335, 366]"

definition CUMULATIVE_DAYS :: "int list" where
  "CUMULATIVE_DAYS = [
     0, 31, 59, 90, 120, 151, 181, 212, 243, 273, 304, 334, 365]"

definition MONTH_PER_DAY_OF_YEAR :: "int list" where
  "MONTH_PER_DAY_OF_YEAR = [
     1, 1, 1, 1, 1, 1, 1, 1, 1, 1, 1, 1, 1, 1, 1, 1, 1, 1, 1, 1, 1, 1, 1, 1, 1, 1, 1, 1, 1, 1, 1, 2, 2, 2, 2, 2, 2, 2,
     2, 2, 2, 2, 2, 2, 2, 2, 2, 2, 2, 2, 2, 2, 2, 2, 2, 2, 2, 2, 2, 3, 3, 3, 3, 3, 3, 3, 3, 3, 3, 3, 3, 3, 3, 3, 3, 3,
     3, 3, 3, 3, 3, 3, 3, 3, 3, 3, 3, 3, 3, 3, 4, 4, 4, 4, 4, 4, 4, 4, 4, 4, 4, 4, 4, 4, 4, 4, 4, 4, 4, 4, 4, 4, 4, 4,
     4, 4, 4, 4, 4, 4, 5, 5, 5, 5, 5, 5, 5, 5, 5, 5, 5, 5, 5, 5, 5, 5, 5, 5, 5, 5, 5, 5, 5, 5, 5, 5, 5, 5, 5, 5, 5, 6,
     6, 6, 6, 6, 6, 6, 6, 6, 6, 6, 6, 6, 6, 6, 6, 6, 6, 6, 6, 6, 6, 6, 6, 6, 6, 6, 6, 6, 6, 7, 7, 7, 7, 7, 7, 7, 7, 7,
     7, 7, 7, 7, 7, 7, 7, 7, 7, 7, 7, 7, 7, 7, 7, 7, 7, 7, 7, 7, 7, 7, 8, 8, 8, 8, 8, 8, 8, 8, 8, 8, 8, 8, 8, 8, 8, 8,
     8, 8, 8, 8, 8, 8, 8, 8, 8, 8, 8, 8, 8, 8, 8, 9, 9, 9, 9, 9, 9, 9, 9, 9, 9, 9, 9, 9, 9, 9, 9, 9, 9, 9, 9, 9, 9, 9,
     9, 9, 9, 9, 9, 9, 9, 10, 10, 10, 10, 10, 10, 10, 10, 10, 10, 10, 10, 10, 10, 10, 10, 10, 10, 10, 10, 10, 10, 10,
     10, 10, 10, 10, 10, 10, 10, 10, 11, 11, 11, 11, 11, 11, 11, 11, 11, 11, 11, 11, 11, 11, 11, 11, 11, 11, 11, 11,
     11, 11, 11, 11, 11, 11, 11, 11, 11, 11, 12, 12, 12, 12, 12, 12, 12, 12, 12, 12, 12, 12, 12, 12, 12, 12, 12, 12,
     12, 12, 12, 12, 12, 12, 12, 12, 12, 12, 12, 12, 12]"

definition LEAP_MONTH_PER_DAY_OF_YEAR :: "int list" where
  "LEAP_MONTH_PER_DAY_OF_YEAR = [
     1, 1, 1, 1, 1, 1, 1, 1, 1, 1, 1, 1, 1, 1, 1, 1, 1, 1, 1, 1, 1, 1, 1, 1, 1, 1, 1, 1, 1, 1, 1, 2, 2, 2, 2, 2, 2, 2,
     2, 2, 2, 2, 2, 2, 2, 2, 2, 2, 2, 2, 2, 2, 2, 2, 2, 2, 2, 2, 2, 2, 3, 3, 3, 3, 3, 3, 3, 3, 3, 3, 3, 3, 3, 3, 3, 3,
     3, 3, 3, 3, 3, 3, 3, 3, 3, 3, 3, 3, 3, 3, 3, 4, 4, 4, 4, 4, 4, 4, 4, 4, 4, 4, 4, 4, 4, 4, 4, 4, 4, 4, 4, 4, 4, 4,
     4, 4, 4, 4, 4, 4, 4, 5, 5, 5, 5, 5, 5, 5, 5, 5, 5, 5, 5, 5, 5, 5, 5, 5, 5, 5, 5, 5, 5, 5, 5, 5, 5, 5, 5, 5, 5, 5,
     6, 6, 6, 6, 6, 6, 6, 6, 6, 6, 6, 6, 6, 6, 6, 6, 6, 6, 6, 6, 6, 6, 6, 6, 6, 6, 6, 6, 6, 6, 7, 7, 7, 7, 7, 7, 7, 7,
     7, 7, 7, 7, 7, 7, 7, 7, 7, 7, 7, 7, 7, 7, 7, 7, 7, 7, 7, 7, 7, 7, 7, 8, 8, 8, 8, 8, 8, 8, 8, 8, 8, 8, 8, 8, 8, 8,
     8, 8, 8, 8, 8, 8, 8, 8, 8, 8, 8, 8, 8, 8, 8, 8, 9, 9, 9, 9, 9, 9, 9, 9, 9, 9, 9, 9, 9, 9, 9, 9, 9, 9, 9, 9, 9, 9,
     9, 9, 9, 9, 9, 9, 9, 9, 10, 10, 10, 10, 10, 10, 10, 10, 10, 10, 10, 10, 10, 10, 10, 10, 10, 10, 10, 10, 10, 10,
     10, 10, 10, 10, 10, 10, 10, 10, 10, 11, 11, 11, 11, 11, 11, 11, 11, 11, 11, 11, 11, 11, 11, 11, 11, 11, 11, 11,
     11, 11, 11, 11, 11, 11, 11, 11, 11, 11, 11, 12, 12, 12, 12, 12, 12, 12, 12, 12, 12, 12, 12, 12, 12, 12, 12, 12,
     12, 12, 12, 12, 12, 12, 12, 12, 12, 12, 12, 12, 12, 12]"

definition CUMULATIVE_YEAR_DAYS :: "int list" where
  "CUMULATIVE_YEAR_DAYS = [
     0, 365, 730, 1096, 1461, 1826, 2191, 2557, 2922, 3287, 3652, 4018, 4383, 4748, 5113, 5479, 5844, 6209, 6574, 6940,
     7305, 7670, 8035, 8401, 8766, 9131, 9496, 9862, 10227, 10592, 10957, 11323, 11688, 12053, 12418, 12784, 13149,
     13514, 13879, 14245, 14610, 14975, 15340, 15706, 16071, 16436, 16801, 17167, 17532, 17897, 18262, 18628, 18993,
     19358, 19723, 20089, 20454, 20819, 21184, 21550, 21915, 22280, 22645, 23011, 23376, 23741, 24106, 24472, 24837,
     25202, 25567, 25933, 26298, 26663, 27028, 27394, 27759, 28124, 28489, 28855, 29220, 29585, 29950, 30316, 30681,
     31046, 31411, 31777, 32142, 32507, 32872, 33238, 33603, 33968, 34333, 34699, 35064, 35429, 35794, 36160, 36525,
     36890, 37255, 37621, 37986, 38351, 38716, 39082, 39447, 39812, 40177, 40543, 40908, 41273, 41638, 42004, 42369,
     42734, 43099, 43465, 43830, 44195, 44560, 44926, 45291, 45656, 46021, 46387, 46752, 47117, 47482, 47847, 48212,
     48577, 48942, 49308, 49673, 50038, 50403, 50769, 51134, 51499, 51864, 52230, 52595, 52960, 53325, 53691, 54056,
     54421, 54786, 55152, 55517, 55882, 56247, 56613, 56978, 57343, 57708, 58074, 58439, 58804, 59169, 59535, 59900,
     60265, 60630, 60996, 61361, 61726, 62091, 62457, 62822, 63187, 63552, 63918, 64283, 64648, 65013, 65379, 65744,
     66109, 66474, 66840, 67205, 67570, 67935, 68301, 68666, 69031, 69396, 69762, 70127, 70492, 70857, 71223, 71588,
     71953, 72318, 72684, 73049, 73414, 73779, 74145, 74510, 74875, 75240, 75606, 75971, 76336, 76701, 77067, 77432,
     77797, 78162, 78528, 78893, 79258, 79623, 79989, 80354, 80719, 81084, 81450, 81815, 82180, 82545, 82911, 83276,
     83641, 84006, 84371, 84736, 85101, 85466, 85832, 86197, 86562, 86927, 87293, 87658, 88023, 88388, 88754, 89119,
     89484, 89849, 90215, 90580, 90945, 91310, 91676, 92041, 92406, 92771, 93137, 93502, 93867, 94232, 94598, 94963,
     95328, 95693, 96059, 96424, 96789, 97154, 97520, 97885, 98250, 98615, 98981, 99346, 99711, 100076, 100442, 100807,
     101172, 101537, 101903, 102268, 102633, 102998, 103364, 103729, 104094, 104459, 104825, 105190, 105555, 105920,
     106286, 106651, 107016, 107381, 107747, 108112, 108477, 108842, 109208, 109573, 109938, 110303, 110669, 111034,
     111399, 111764, 112130, 112495, 112860, 113225, 113591, 113956, 114321, 114686, 115052, 115417, 115782, 116147,
     116513, 116878, 117243, 117608, 117974, 118339, 118704, 119069, 119435, 119800, 120165, 120530, 120895, 121260,
     121625, 121990, 122356, 122721, 123086, 123451, 123817, 124182, 124547, 124912, 125278, 125643, 126008, 126373,
     126739, 127104, 127469, 127834, 128200, 128565, 128930, 129295, 129661, 130026, 130391, 130756, 131122, 131487,
     131852, 132217, 132583, 132948, 133313, 133678, 134044, 134409, 134774, 135139, 135505, 135870, 136235, 136600,
     136966, 137331, 137696, 138061, 138427, 138792, 139157, 139522, 139888, 140253, 140618, 140983, 141349, 141714,
     142079, 142444, 142810, 143175, 143540, 143905, 144271, 144636, 145001, 145366, 145732, 146097]"

definition MIN_YEAR :: int where "MIN_YEAR = -290307"

definition MAX_YEAR :: int where "MAX_YEAR = 294247"

definition EPOCH_YEAR :: int where "EPOCH_YEAR = 1970"

definition YEAR_INTERVAL :: int where "YEAR_INTERVAL = 400"

definition DAYS_PER_YEAR_INTERVAL :: int where "DAYS_PER_YEAR_INTERVAL = 146097"

lemmas date_constants = MIN_YEAR_def MAX_YEAR_def EPOCH_YEAR_def YEAR_INTERVAL_def DAYS_PER_YEAR_INTERVAL_def

section \<open>Years, months and days\<close>

definition isLeapYear :: "int \<Rightarrow> bool" where
  "isLeapYear year = (year smod 4 = 0 \<and> (year smod 100 \<noteq> 0 \<or> year smod 400 = 0))"

definition isValid :: "int \<Rightarrow> int \<Rightarrow> int \<Rightarrow> bool" where
  "isValid year month day =
     (if month < 1 \<or> month > 12 then False
      else if year < MIN_YEAR \<or> year > MAX_YEAR then False
      else if day < 1 then False
      else if isLeapYear year then day \<le> LEAP_DAYS ! nat month else day \<le> NORMAL_DAYS ! nat month)"

definition monthDays :: "int \<Rightarrow> int \<Rightarrow> int option" where
  "monthDays year month =
     do { ku_assert (month \<ge> 1 \<and> month \<le> 12);
          Some (if isLeapYear year then LEAP_DAYS ! nat month else NORMAL_DAYS ! nat month) }"

text \<open>The two loops that move a day number into the first interval of 400 years.\<close>

function shift_up :: "int \<Rightarrow> int \<Rightarrow> int \<times> int" where
  "shift_up n year = (if n < 0 then shift_up (n + DAYS_PER_YEAR_INTERVAL) (year - YEAR_INTERVAL) else (n, year))"
  by pat_completeness auto

termination
  by (relation "measure (\<lambda>(n, year). nat (- n))") (auto simp: date_constants)

function shift_down :: "int \<Rightarrow> int \<Rightarrow> int \<times> int" where
  "shift_down n year =
     (if n \<ge> DAYS_PER_YEAR_INTERVAL then shift_down (n - DAYS_PER_YEAR_INTERVAL) (year + YEAR_INTERVAL) else (n, year))"
  by pat_completeness auto

termination
  by (relation "measure (\<lambda>(n, year). nat n)") (auto simp: date_constants)

declare shift_up.simps [simp del] shift_down.simps [simp del]

fun search_year :: "int \<Rightarrow> nat \<Rightarrow> nat option" where
  "search_year n 0 = (if n < CUMULATIVE_YEAR_DAYS ! 0 then None else Some 0)"
| "search_year n (Suc k) = (if n < CUMULATIVE_YEAR_DAYS ! Suc k then search_year n k else Some (Suc k))"

definition extractYearOffset :: "int \<Rightarrow> (int \<times> int \<times> nat) option" where
  "extractYearOffset days =
     do { let (n, year) = (let (n, year) = shift_up days EPOCH_YEAR in shift_down n year);
          year_offset \<leftarrow> search_year n (nat (n sdiv 365));
          ku_assert (n \<ge> CUMULATIVE_YEAR_DAYS ! year_offset);
          Some (n, year + int year_offset, year_offset) }"

definition convert :: "int \<Rightarrow> (int \<times> int \<times> int) option" where
  "convert date =
     do { (n, year, year_offset) \<leftarrow> extractYearOffset date;
          let d = n - CUMULATIVE_YEAR_DAYS ! year_offset;
          ku_assert (d \<ge> 0 \<and> d \<le> 365);
          let is_leap_year = (CUMULATIVE_YEAR_DAYS ! (year_offset + 1) - CUMULATIVE_YEAR_DAYS ! year_offset = 366);
          ku_assert (is_leap_year \<or> d < 365);
          let month = (if is_leap_year then LEAP_MONTH_PER_DAY_OF_YEAR ! nat d else MONTH_PER_DAY_OF_YEAR ! nat d);
          let day = d - (if is_leap_year then CUMULATIVE_LEAP_DAYS ! nat (month - 1) else CUMULATIVE_DAYS ! nat (month - 1)) + 1;
          ku_assert (day > 0 \<and> day \<le> (if is_leap_year then LEAP_DAYS ! nat month else NORMAL_DAYS ! nat month));
          ku_assert (month > 0 \<and> month \<le> 12);
          ku_assert (isValid year month day);
          Some (year, month, day) }"

function year_up :: "int \<Rightarrow> int \<Rightarrow> int \<times> int" where
  "year_up year n = (if year < 1970 then year_up (year + YEAR_INTERVAL) (n - DAYS_PER_YEAR_INTERVAL) else (year, n))"
  by pat_completeness auto

termination
  by (relation "measure (\<lambda>(year, n). nat (1970 - year))") (auto simp: date_constants)

function year_down :: "int \<Rightarrow> int \<Rightarrow> int \<times> int" where
  "year_down year n = (if year \<ge> 2370 then year_down (year - YEAR_INTERVAL) (n + DAYS_PER_YEAR_INTERVAL) else (year, n))"
  by pat_completeness auto

termination
  by (relation "measure (\<lambda>(year, n). nat year)") (auto simp: date_constants)

declare year_up.simps [simp del] year_down.simps [simp del]

definition fromDate :: "int \<Rightarrow> int \<Rightarrow> int \<Rightarrow> int option" where
  "fromDate year month day =
     do { ku_assert (isValid year month day);
          let (y, n) = (let (y, n) = year_up year 0 in year_down y n);
          Some (n + CUMULATIVE_YEAR_DAYS ! nat (y - 1970) +
                (if isLeapYear y then CUMULATIVE_LEAP_DAYS ! nat (month - 1) else CUMULATIVE_DAYS ! nat (month - 1)) +
                (day - 1)) }"

section \<open>The tables\<close>

text \<open>What the tables hold, evaluated once over all their entries.\<close>

fun year_table_ok :: "nat \<Rightarrow> int \<Rightarrow> int list \<Rightarrow> bool" where
  "year_table_ok i y (a # b # ts) = (365 * int i \<le> a \<and> b - a = (if isLeapYear y then 366 else 365) \<and> year_table_ok (Suc i) (y + 1) (b # ts))"
| "year_table_ok i y ts = (ts = [146097])"

text \<open>Every day of the year is in the month its entry names.\<close>

fun day_entries_ok :: "int list \<Rightarrow> int \<Rightarrow> int list \<Rightarrow> bool" where
  "day_entries_ok cumulative d [] = True"
| "day_entries_ok cumulative d (m # ms) =
     (1 \<le> m \<and> m \<le> 12 \<and> cumulative ! nat (m - 1) \<le> d \<and> d < cumulative ! nat m \<and> day_entries_ok cumulative (d + 1) ms)"

definition month_table_ok :: "int list \<Rightarrow> int list \<Rightarrow> int list \<Rightarrow> bool" where
  "month_table_ok days cumulative months \<longleftrightarrow> day_entries_ok cumulative 0 months \<and> int (length months) = cumulative ! 12 \<and>
     sorted cumulative \<and> length cumulative = 13 \<and> cumulative ! 0 = 0 \<and>
     list_all (\<lambda>m. cumulative ! Suc m - cumulative ! m = days ! Suc m) [0..<12]"

lemma table_facts:
  "year_table_ok 0 1970 CUMULATIVE_YEAR_DAYS" "length CUMULATIVE_YEAR_DAYS = 401" "CUMULATIVE_YEAR_DAYS ! 0 = 0"
  by code_simp+

lemma month_facts:
  "month_table_ok NORMAL_DAYS CUMULATIVE_DAYS MONTH_PER_DAY_OF_YEAR"
  "month_table_ok LEAP_DAYS CUMULATIVE_LEAP_DAYS LEAP_MONTH_PER_DAY_OF_YEAR"
  "CUMULATIVE_DAYS ! 12 = 365" "CUMULATIVE_LEAP_DAYS ! 12 = 366"
  by code_simp+

lemma year_table_nth:
  "year_table_ok i y ts \<Longrightarrow> Suc k < length ts \<Longrightarrow>
   365 * int (i + k) \<le> ts ! k \<and> ts ! Suc k - ts ! k = (if isLeapYear (y + int k) then 366 else 365)"
proof (induction i y ts arbitrary: k rule: year_table_ok.induct)
  case (1 i y a b ts)
  show ?case
  proof (cases k)
    case (Suc j)
    have "year_table_ok (Suc i) (y + 1) (b # ts)" using 1(2) by simp
    from 1(1)[OF this, of j] 1(3) Suc have "365 * int (Suc i + j) \<le> (b # ts) ! j"
      "(b # ts) ! Suc j - (b # ts) ! j = (if isLeapYear (y + 1 + int j) then 366 else 365)" by simp_all
    moreover have "y + 1 + int j = y + int k" "Suc i + j = i + k" using Suc by simp_all
    ultimately show ?thesis unfolding Suc by (simp only: nth_Cons_Suc)
  qed (use 1 in auto)
qed auto

lemma year_table_last: "year_table_ok i y ts \<Longrightarrow> ts \<noteq> [] \<and> last ts = 146097"
  by (induction i y ts rule: year_table_ok.induct) auto

lemma year_days:
  "k < 400 \<Longrightarrow> CUMULATIVE_YEAR_DAYS ! Suc k - CUMULATIVE_YEAR_DAYS ! k = (if isLeapYear (1970 + int k) then 366 else 365)"
  "k < 400 \<Longrightarrow> 365 * int k \<le> CUMULATIVE_YEAR_DAYS ! k" "CUMULATIVE_YEAR_DAYS ! 400 = 146097"
proof -
  show "CUMULATIVE_YEAR_DAYS ! Suc k - CUMULATIVE_YEAR_DAYS ! k = (if isLeapYear (1970 + int k) then 366 else 365)"
    "365 * int k \<le> CUMULATIVE_YEAR_DAYS ! k" if "k < 400"
    using year_table_nth[OF table_facts(1), of k] that table_facts(2) by simp_all
  have "last CUMULATIVE_YEAR_DAYS = CUMULATIVE_YEAR_DAYS ! 400" using table_facts(2) by (subst last_conv_nth) auto
  then show "CUMULATIVE_YEAR_DAYS ! 400 = 146097" using year_table_last[OF table_facts(1)] by simp
qed

lemma year_mono: "i \<le> j \<Longrightarrow> j \<le> 400 \<Longrightarrow> CUMULATIVE_YEAR_DAYS ! i \<le> CUMULATIVE_YEAR_DAYS ! j"
proof (induction j)
  case (Suc j)
  then have "CUMULATIVE_YEAR_DAYS ! j \<le> CUMULATIVE_YEAR_DAYS ! Suc j" using year_days(1)[of j] by (simp split: if_splits)
  with Suc show ?case by (cases "i = Suc j") auto
qed simp

lemma day_entries_nth:
  "day_entries_ok c d ms \<Longrightarrow> k < length ms \<Longrightarrow>
   1 \<le> ms ! k \<and> ms ! k \<le> 12 \<and> c ! nat (ms ! k - 1) \<le> d + int k \<and> d + int k < c ! nat (ms ! k)"
proof (induction c d ms arbitrary: k rule: day_entries_ok.induct)
  case (2 c d m ms)
  then show ?case by (cases k) (auto simp: algebra_simps)
qed simp

lemma month_of_day:
  assumes "month_table_ok days c ms" "0 \<le> d" "d < c ! 12"
  shows "1 \<le> ms ! nat d" "ms ! nat d \<le> 12" "c ! nat (ms ! nat d - 1) \<le> d" "d < c ! nat (ms ! nat d)"
  using day_entries_nth[of c 0 ms "nat d"] assms by (auto simp: month_table_ok_def)

lemma month_days_diff:
  assumes "month_table_ok days c ms" "1 \<le> m" "m \<le> 12"
  shows "c ! nat m = c ! nat (m - 1) + days ! nat m"
proof -
  have "nat (m - 1) < 12" "nat m = Suc (nat (m - 1))" using assms(2,3) by auto
  moreover have "c ! Suc k - c ! k = days ! Suc k" if "k < 12" for k
    using assms(1) that by (simp add: month_table_ok_def list_all_iff)
  ultimately show ?thesis by (metis add.commute diff_add_cancel)
qed

text \<open>A day between the bounds of a month has that month as its entry.\<close>

lemma month_unique:
  assumes "month_table_ok days c ms" "1 \<le> m" "m \<le> 12" "c ! nat (m - 1) \<le> d" "d < c ! nat m"
  shows "ms ! nat d = m" "0 \<le> d" "d < c ! 12"
proof -
  have mono: "c ! i \<le> c ! j" if "i \<le> j" "j < 13" for i j
    using assms(1) that by (auto simp: month_table_ok_def intro: sorted_nth_mono)
  have b: "nat (m - 1) < 13" "nat m \<le> 12" using assms(2,3) by auto
  have "c ! 0 = 0" using assms(1) by (simp add: month_table_ok_def)
  then show d: "0 \<le> d" using mono[of 0 "nat (m - 1)"] assms(4) b by simp
  show d': "d < c ! 12" using mono[of "nat m" 12] assms(5) b by simp
  let ?e = "ms ! nat d"
  note e = month_of_day[OF assms(1) d d']
  have "\<not> ?e < m"
  proof
    assume "?e < m"
    then have "nat ?e \<le> nat (m - 1)" by (intro nat_mono) simp
    from mono[OF this b(1)] e(4) assms(4) show False by simp
  qed
  moreover have "\<not> m < ?e"
  proof
    assume "m < ?e"
    then have "nat m \<le> nat (?e - 1)" "nat (?e - 1) < 13" using e(2) by (auto intro: nat_mono)
    from mono[OF this] e(3) assms(5) show False by simp
  qed
  ultimately show "?e = m" by simp
qed

section \<open>Conversions\<close>

lemma smod_0_iff: "a smod b = 0 \<longleftrightarrow> b dvd (a :: int)"
  unfolding smod_int_alt_def by (cases "a = 0") (auto simp: sgn_if dvd_eq_mod_eq_0 [symmetric])

lemma isLeapYear_iff: "isLeapYear y \<longleftrightarrow> 4 dvd y \<and> (\<not> 100 dvd y \<or> 400 dvd y)"
  by (simp add: isLeapYear_def smod_0_iff)

lemma isLeapYear_period: "isLeapYear (y + 400 * k) = isLeapYear y"
proof -
  have "4 dvd y + 400 * k \<longleftrightarrow> 4 dvd y" "100 dvd y + 400 * k \<longleftrightarrow> 100 dvd y" "400 dvd y + 400 * k \<longleftrightarrow> 400 dvd y"
    by (auto intro!: dvd_add_left_iff dvd_mult2)
  then show ?thesis by (simp add: isLeapYear_iff)
qed

lemma shift_up_eq: "shift_up n y = (if 0 \<le> n then (n, y) else (n mod 146097, y + 400 * (n div 146097)))"
proof (induction n y rule: shift_up.induct)
  case (1 n y)
  show ?case
  proof (cases "n < 0")
    case True
    then have r: "shift_up n y = shift_up (n + 146097) (y - 400)" by (simp add: shift_up.simps[of n] date_constants)
    show ?thesis
    proof (cases "n + 146097 < 0")
      case True
      have "(n + 146097) div 146097 = n div 146097 + 1" by simp
      then show ?thesis using r 1 \<open>n < 0\<close> True by (simp add: date_constants)
    next
      case False
      then have "0 \<le> n + 146097" "n + 146097 < 146097" using \<open>n < 0\<close> by simp_all
      then have "(n + 146097) div 146097 = 0" "(n + 146097) mod 146097 = n + 146097"
        by (rule div_pos_pos_trivial, rule mod_pos_pos_trivial)
      then have "n div 146097 = - 1" "n mod 146097 = n + 146097" by simp_all
      then show ?thesis using r \<open>n < 0\<close> False by (simp add: shift_up.simps[of "n + 146097"])
    qed
  qed (simp add: shift_up.simps[of n])
qed

lemma shift_down_eq: "0 \<le> n \<Longrightarrow> shift_down n y = (n mod 146097, y + 400 * (n div 146097))"
proof (induction n y rule: shift_down.induct)
  case (1 n y)
  show ?case
  proof (cases "146097 \<le> n")
    case True
    then have "shift_down n y = shift_down (n - 146097) (y + 400)" by (simp add: shift_down.simps[of n] date_constants)
    moreover have "(n - 146097) div 146097 = n div 146097 - 1" "(n - 146097) mod 146097 = n mod 146097" by simp_all
    ultimately show ?thesis using 1 True by (simp add: date_constants)
  next
    case False
    then show ?thesis using 1(2) by (simp add: shift_down.simps[of n] date_constants)
  qed
qed

lemma shift_eq: "(let (n, year) = shift_up n y in shift_down n year) = (n mod 146097, y + 400 * (n div 146097))"
  by (simp add: shift_up_eq shift_down_eq)

lemma search_year_ok:
  assumes "0 \<le> n"
  shows "\<exists>j \<le> k. search_year n k = Some j \<and> CUMULATIVE_YEAR_DAYS ! j \<le> n \<and> (j < k \<longrightarrow> n < CUMULATIVE_YEAR_DAYS ! Suc j)"
proof (induction k)
  case (Suc k)
  then obtain j where j: "j \<le> k" "search_year n k = Some j" "CUMULATIVE_YEAR_DAYS ! j \<le> n" "j < k \<longrightarrow> n < CUMULATIVE_YEAR_DAYS ! Suc j" by auto
  show ?case
  proof (cases "n < CUMULATIVE_YEAR_DAYS ! Suc k")
    case True
    with j show ?thesis by (cases "j = k") (auto intro!: exI[of _ j])
  qed (auto intro!: exI[of _ "Suc k"])
qed (use assms table_facts(3) in simp)

text \<open>The year and the position of its first day in the 400 years are those that contain the day.\<close>

lemma extractYearOffset_ok:
  "\<exists>yo < 400. extractYearOffset n = Some (n mod 146097, 1970 + 400 * (n div 146097) + int yo, yo) \<and>
     CUMULATIVE_YEAR_DAYS ! yo \<le> n mod 146097 \<and> n mod 146097 < CUMULATIVE_YEAR_DAYS ! Suc yo"
proof -
  let ?n = "n mod 146097" and ?q = "nat (n mod 146097 sdiv 365)"
  have n: "0 \<le> ?n" "?n < 146097" by simp_all
  then have q: "?n sdiv 365 = ?n div 365" by (cases "?n = 0") (simp_all add: signed_divide_int_def)
  have q2: "int ?q = ?n div 365" "?q \<le> 400" using n by (auto simp: q)
  from search_year_ok[OF n(1), of ?q] obtain j where j: "j \<le> ?q" "search_year ?n ?q = Some j" "CUMULATIVE_YEAR_DAYS ! j \<le> ?n"
    "j < ?q \<longrightarrow> ?n < CUMULATIVE_YEAR_DAYS ! Suc j" by blast
  have "j \<noteq> 400" using j(3) n(2) year_days(3) by auto
  then have j4: "j < 400" using j(1) q2(2) by simp
  have "?n < CUMULATIVE_YEAR_DAYS ! Suc j"
  proof (cases "j < ?q")
    case False
    then have "j = ?q" using j(1) by simp
    then have "?n < 365 * int (Suc j)" using q2(1) by simp
    also have "\<dots> \<le> CUMULATIVE_YEAR_DAYS ! Suc j"
      using year_days(1,2)[OF j4] by (auto split: if_splits)
    finally show ?thesis .
  qed (use j(4) in simp)
  moreover have "extractYearOffset n = Some (?n, 1970 + 400 * (n div 146097) + int j, j)"
    using j(2,3) shift_eq[of n 1970] by (simp add: extractYearOffset_def Let_def date_constants)
  ultimately show ?thesis using j4 j(3) by blast
qed

text \<open>The day number of a date, in closed form.\<close>

definition day_number :: "int \<Rightarrow> int \<Rightarrow> int \<Rightarrow> int" where
  "day_number y m d = 146097 * ((y - 1970) div 400) + CUMULATIVE_YEAR_DAYS ! nat ((y - 1970) mod 400) +
     (if isLeapYear y then CUMULATIVE_LEAP_DAYS ! nat (m - 1) else CUMULATIVE_DAYS ! nat (m - 1)) + (d - 1)"

lemma year_up_eq: "year_up y n = (if 1970 \<le> y then (y, n) else (1970 + (y - 1970) mod 400, n + 146097 * ((y - 1970) div 400)))"
proof (induction y n rule: year_up.induct)
  case (1 y n)
  show ?case
  proof (cases "y < 1970")
    case True
    then have r: "year_up y n = year_up (y + 400) (n - 146097)" by (simp add: year_up.simps[of y] date_constants)
    have e: "y + 400 - 1970 = (y - 1970) + 400" "(y - 1970 + 400) div 400 = (y - 1970) div 400 + 1" "(y - 1970 + 400) mod 400 = (y - 1970) mod 400"
      by (simp, rule div_add_self2, simp, rule mod_add_self2)
    show ?thesis
    proof (cases "y + 400 < 1970")
      case True
      have "year_up (y + 400) (n - 146097) = (1970 + (y + 400 - 1970) mod 400, n - 146097 + 146097 * ((y + 400 - 1970) div 400))"
        using 1[OF \<open>y < 1970\<close>] True by (simp add: date_constants)
      then show ?thesis unfolding r e using \<open>y < 1970\<close> by simp
    next
      case False
      then have "0 \<le> y - 1970 + 400" "y - 1970 + 400 < 400" using \<open>y < 1970\<close> by simp_all
      then have "(y - 1970 + 400) div 400 = 0" "(y - 1970 + 400) mod 400 = y - 1970 + 400"
        by (rule div_pos_pos_trivial, rule mod_pos_pos_trivial)
      then have "(y - 1970) div 400 = - 1" "(y - 1970) mod 400 = y - 1970 + 400" using e by simp_all
      then show ?thesis using r \<open>y < 1970\<close> False by (simp add: year_up.simps[of "y + 400"])
    qed
  qed (simp add: year_up.simps[of y])
qed

lemma year_down_eq: "1970 \<le> y \<Longrightarrow> year_down y n = (1970 + (y - 1970) mod 400, n + 146097 * ((y - 1970) div 400))"
proof (induction y n rule: year_down.induct)
  case (1 y n)
  show ?case
  proof (cases "2370 \<le> y")
    case True
    then have r: "year_down y n = year_down (y - 400) (n + 146097)" by (simp add: year_down.simps[of y] date_constants)
    have e: "y - 400 - 1970 = (y - 1970) - 400" "(y - 1970 - 400) div 400 = (y - 1970) div 400 - 1" "(y - 1970 - 400) mod 400 = (y - 1970) mod 400"
      by (simp, simp, rule minus_mod_self2)
    have "year_down (y - 400) (n + 146097) = (1970 + (y - 400 - 1970) mod 400, n + 146097 + 146097 * ((y - 400 - 1970) div 400))"
      using 1(1)[OF True] True by (simp add: date_constants)
    then show ?thesis unfolding r e by simp
  next
    case False
    then have "(y - 1970) div 400 = 0" "(y - 1970) mod 400 = y - 1970" using 1(2) by (auto intro: div_pos_pos_trivial mod_pos_pos_trivial)
    then show ?thesis using False by (simp add: year_down.simps[of y])
  qed
qed

lemma leap_in_interval: "isLeapYear (1970 + (y - 1970) mod 400) = isLeapYear y"
proof -
  have "y = 1970 + (y - 1970) mod 400 + 400 * ((y - 1970) div 400)" by simp
  then show ?thesis by (metis isLeapYear_period)
qed

lemma fromDate_eq: "fromDate y m d = (if isValid y m d then Some (day_number y m d) else None)"
proof -
  have "(let (y, n) = year_up y 0 in year_down y n) = (1970 + (y - 1970) mod 400, 146097 * ((y - 1970) div 400))"
    by (simp add: year_up_eq year_down_eq)
  then show ?thesis by (simp add: fromDate_def day_number_def Let_def leap_in_interval)
qed

text \<open>The first day of a year, and the days in it.\<close>

lemma day_number_year: "y = 1970 + 400 * q + int yo \<Longrightarrow> yo < 400 \<Longrightarrow>
    day_number y m d = 146097 * q + CUMULATIVE_YEAR_DAYS ! yo + (if isLeapYear (1970 + int yo) then CUMULATIVE_LEAP_DAYS ! nat (m - 1) else CUMULATIVE_DAYS ! nat (m - 1)) + (d - 1)"
proof -
  assume y: "y = 1970 + 400 * q + int yo" "yo < 400"
  then have e: "(y - 1970) div 400 = q" "(y - 1970) mod 400 = int yo" by simp_all
  have "isLeapYear y = isLeapYear (1970 + int yo)" using isLeapYear_period[of "1970 + int yo" q] y(1) by (simp add: algebra_simps)
  then show ?thesis unfolding day_number_def e by simp
qed

text \<open>The tables of a year: days of the months, their sums, and the months of the days.\<close>

definition days_tab :: "bool \<Rightarrow> int list" where
  "days_tab leap = (if leap then LEAP_DAYS else NORMAL_DAYS)"

definition sum_tab :: "bool \<Rightarrow> int list" where
  "sum_tab leap = (if leap then CUMULATIVE_LEAP_DAYS else CUMULATIVE_DAYS)"

definition month_tab :: "bool \<Rightarrow> int list" where
  "month_tab leap = (if leap then LEAP_MONTH_PER_DAY_OF_YEAR else MONTH_PER_DAY_OF_YEAR)"

lemma tabs_ok: "month_table_ok (days_tab leap) (sum_tab leap) (month_tab leap)" "sum_tab leap ! 12 = (if leap then 366 else 365)"
  using month_facts by (auto simp: days_tab_def sum_tab_def month_tab_def)

lemma tab_nth:
  "days_tab leap ! k = (if leap then LEAP_DAYS ! k else NORMAL_DAYS ! k)"
  "sum_tab leap ! k = (if leap then CUMULATIVE_LEAP_DAYS ! k else CUMULATIVE_DAYS ! k)"
  "month_tab leap ! k = (if leap then LEAP_MONTH_PER_DAY_OF_YEAR ! k else MONTH_PER_DAY_OF_YEAR ! k)"
  by (simp_all add: days_tab_def sum_tab_def month_tab_def)

lemma convert_tab:
  "convert date =
     do { (n, year, year_offset) \<leftarrow> extractYearOffset date;
          let d = n - CUMULATIVE_YEAR_DAYS ! year_offset;
          ku_assert (d \<ge> 0 \<and> d \<le> 365);
          let leap = (CUMULATIVE_YEAR_DAYS ! (year_offset + 1) - CUMULATIVE_YEAR_DAYS ! year_offset = 366);
          ku_assert (leap \<or> d < 365);
          let month = month_tab leap ! nat d;
          let day = d - sum_tab leap ! nat (month - 1) + 1;
          ku_assert (day > 0 \<and> day \<le> days_tab leap ! nat month);
          ku_assert (month > 0 \<and> month \<le> 12);
          ku_assert (isValid year month day);
          Some (year, month, day) }"
  unfolding convert_def tab_nth ..

lemma isValid_iff:
  "isValid y m d \<longleftrightarrow> 1 \<le> m \<and> m \<le> 12 \<and> MIN_YEAR \<le> y \<and> y \<le> MAX_YEAR \<and> 1 \<le> d \<and> d \<le> days_tab (isLeapYear y) ! nat m"
  by (auto simp: isValid_def days_tab_def)

lemma day_number_tab:
  assumes "y = 1970 + 400 * q + int yo" "yo < 400"
  shows "day_number y m d = 146097 * q + CUMULATIVE_YEAR_DAYS ! yo + sum_tab (isLeapYear y) ! nat (m - 1) + (d - 1)"
proof -
  have "isLeapYear y = isLeapYear (1970 + int yo)" using isLeapYear_period[of "1970 + int yo" q] assms(1) by (simp add: algebra_simps)
  with day_number_year[OF assms] show ?thesis by (simp add: sum_tab_def)
qed

lemma convert_eq:
  "\<exists>yo < 400. \<exists>y m d. y = 1970 + 400 * (n div 146097) + int yo \<and> 1 \<le> m \<and> m \<le> 12 \<and> 1 \<le> d \<and> d \<le> days_tab (isLeapYear y) ! nat m \<and>
     day_number y m d = n \<and> convert n = (if isValid y m d then Some (y, m, d) else None)"
proof -
  from extractYearOffset_ok[of n] obtain yo where yo: "yo < 400"
    "extractYearOffset n = Some (n mod 146097, 1970 + 400 * (n div 146097) + int yo, yo)"
    "CUMULATIVE_YEAR_DAYS ! yo \<le> n mod 146097" "n mod 146097 < CUMULATIVE_YEAR_DAYS ! Suc yo" by blast
  define y D leap where "y = 1970 + 400 * (n div 146097) + int yo" and "D = n mod 146097 - CUMULATIVE_YEAR_DAYS ! yo"
    and "leap = isLeapYear y"
  have leap: "leap = isLeapYear (1970 + int yo)"
    using isLeapYear_period[of "1970 + int yo" "n div 146097"] by (simp add: leap_def y_def algebra_simps)
  have diff: "CUMULATIVE_YEAR_DAYS ! Suc yo - CUMULATIVE_YEAR_DAYS ! yo = 366 \<longleftrightarrow> leap"
    "CUMULATIVE_YEAR_DAYS ! Suc yo - CUMULATIVE_YEAR_DAYS ! yo = sum_tab leap ! 12"
    using year_days(1)[OF yo(1)] leap tabs_ok(2)[of leap] by auto
  have D: "0 \<le> D" "D < sum_tab leap ! 12" using yo(3,4) diff(2) by (auto simp: D_def)
  define m d where "m = month_tab leap ! nat D" and "d = D - sum_tab leap ! nat (m - 1) + 1"
  have m: "1 \<le> m" "m \<le> 12" "sum_tab leap ! nat (m - 1) \<le> D" "D < sum_tab leap ! nat m"
    using month_of_day[OF tabs_ok(1) D] by (simp_all add: m_def)
  have d: "1 \<le> d" "d \<le> days_tab leap ! nat m" using m month_days_diff[OF tabs_ok(1) m(1,2), of leap] by (auto simp: d_def)
  have "D \<le> 365" "leap \<or> D < 365" using D(2) tabs_ok(2)[of leap] by (auto split: if_splits)
  then have "convert n = (if isValid y m d then Some (y, m, d) else None)"
    using yo(2,3) D(1) diff(1) m d
    by (simp add: convert_tab Let_def y_def [symmetric] D_def [symmetric] m_def [symmetric] d_def [symmetric] ku_assert_def)
  moreover have "day_number y m d = n"
    unfolding day_number_tab[OF y_def yo(1)] leap_def [symmetric] by (simp add: d_def D_def)
  ultimately show ?thesis using yo(1) y_def m(1,2) d leap_def by blast
qed

lemma year_interval:
  assumes "yo < 400" "0 \<le> k" "k < (if isLeapYear (1970 + int yo) then 366 else 365)"
  shows "(146097 * q + CUMULATIVE_YEAR_DAYS ! yo + k) div 146097 = q" "yo' < 400 \<Longrightarrow> CUMULATIVE_YEAR_DAYS ! yo' \<le> CUMULATIVE_YEAR_DAYS ! yo + k \<Longrightarrow>
    CUMULATIVE_YEAR_DAYS ! yo + k < CUMULATIVE_YEAR_DAYS ! Suc yo' \<Longrightarrow> yo' = yo"
proof -
  note mono = year_mono
  have up: "CUMULATIVE_YEAR_DAYS ! yo + k < CUMULATIVE_YEAR_DAYS ! Suc yo" using year_days(1)[OF assms(1)] assms(3) by (simp split: if_splits)
  have "0 \<le> CUMULATIVE_YEAR_DAYS ! yo + k" "CUMULATIVE_YEAR_DAYS ! yo + k < 146097"
    using mono[of 0 yo] mono[of "Suc yo" 400] table_facts(3) year_days(3) up assms(1,2) by auto
  then show "(146097 * q + CUMULATIVE_YEAR_DAYS ! yo + k) div 146097 = q"
    using div_pos_pos_trivial[of "CUMULATIVE_YEAR_DAYS ! yo + k" 146097] by (simp add: add.assoc)
  assume a: "yo' < 400" "CUMULATIVE_YEAR_DAYS ! yo' \<le> CUMULATIVE_YEAR_DAYS ! yo + k" "CUMULATIVE_YEAR_DAYS ! yo + k < CUMULATIVE_YEAR_DAYS ! Suc yo'"
  have "\<not> yo' < yo" using mono[of "Suc yo'" yo] a assms(1,2) by auto
  moreover have "\<not> yo < yo'" using mono[of "Suc yo" yo'] a up by auto
  ultimately show "yo' = yo" by simp
qed

lemma day_position:
  assumes "1 \<le> m" "m \<le> 12" "1 \<le> d" "d \<le> days_tab (isLeapYear y) ! nat m"
  obtains q yo D where "y = 1970 + 400 * q + int yo" "yo < 400" "D = sum_tab (isLeapYear y) ! nat (m - 1) + (d - 1)" "0 \<le> D"
    "D < CUMULATIVE_YEAR_DAYS ! Suc yo - CUMULATIVE_YEAR_DAYS ! yo" "D < (if isLeapYear (1970 + int yo) then 366 else 365)"
    "month_tab (isLeapYear y) ! nat D = m" "day_number y m d = 146097 * q + CUMULATIVE_YEAR_DAYS ! yo + D"
proof -
  define yo q where "yo = nat ((y - 1970) mod 400)" and "q = (y - 1970) div 400"
  have y: "y = 1970 + 400 * q + int yo" "yo < 400" by (simp_all add: yo_def q_def)
  have l: "isLeapYear (1970 + int yo) = isLeapYear y" using isLeapYear_period[of "1970 + int yo" q] y(1) by (simp add: algebra_simps)
  let ?D = "sum_tab (isLeapYear y) ! nat (m - 1) + (d - 1)"
  have D: "month_tab (isLeapYear y) ! nat ?D = m" "0 \<le> ?D" "?D < sum_tab (isLeapYear y) ! 12"
    using month_unique[OF tabs_ok(1) assms(1,2), of "isLeapYear y" ?D] assms month_days_diff[OF tabs_ok(1) assms(1,2), of "isLeapYear y"] by auto
  have lt: "?D < (if isLeapYear (1970 + int yo) then 366 else 365)" using D(3) l tabs_ok(2)[of "isLeapYear y"] by simp
  then have "?D < CUMULATIVE_YEAR_DAYS ! Suc yo - CUMULATIVE_YEAR_DAYS ! yo" using year_days(1)[OF y(2)] by simp
  from that[OF y refl D(2) this lt D(1)] day_number_tab[OF y] show thesis by simp
qed

lemma day_number_inj:
  assumes "1 \<le> m" "m \<le> 12" "1 \<le> d" "d \<le> days_tab (isLeapYear y) ! nat m"
    and "1 \<le> m'" "m' \<le> 12" "1 \<le> d'" "d' \<le> days_tab (isLeapYear y') ! nat m'"
    and eq: "day_number y m d = day_number y' m' d'"
  shows "(y, m, d) = (y', m', d')"
proof -
  from day_position[OF assms(1-4)] obtain q yo D where p: "y = 1970 + 400 * q + int yo" "yo < 400"
    "D = sum_tab (isLeapYear y) ! nat (m - 1) + (d - 1)" "0 \<le> D" "D < (if isLeapYear (1970 + int yo) then 366 else 365)"
    "month_tab (isLeapYear y) ! nat D = m" "day_number y m d = 146097 * q + CUMULATIVE_YEAR_DAYS ! yo + D" by blast
  from day_position[OF assms(5-8)] obtain q' yo' D' where p': "y' = 1970 + 400 * q' + int yo'" "yo' < 400"
    "D' = sum_tab (isLeapYear y') ! nat (m' - 1) + (d' - 1)" "0 \<le> D'" "D' < (if isLeapYear (1970 + int yo') then 366 else 365)"
    "D' < CUMULATIVE_YEAR_DAYS ! Suc yo' - CUMULATIVE_YEAR_DAYS ! yo'"
    "month_tab (isLeapYear y') ! nat D' = m'" "day_number y' m' d' = 146097 * q' + CUMULATIVE_YEAR_DAYS ! yo' + D'" by blast
  note iv = year_interval[OF p(2,4,5)]
  have q: "q' = q" using iv(1)[of q] year_interval(1)[OF p'(2,4,5), of q'] p(7) p'(8) eq by simp
  then have n: "CUMULATIVE_YEAR_DAYS ! yo' + D' = CUMULATIVE_YEAR_DAYS ! yo + D" using p(7) p'(8) eq by simp
  then have yo: "yo' = yo" using iv(2)[OF p'(2)] p'(4,6) by simp
  with n q p(1) p'(1) have y: "D' = D" "y' = y" by simp_all
  with p(6) p'(7) have m: "m' = m" by simp
  with y p(3) p'(3) have "d' = d" by simp
  with y m show ?thesis by simp
qed

lemma convert_iff: "convert n = Some (y, m, d) \<longleftrightarrow> isValid y m d \<and> day_number y m d = n"
proof -
  from convert_eq[of n] obtain y' m' d' where e: "1 \<le> m'" "m' \<le> 12" "1 \<le> d'" "d' \<le> days_tab (isLeapYear y') ! nat m'"
    "day_number y' m' d' = n" "convert n = (if isValid y' m' d' then Some (y', m', d') else None)" by blast
  show ?thesis
  proof
    assume "convert n = Some (y, m, d)"
    with e show "isValid y m d \<and> day_number y m d = n" by (auto split: if_splits)
  next
    assume v: "isValid y m d \<and> day_number y m d = n"
    then have "(y, m, d) = (y', m', d')" using e by (intro day_number_inj) (auto simp: isValid_iff)
    with e(6) v show "convert n = Some (y, m, d)" by simp
  qed
qed

text \<open>The next day of the Gregorian calendar.\<close>

definition next_day :: "int \<times> int \<times> int \<Rightarrow> int \<times> int \<times> int" where
  "next_day = (\<lambda>(y, m, d). if d < (if m = 2 then if 4 dvd y \<and> (\<not> 100 dvd y \<or> 400 dvd y) then 29 else 28 else if m \<in> {4, 6, 9, 11} then 30 else 31)
     then (y, m, d + 1) else if m < 12 then (y, m + 1, 1) else (y + 1, 1, 1))"

lemma days_tab_calendar:
  "1 \<le> m \<Longrightarrow> m \<le> 12 \<Longrightarrow> days_tab (isLeapYear y) ! nat m =
     (if m = 2 then if 4 dvd y \<and> (\<not> 100 dvd y \<or> 400 dvd y) then 29 else 28 else if m \<in> {4, 6, 9, 11} then 30 else 31)"
proof -
  assume "1 \<le> m" "m \<le> 12"
  then have "m \<in> {1, 2, 3, 4, 5, 6, 7, 8, 9, 10, 11, 12}" unfolding insert_iff empty_iff by presburger
  then show ?thesis unfolding isLeapYear_iff[symmetric] tab_nth by (elim insertE) (simp_all add: LEAP_DAYS_def NORMAL_DAYS_def)
qed

lemma day_number_next_year: "day_number (y + 1) 1 1 = day_number y 12 31 + 1"
proof -
  define yo q where "yo = nat ((y - 1970) mod 400)" and "q = (y - 1970) div 400"
  have y: "y = 1970 + 400 * q + int yo" "yo < 400" by (simp_all add: yo_def q_def)
  have l: "isLeapYear (1970 + int yo) = isLeapYear y" using isLeapYear_period[of "1970 + int yo" q] y(1) by (simp add: algebra_simps)
  have z: "sum_tab leap ! 0 = 0" "sum_tab leap ! 11 + 31 = (if leap then 366 else 365)" for leap
    using tabs_ok(1)[of leap] by (auto simp: month_table_ok_def sum_tab_def CUMULATIVE_LEAP_DAYS_def CUMULATIVE_DAYS_def)
  have a: "day_number y 12 31 + 1 = 146097 * q + CUMULATIVE_YEAR_DAYS ! yo + (if isLeapYear y then 366 else 365)"
    using day_number_tab[OF y, of 12 31] z(2)[of "isLeapYear y"] by simp
  have s: "CUMULATIVE_YEAR_DAYS ! Suc yo = CUMULATIVE_YEAR_DAYS ! yo + (if isLeapYear y then 366 else 365)" using year_days(1)[OF y(2)] l by simp
  show ?thesis
  proof (cases "Suc yo < 400")
    case True
    have "y + 1 = 1970 + 400 * q + int (Suc yo)" using y(1) by simp
    from day_number_tab[OF this True, of 1 1] a s z(1) show ?thesis by simp
  next
    case False
    then have "Suc yo = 400" using y(2) by simp
    then have "y + 1 = 1970 + 400 * (q + 1) + int 0" "yo = 399" using y(1) by simp_all
    from day_number_tab[OF this(1), of 1 1] a s z(1) \<open>Suc yo = 400\<close> year_days(3) table_facts(3) show ?thesis by (simp split: if_splits)
  qed
qed

lemma next_day_number:
  assumes m: "1 \<le> m" "m \<le> 12" "1 \<le> d" "d \<le> days_tab (isLeapYear y) ! nat m" and t: "next_day (y, m, d) = (y', m', d')"
  shows "day_number y' m' d' = day_number y m d + 1" "1 \<le> m'" "m' \<le> 12" "1 \<le> d'" "d' \<le> days_tab (isLeapYear y') ! nat m'"
proof -
  have nd: "(y', m', d') = (if d < days_tab (isLeapYear y) ! nat m then (y, m, d + 1) else if m < 12 then (y, m + 1, 1) else (y + 1, 1, 1))"
    unfolding t[symmetric] by (simp add: next_day_def days_tab_calendar[OF m(1,2)])
  show "day_number y' m' d' = day_number y m d + 1"
  proof (cases "d < days_tab (isLeapYear y) ! nat m")
    case True
    then show ?thesis using nd by (simp add: day_number_def)
  next
    case False
    then have d: "d = days_tab (isLeapYear y) ! nat m" using m(4) by simp
    show ?thesis
    proof (cases "m < 12")
      case True
      have "sum_tab (isLeapYear y) ! nat m = sum_tab (isLeapYear y) ! nat (m - 1) + d"
        using month_days_diff[OF tabs_ok(1) m(1,2), of "isLeapYear y"] d by simp
      then show ?thesis using nd False True by (auto simp: day_number_def sum_tab_def)
    next
      case False
      then have "m = 12" using m(2) by simp
      moreover from this have "d = 31" using d days_tab_calendar[of 12 y] by simp
      ultimately show ?thesis using nd \<open>\<not> d < _\<close> day_number_next_year[of y] by simp
    qed
  qed
  show "1 \<le> m'" "m' \<le> 12" "1 \<le> d'" "d' \<le> days_tab (isLeapYear y') ! nat m'"
    using nd m days_tab_calendar[of "m + 1" y] days_tab_calendar[of 1 "y + 1"] by (auto split: if_splits)
qed

lemma convert_next:
  assumes "convert n = Some (y, m, d)" "convert (n + 1) = Some t"
  shows "t = next_day (y, m, d)"
proof -
  obtain y' m' d' where t: "t = (y', m', d')" by (cases t)
  obtain yn mn dn where nd: "next_day (y, m, d) = (yn, mn, dn)" by (cases "next_day (y, m, d)")
  have v: "isValid y m d" "day_number y m d = n" "isValid y' m' d'" "day_number y' m' d' = n + 1" using assms t by (auto simp: convert_iff)
  then have m: "1 \<le> m" "m \<le> 12" "1 \<le> d" "d \<le> days_tab (isLeapYear y) ! nat m" by (auto simp: isValid_iff)
  have "(y', m', d') = (yn, mn, dn)" using v next_day_number[OF m nd] by (intro day_number_inj) (auto simp: isValid_iff)
  with t nd show ?thesis by simp
qed

text \<open>The days of a year lie between its first day and the first day of the next year.\<close>

lemma first_of_year_step: "day_number (y + 1) 1 1 = day_number y 1 1 + (if isLeapYear y then 366 else 365)"
proof -
  define yo q where "yo = nat ((y - 1970) mod 400)" and "q = (y - 1970) div 400"
  have y: "y = 1970 + 400 * q + int yo" "yo < 400" by (simp_all add: yo_def q_def)
  have "sum_tab leap ! 0 = 0" "sum_tab leap ! 11 = (if leap then 335 else 334)" for leap
    by (simp_all add: sum_tab_def CUMULATIVE_LEAP_DAYS_def CUMULATIVE_DAYS_def)
  then show ?thesis using day_number_next_year[of y] day_number_tab[OF y, of 12 31] day_number_tab[OF y, of 1 1] by simp
qed

lemma first_of_year_mono: "y \<le> y' \<Longrightarrow> day_number y 1 1 \<le> day_number y' 1 1"
proof (induction y' rule: int_ge_induct)
  case (step i)
  then show ?case using first_of_year_step[of i] by (simp split: if_splits)
qed simp

lemma day_number_in_year:
  assumes "1 \<le> m" "m \<le> 12" "1 \<le> d" "d \<le> days_tab (isLeapYear y) ! nat m"
  shows "day_number y 1 1 \<le> day_number y m d" "day_number y m d < day_number (y + 1) 1 1"
proof -
  from day_position[OF assms] obtain q yo D where p: "y = 1970 + 400 * q + int yo" "yo < 400" "0 \<le> D"
    "D < (if isLeapYear (1970 + int yo) then 366 else 365)" "day_number y m d = 146097 * q + CUMULATIVE_YEAR_DAYS ! yo + D" by blast
  have l: "isLeapYear (1970 + int yo) = isLeapYear y" using isLeapYear_period[of "1970 + int yo" q] p(1) by (simp add: algebra_simps)
  have "sum_tab leap ! 0 = 0" for leap by (simp add: sum_tab_def CUMULATIVE_LEAP_DAYS_def CUMULATIVE_DAYS_def)
  then have "day_number y 1 1 = 146097 * q + CUMULATIVE_YEAR_DAYS ! yo" using day_number_tab[OF p(1,2), of 1 1] by simp
  then show "day_number y 1 1 \<le> day_number y m d" "day_number y m d < day_number (y + 1) 1 1"
    using p first_of_year_step[of y] l by (simp_all split: if_splits)
qed

text \<open>A day number converts exactly when its year is one of the years allowed.\<close>

lemma convert_defined:
  "(\<exists>t. convert n = Some t) \<longleftrightarrow> day_number MIN_YEAR 1 1 \<le> n \<and> n < day_number (MAX_YEAR + 1) 1 1"
proof -
  from convert_eq[of n] obtain y m d where e: "1 \<le> m" "m \<le> 12" "1 \<le> d" "d \<le> days_tab (isLeapYear y) ! nat m"
    "day_number y m d = n" "convert n = (if isValid y m d then Some (y, m, d) else None)" by blast
  note b = day_number_in_year[OF e(1-4), unfolded e(5)]
  have "MIN_YEAR \<le> y \<longleftrightarrow> day_number MIN_YEAR 1 1 \<le> n"
    using b first_of_year_mono[of MIN_YEAR y] first_of_year_mono[of "y + 1" MIN_YEAR] by (cases "MIN_YEAR \<le> y") auto
  moreover have "y \<le> MAX_YEAR \<longleftrightarrow> n < day_number (MAX_YEAR + 1) 1 1"
    using b first_of_year_mono[of "y + 1" "MAX_YEAR + 1"] first_of_year_mono[of "MAX_YEAR + 1" y] by (cases "y \<le> MAX_YEAR") auto
  ultimately show ?thesis using e by (auto simp: isValid_iff)
qed

lemma year_limits: "day_number MIN_YEAR 1 1 = - 106751981" "day_number (MAX_YEAR + 1) 1 1 = 106752347"
  by code_simp+

end
