(* ===== verification/IntervalTypes.thy ===== *)
theory IntervalTypes
  imports DateTypes
begin

text \<open>
  Intervals (\<open>common/types/interval_t.cpp\<close>, \<open>interval_t.h\<close>): the record of months, days and
  microseconds, its operators, the normalisation the comparison uses, and the parts of an interval.

  Conversions to a narrower or an unsigned type wrap (\<open>wrap32\<close>, \<open>wrap64\<close>, \<open>u64\<close>); signed arithmetic
  that overflows is None. Lowering the case of a specifier is done by the utf8proc library and is the
  parameter \<open>toLower\<close>. A \<open>ConversionException\<close> is None.
\<close>

section \<open>Data\<close>

definition wrap32 :: "int \<Rightarrow> int" where
  "wrap32 x = (x + 2147483648) mod 4294967296 - 2147483648"

definition wrap64 :: "int \<Rightarrow> int" where
  "wrap64 x = (x + 9223372036854775808) mod 18446744073709551616 - 9223372036854775808"

definition u64 :: "int \<Rightarrow> int" where
  "u64 x = x mod 18446744073709551616"

datatype DatePartSpecifier =
  YEAR | MONTH | DAY | DECADE | CENTURY | MILLENNIUM | QUARTER | MICROSECOND | MILLISECOND | SECOND | MINUTE | HOUR | WEEK

record interval_t =
  months :: int
  days :: int
  micros :: int

definition MONTHS_PER_MILLENIUM :: int where "MONTHS_PER_MILLENIUM = 12000"

definition MONTHS_PER_CENTURY :: int where "MONTHS_PER_CENTURY = 1200"

definition MONTHS_PER_DECADE :: int where "MONTHS_PER_DECADE = 120"

definition MONTHS_PER_YEAR :: int where "MONTHS_PER_YEAR = 12"

definition MONTHS_PER_QUARTER :: int where "MONTHS_PER_QUARTER = 3"

definition DAYS_PER_MONTH :: int where "DAYS_PER_MONTH = 30"

definition MSECS_PER_SEC :: int where "MSECS_PER_SEC = 1000"

definition SECS_PER_MINUTE :: int where "SECS_PER_MINUTE = 60"

definition MINS_PER_HOUR :: int where "MINS_PER_HOUR = 60"

definition HOURS_PER_DAY :: int where "HOURS_PER_DAY = 24"

definition MICROS_PER_MSEC :: int where "MICROS_PER_MSEC = 1000"

definition MICROS_PER_SEC :: int where "MICROS_PER_SEC = MICROS_PER_MSEC * MSECS_PER_SEC"

definition MICROS_PER_MINUTE :: int where "MICROS_PER_MINUTE = MICROS_PER_SEC * SECS_PER_MINUTE"

definition MICROS_PER_HOUR :: int where "MICROS_PER_HOUR = MICROS_PER_MINUTE * MINS_PER_HOUR"

definition MICROS_PER_DAY :: int where "MICROS_PER_DAY = MICROS_PER_HOUR * HOURS_PER_DAY"

definition MICROS_PER_MONTH :: int where "MICROS_PER_MONTH = MICROS_PER_DAY * DAYS_PER_MONTH"

definition NANOS_PER_MICRO :: int where "NANOS_PER_MICRO = 1000"

lemmas interval_constants = MONTHS_PER_MILLENIUM_def MONTHS_PER_CENTURY_def MONTHS_PER_DECADE_def MONTHS_PER_YEAR_def
  MONTHS_PER_QUARTER_def DAYS_PER_MONTH_def MSECS_PER_SEC_def SECS_PER_MINUTE_def MINS_PER_HOUR_def HOURS_PER_DAY_def
  MICROS_PER_MSEC_def MICROS_PER_SEC_def MICROS_PER_MINUTE_def MICROS_PER_HOUR_def MICROS_PER_DAY_def
  MICROS_PER_MONTH_def NANOS_PER_MICRO_def

section \<open>Comparison\<close>

definition normalizeIntervalEntries :: "interval_t \<Rightarrow> int \<times> int \<times> int" where
  "normalizeIntervalEntries input =
     (let extra_months_d = days input sdiv DAYS_PER_MONTH;
          extra_months_micros = micros input sdiv MICROS_PER_MONTH;
          d = wrap32 (days input - extra_months_d * DAYS_PER_MONTH);
          u = micros input - extra_months_micros * MICROS_PER_MONTH;
          extra_days_micros = u sdiv MICROS_PER_DAY
      in (months input + extra_months_d + extra_months_micros, d + extra_days_micros, u - extra_days_micros * MICROS_PER_DAY))"

definition greaterThan :: "interval_t \<Rightarrow> interval_t \<Rightarrow> bool" where
  "greaterThan left right =
     (case (normalizeIntervalEntries left, normalizeIntervalEntries right) of
        ((lMonths, lDays, lMicros), (rMonths, rDays, rMicros)) \<Rightarrow>
          if lMonths > rMonths then True else if lMonths < rMonths then False
          else if lDays > rDays then True else if lDays < rDays then False
          else lMicros > rMicros)"

definition interval_eq :: "interval_t \<Rightarrow> interval_t \<Rightarrow> bool" where
  "interval_eq l r = (days l = days r \<and> months l = months r \<and> micros l = micros r)"

definition interval_ne :: "interval_t \<Rightarrow> interval_t \<Rightarrow> bool" where
  "interval_ne l r = (\<not> interval_eq l r)"

definition interval_gt :: "interval_t \<Rightarrow> interval_t \<Rightarrow> bool" where
  "interval_gt l r = greaterThan l r"

definition interval_le :: "interval_t \<Rightarrow> interval_t \<Rightarrow> bool" where
  "interval_le l r = (\<not> interval_gt l r)"

definition interval_ge :: "interval_t \<Rightarrow> interval_t \<Rightarrow> bool" where
  "interval_ge l r = (interval_gt l r \<or> interval_eq l r)"

definition interval_lt :: "interval_t \<Rightarrow> interval_t \<Rightarrow> bool" where
  "interval_lt l r = (\<not> interval_ge l r)"

section \<open>Arithmetic\<close>

definition interval_add :: "interval_t \<Rightarrow> interval_t \<Rightarrow> interval_t option" where
  "interval_add l r =
     do { m \<leftarrow> i32 (months l + months r);
          d \<leftarrow> i32 (days l + days r);
          u \<leftarrow> i64 (micros l + micros r);
          Some \<lparr>months = m, days = d, micros = u\<rparr> }"

definition interval_sub :: "interval_t \<Rightarrow> interval_t \<Rightarrow> interval_t option" where
  "interval_sub l r =
     do { m \<leftarrow> i32 (months l - months r);
          d \<leftarrow> i32 (days l - days r);
          u \<leftarrow> i64 (micros l - micros r);
          Some \<lparr>months = m, days = d, micros = u\<rparr> }"

text \<open>The divisor is an unsigned 64-bit number, so each dividend is converted to one first.\<close>

definition interval_div :: "interval_t \<Rightarrow> int \<Rightarrow> interval_t option" where
  "interval_div v rhs =
     do { ku_assert (rhs \<noteq> 0);
          let monthsRemainder = wrap32 (u64 (months v) mod rhs);
          let daysRemainder = wrap32 (u64 (days v + monthsRemainder * DAYS_PER_MONTH) mod rhs);
          let m = wrap32 (u64 (months v) div rhs);
          let d = wrap32 (u64 (days v + monthsRemainder * DAYS_PER_MONTH) div rhs);
          r \<leftarrow> i64 (daysRemainder * MICROS_PER_DAY);
          u \<leftarrow> i64 (micros v + r);
          Some \<lparr>months = m, days = d, micros = wrap64 (u64 u div rhs)\<rparr> }"

definition addition :: "(string \<Rightarrow> string) \<Rightarrow> interval_t \<Rightarrow> int \<Rightarrow> string \<Rightarrow> interval_t option" where
  "addition toLower result number specifier =
     (let specifierStr = toLower specifier in
      if specifierStr \<in> {''year'', ''years'', ''y''} then
        Some (result\<lparr>months := wrap32 (months result + number * MONTHS_PER_YEAR)\<rparr>)
      else if specifierStr \<in> {''month'', ''months'', ''mon''} then Some (result\<lparr>months := wrap32 (months result + number)\<rparr>)
      else if specifierStr \<in> {''day'', ''days'', ''d''} then Some (result\<lparr>days := wrap32 (days result + number)\<rparr>)
      else if specifierStr \<in> {''hour'', ''hours'', ''h''} then
        Some (result\<lparr>micros := wrap64 (micros result + number * MICROS_PER_HOUR)\<rparr>)
      else if specifierStr \<in> {''minute'', ''minutes'', ''m''} then
        Some (result\<lparr>micros := wrap64 (micros result + number * MICROS_PER_MINUTE)\<rparr>)
      else if specifierStr \<in> {''second'', ''seconds'', ''s''} then
        Some (result\<lparr>micros := wrap64 (micros result + number * MICROS_PER_SEC)\<rparr>)
      else if specifierStr \<in> {''millisecond'', ''milliseconds'', ''ms'', ''msec''} then
        Some (result\<lparr>micros := wrap64 (micros result + number * MICROS_PER_MSEC)\<rparr>)
      else if specifierStr \<in> {''microsecond'', ''microseconds'', ''us''} then
        Some (result\<lparr>micros := wrap64 (micros result + number)\<rparr>)
      else None)"

text \<open>Adding one field while parsing; \<open>in_type\<close> is \<open>i32\<close> or \<open>i64\<close>, by the type of the target.\<close>

definition intervalTryAddition :: "(int \<Rightarrow> int option) \<Rightarrow> int \<Rightarrow> int \<Rightarrow> int \<Rightarrow> int \<Rightarrow> int option" where
  "intervalTryAddition in_type target input multiplier fraction =
     do { add \<leftarrow> i64 (input * multiplier);
          additionBase \<leftarrow> in_type add;
          target \<leftarrow> in_type (target + additionBase);
          if fraction \<noteq> 0 then do {
            product \<leftarrow> i64 (fraction * multiplier);
            additionBase \<leftarrow> in_type (product sdiv MICROS_PER_SEC);
            in_type (target + additionBase) }
          else Some target }"

section \<open>Parts\<close>

definition tryGetDatePartSpecifier :: "(string \<Rightarrow> string) \<Rightarrow> string \<Rightarrow> DatePartSpecifier option" where
  "tryGetDatePartSpecifier toLower str =
     (let specifier = toLower str in
      if specifier \<in> {''year'', ''yr'', ''y'', ''years'', ''yrs''} then Some YEAR
      else if specifier \<in> {''month'', ''mon'', ''months'', ''mons''} then Some MONTH
      else if specifier \<in> {''day'', ''days'', ''d'', ''dayofmonth''} then Some DAY
      else if specifier \<in> {''decade'', ''dec'', ''decades'', ''decs''} then Some DECADE
      else if specifier \<in> {''century'', ''cent'', ''centuries'', ''c''} then Some CENTURY
      else if specifier \<in> {''millennium'', ''mil'', ''millenniums'', ''millennia'', ''mils'', ''millenium'', ''milleniums''}
        then Some MILLENNIUM
      else if specifier \<in> {''microseconds'', ''microsecond'', ''us'', ''usec'', ''usecs'', ''usecond'', ''useconds''}
        then Some MICROSECOND
      else if specifier \<in> {''milliseconds'', ''millisecond'', ''ms'', ''msec'', ''msecs'', ''msecond'', ''mseconds''}
        then Some MILLISECOND
      else if specifier \<in> {''second'', ''sec'', ''seconds'', ''secs'', ''s''} then Some SECOND
      else if specifier \<in> {''minute'', ''min'', ''minutes'', ''mins'', ''m''} then Some MINUTE
      else if specifier \<in> {''hour'', ''hr'', ''hours'', ''hrs'', ''h''} then Some HOUR
      else if specifier \<in> {''week'', ''weeks'', ''w'', ''weekofyear''} then Some WEEK
      else if specifier \<in> {''quarter'', ''quarters''} then Some QUARTER
      else None)"

text \<open>A part is returned as a 32-bit number; weeks are unreachable in the code.\<close>

definition interval_month :: "interval_t \<Rightarrow> int" where
  "interval_month v = months v smod MONTHS_PER_YEAR"

definition interval_microsecond :: "interval_t \<Rightarrow> int" where
  "interval_microsecond v = wrap32 (micros v smod MICROS_PER_MINUTE)"

fun getIntervalPart :: "DatePartSpecifier \<Rightarrow> interval_t \<Rightarrow> int option" where
  "getIntervalPart YEAR v = Some (months v sdiv MONTHS_PER_YEAR)"
| "getIntervalPart MONTH v = Some (interval_month v)"
| "getIntervalPart DAY v = Some (days v)"
| "getIntervalPart DECADE v = Some (months v sdiv MONTHS_PER_DECADE)"
| "getIntervalPart CENTURY v = Some (months v sdiv MONTHS_PER_CENTURY)"
| "getIntervalPart MILLENNIUM v = Some (months v sdiv MONTHS_PER_MILLENIUM)"
| "getIntervalPart QUARTER v = Some (interval_month v sdiv MONTHS_PER_QUARTER + 1)"
| "getIntervalPart MICROSECOND v = Some (interval_microsecond v)"
| "getIntervalPart MILLISECOND v = Some (interval_microsecond v sdiv MICROS_PER_MSEC)"
| "getIntervalPart SECOND v = Some (interval_microsecond v sdiv MICROS_PER_SEC)"
| "getIntervalPart MINUTE v = Some ((micros v smod MICROS_PER_HOUR) sdiv MICROS_PER_MINUTE)"
| "getIntervalPart HOUR v = Some (wrap32 (micros v sdiv MICROS_PER_HOUR))"
| "getIntervalPart WEEK v = None"

definition getMicro :: "interval_t \<Rightarrow> int option" where
  "getMicro v =
     do { m \<leftarrow> i64 (months v * MICROS_PER_MONTH);
          s \<leftarrow> i64 (micros v + m);
          d \<leftarrow> i64 (days v * MICROS_PER_DAY);
          i64 (s + d) }"

definition getNanoseconds :: "interval_t \<Rightarrow> int option" where
  "getNanoseconds v = do { u \<leftarrow> getMicro v; i64 (u * NANOS_PER_MICRO) }"

section \<open>What the comparison decides\<close>

text \<open>The fields are in the range of their types.\<close>

definition interval_ok :: "interval_t \<Rightarrow> bool" where
  "interval_ok v = (i32 (months v) \<noteq> None \<and> i32 (days v) \<noteq> None \<and> i64 (micros v) \<noteq> None)"

definition total_micros :: "interval_t \<Rightarrow> int" where
  "total_micros v = months v * MICROS_PER_MONTH + days v * MICROS_PER_DAY + micros v"

lemma wrap32_id: "- 2147483648 \<le> x \<Longrightarrow> x \<le> 2147483647 \<Longrightarrow> wrap32 x = x"
  by (simp add: wrap32_def mod_pos_pos_trivial)

lemma minus_sdiv: "(0::int) < k \<Longrightarrow> x - x sdiv k * k = x smod k"
  by (simp add: minus_sdiv_mult_eq_smod)

lemma smod_bounds: "0 < k \<Longrightarrow> - k < (x :: int) smod k" "0 < k \<Longrightarrow> x smod k < k"
  using smod_int_range[of k x] by auto

lemma sdiv_trivial: "0 \<le> (x :: int) \<Longrightarrow> x < k \<Longrightarrow> x sdiv k = 0"
  by (simp add: signed_divide_int_def sgn_if div_pos_pos_trivial)

lemma smod_nonneg: "0 \<le> (x :: int) \<Longrightarrow> 0 < k \<Longrightarrow> 0 \<le> x smod k"
  by (simp add: signed_modulo_int_def sgn_if)

lemma sdiv_bound:
  assumes "0 < (k :: int)" "- (n * k) < x" "x < n * k"
  shows "- n < x sdiv k" "x sdiv k < n"
proof -
  have "\<bar>x\<bar> < n * k" using assms(2,3) by simp
  then have "\<bar>x\<bar> div k * k < n * k" using div_mult_mod_eq[of "\<bar>x\<bar>" k] pos_mod_sign[OF assms(1), of "\<bar>x\<bar>"] by linarith
  then have "\<bar>x\<bar> div k < n" using assms(1) by (simp add: mult_less_cancel_right)
  moreover have "0 \<le> \<bar>x\<bar> div k" using assms(1) by (simp add: pos_imp_zdiv_nonneg_iff)
  ultimately show "- n < x sdiv k" "x sdiv k < n" using assms(1) by (auto simp: signed_divide_int_def sgn_if)
qed

text \<open>
  The normal form has the same length as the interval (a month counts as 30 days) and its
  microseconds are less than a day. Its days are less than a month only when the microseconds of the
  interval bring in no day.
\<close>

lemma normalize_total:
  assumes "interval_ok v" "normalizeIntervalEntries v = (m, d, u)"
  shows "m * MICROS_PER_MONTH + d * MICROS_PER_DAY + u = total_micros v" "\<bar>u\<bar> < MICROS_PER_DAY" "\<bar>d\<bar> \<le> 58"
proof -
  have c: "MICROS_PER_MONTH = 30 * MICROS_PER_DAY" "0 < MICROS_PER_DAY" by (simp_all add: interval_constants)
  have k: "- 30 < days v smod 30" "days v smod 30 < 30" by (simp_all add: smod_bounds)
  then have w: "wrap32 (days v - days v sdiv 30 * 30) = days v - days v sdiv 30 * 30"
    unfolding minus_sdiv[of 30, simplified] by (intro wrap32_id) simp_all
  have u: "- MICROS_PER_MONTH < micros v smod MICROS_PER_MONTH" "micros v smod MICROS_PER_MONTH < MICROS_PER_MONTH"
    using smod_bounds[of MICROS_PER_MONTH "micros v"] by (simp_all add: interval_constants)
  let ?u = "micros v - micros v sdiv MICROS_PER_MONTH * MICROS_PER_MONTH"
  have ub: "- MICROS_PER_MONTH < ?u" "?u < MICROS_PER_MONTH"
    using u minus_sdiv[of MICROS_PER_MONTH "micros v"] c by (simp_all add: mult.commute)
  have r: "m = months v + days v sdiv 30 + micros v sdiv MICROS_PER_MONTH"
    "d = days v - days v sdiv 30 * 30 + ?u sdiv MICROS_PER_DAY" "u = ?u - ?u sdiv MICROS_PER_DAY * MICROS_PER_DAY"
    using assms(2) w by (auto simp: normalizeIntervalEntries_def Let_def DAYS_PER_MONTH_def)
  show "m * MICROS_PER_MONTH + d * MICROS_PER_DAY + u = total_micros v"
    unfolding r total_micros_def c(1) by (simp add: algebra_simps)
  have um: "- MICROS_PER_DAY < ?u smod MICROS_PER_DAY" "?u smod MICROS_PER_DAY < MICROS_PER_DAY" using c(2) smod_bounds by blast+
  with r(3) minus_sdiv[OF c(2), of ?u] show "\<bar>u\<bar> < MICROS_PER_DAY" by simp
  have "- 30 < ?u sdiv MICROS_PER_DAY" "?u sdiv MICROS_PER_DAY < 30"
    using sdiv_bound[OF c(2), of 30 ?u] ub unfolding c(1) by simp_all
  with k r(2) minus_sdiv[of 30 "days v"] show "\<bar>d\<bar> \<le> 58" by simp
qed

text \<open>On intervals whose microseconds stay below a day the comparison compares lengths.\<close>

definition within_day :: "interval_t \<Rightarrow> bool" where
  "within_day v = (0 \<le> days v \<and> 0 \<le> micros v \<and> micros v < MICROS_PER_DAY)"

lemma normalize_within_day:
  assumes "interval_ok v" "within_day v" "normalizeIntervalEntries v = (m, d, u)"
  shows "0 \<le> d" "d < 30" "0 \<le> u" "u < MICROS_PER_DAY"
proof -
  have z: "micros v sdiv MICROS_PER_MONTH = 0" "micros v sdiv MICROS_PER_DAY = 0"
    using assms(2) by (auto intro!: sdiv_trivial simp: within_day_def interval_constants)
  have "d = wrap32 (days v smod 30)" "u = micros v"
    using assms(3) z minus_sdiv[of 30 "days v"] by (auto simp: normalizeIntervalEntries_def Let_def DAYS_PER_MONTH_def)
  moreover have "0 \<le> days v smod 30" "days v smod 30 < 30" using assms(2) smod_bounds(2)[of 30 "days v"] by (simp_all add: within_day_def smod_nonneg)
  ultimately show "0 \<le> d" "d < 30" "0 \<le> u" "u < MICROS_PER_DAY" using assms(2) by (simp_all add: wrap32_id within_day_def)
qed

lemma greaterThan_total:
  assumes "interval_ok l" "interval_ok r" "within_day l" "within_day r"
  shows "greaterThan l r \<longleftrightarrow> total_micros l > total_micros r"
proof -
  obtain m d u where l: "normalizeIntervalEntries l = (m, d, u)" by (cases "normalizeIntervalEntries l")
  obtain m' d' u' where r: "normalizeIntervalEntries r = (m', d', u')" by (cases "normalizeIntervalEntries r")
  have c: "MICROS_PER_MONTH = 2592000000000" "MICROS_PER_DAY = 86400000000" by (simp_all add: interval_constants)
  have "total_micros l = m * 2592000000000 + d * 86400000000 + u" "total_micros r = m' * 2592000000000 + d' * 86400000000 + u'"
    using normalize_total(1)[OF assms(1) l] normalize_total(1)[OF assms(2) r] unfolding c by simp_all
  then show ?thesis using normalize_within_day[OF assms(1,3) l] normalize_within_day[OF assms(2,4) r] unfolding c
    by (simp add: greaterThan_def l r)
qed

text \<open>The strict comparison is a strict order on every interval, whatever its fields.\<close>

lemma greaterThan_irrefl: "\<not> greaterThan v v"
  by (simp add: greaterThan_def split: prod.split)

lemma greaterThan_trans: "greaterThan a b \<Longrightarrow> greaterThan b c \<Longrightarrow> greaterThan a c"
  by (auto simp: greaterThan_def split: prod.splits if_splits)

lemma greaterThan_neither: "\<not> greaterThan l r \<and> \<not> greaterThan r l \<longleftrightarrow> normalizeIntervalEntries l = normalizeIntervalEntries r"
  by (auto simp: greaterThan_def split: prod.splits if_splits)

lemma interval_eq_iff: "interval_eq l r \<longleftrightarrow> l = r"
  by (cases l; cases r) (auto simp: interval_eq_def)

text \<open>The days that the microseconds bring in stay days: one month more is always greater.\<close>

lemma greaterThan_next_month:
  assumes "0 \<le> days r" "days r < 30" "0 \<le> micros r" "micros r < MICROS_PER_MONTH"
  shows "greaterThan \<lparr>months = months r + 1, days = 0, micros = 0\<rparr> r"
proof -
  have "days r sdiv 30 = 0" "micros r sdiv MICROS_PER_MONTH = 0" using assms by (auto intro!: sdiv_trivial)
  then show ?thesis by (auto simp: greaterThan_def normalizeIntervalEntries_def Let_def DAYS_PER_MONTH_def)
qed



end
