(* ===== verification/DateOps.thy ===== *)
theory DateOps
  imports IntervalTypes
begin

text \<open>
  Operations on dates (\<open>common/types/date_t.cpp\<close>): the operators, the names and parts of a date,
  truncation, and the conversion from and to text with the helpers of \<open>cast_helpers.h\<close>.

  A buffer with its length and a position is the list of the characters from that position on.
\<close>

section \<open>Operators\<close>

definition date_eq :: "int \<Rightarrow> int \<Rightarrow> bool" where "date_eq l r = (l = r)"

definition date_ne :: "int \<Rightarrow> int \<Rightarrow> bool" where "date_ne l r = (l \<noteq> r)"

definition date_le :: "int \<Rightarrow> int \<Rightarrow> bool" where "date_le l r = (l \<le> r)"

definition date_lt :: "int \<Rightarrow> int \<Rightarrow> bool" where "date_lt l r = (l < r)"

definition date_gt :: "int \<Rightarrow> int \<Rightarrow> bool" where "date_gt l r = (l > r)"

definition date_ge :: "int \<Rightarrow> int \<Rightarrow> bool" where "date_ge l r = (l \<ge> r)"

definition date_add_interval :: "int \<Rightarrow> interval_t \<Rightarrow> int option" where
  "date_add_interval date interval =
     do { result \<leftarrow>
            (if months interval \<noteq> 0 then
               do { (year, month, day) \<leftarrow> convert date;
                    let year_diff = months interval sdiv MONTHS_PER_YEAR;
                    let year = year + year_diff;
                    let month = month + (months interval - year_diff * MONTHS_PER_YEAR);
                    let (year, month) =
                      (if month > MONTHS_PER_YEAR then (year + 1, month - MONTHS_PER_YEAR)
                       else if month \<le> 0 then (year - 1, month + MONTHS_PER_YEAR)
                       else (year, month));
                    maxDayInMonth \<leftarrow> monthDays year month;
                    fromDate year month (if day > maxDayInMonth then maxDayInMonth else day) }
             else Some date);
          result \<leftarrow> (if days interval \<noteq> 0 then i32 (result + days interval) else Some result);
          if micros interval \<noteq> 0 then i32 (result + wrap32 (micros interval sdiv MICROS_PER_DAY)) else Some result }"

definition date_sub_interval :: "int \<Rightarrow> interval_t \<Rightarrow> int option" where
  "date_sub_interval date interval =
     do { m \<leftarrow> i32 (- months interval);
          d \<leftarrow> i32 (- days interval);
          u \<leftarrow> i64 (- micros interval);
          date_add_interval date \<lparr>months = m, days = d, micros = u\<rparr> }"

text \<open>The difference is taken on the 32-bit fields and widened afterwards.\<close>

definition date_diff :: "int \<Rightarrow> int \<Rightarrow> int option" where
  "date_diff l r = i32 (l - r)"

definition date_add_days :: "int \<Rightarrow> int \<Rightarrow> int option" where
  "date_add_days date day = i32 (date + day)"

definition date_sub_days :: "int \<Rightarrow> int \<Rightarrow> int option" where
  "date_sub_days date day = i32 (date - day)"

section \<open>Names, parts and truncation\<close>

definition dayNames :: "string list" where
  "dayNames = [''Sunday'', ''Monday'', ''Tuesday'', ''Wednesday'', ''Thursday'', ''Friday'', ''Saturday'']"

definition getDayName :: "int \<Rightarrow> string option" where
  "getDayName date =
     do { i \<leftarrow> (if date < 0 then do { n \<leftarrow> i32 (- date); n \<leftarrow> i32 (n + 3); Some (7 - n smod 7) }
                else do { n \<leftarrow> i32 (date + 3); Some (n smod 7 + 1) });
          Some (dayNames ! nat (i smod 7)) }"

definition monthNames :: "string list" where
  "monthNames = [''January'', ''February'', ''March'', ''April'', ''May'', ''June'', ''July'', ''August'', ''September'',
     ''October'', ''November'', ''December'']"

definition getMonthName :: "int \<Rightarrow> string option" where
  "getMonthName date = do { (year, month, day) \<leftarrow> convert date; Some (monthNames ! nat (month - 1)) }"

definition getLastDay :: "int \<Rightarrow> int option" where
  "getLastDay date =
     do { (year, month, day) \<leftarrow> convert date;
          first \<leftarrow> fromDate (year + month sdiv 12) (month smod 12 + 1) 1;
          date_sub_days first 1 }"

definition getDatePart :: "DatePartSpecifier \<Rightarrow> int \<Rightarrow> int option" where
  "getDatePart specifier date =
     do { (year, month, day) \<leftarrow> convert date;
          case specifier of
            YEAR \<Rightarrow> do { (n, y, year_offset) \<leftarrow> extractYearOffset date; Some y }
          | MONTH \<Rightarrow> Some month
          | DAY \<Rightarrow> Some day
          | DECADE \<Rightarrow> Some (year sdiv 10)
          | CENTURY \<Rightarrow> Some (if year > 0 then (year - 1) sdiv 100 + 1 else year sdiv 100 - 1)
          | MILLENNIUM \<Rightarrow> Some (if year > 0 then (year - 1) sdiv 1000 + 1 else year sdiv 1000 - 1)
          | QUARTER \<Rightarrow> Some ((month - 1) sdiv MONTHS_PER_QUARTER + 1)
          | _ \<Rightarrow> Some 0 }"

definition trunc :: "DatePartSpecifier \<Rightarrow> int \<Rightarrow> int option" where
  "trunc specifier date =
     (case specifier of
        YEAR \<Rightarrow> do { y \<leftarrow> getDatePart YEAR date; fromDate y 1 1 }
      | MONTH \<Rightarrow> do { y \<leftarrow> getDatePart YEAR date; m \<leftarrow> getDatePart MONTH date; fromDate y m 1 }
      | DAY \<Rightarrow> Some date
      | DECADE \<Rightarrow> do { y \<leftarrow> getDatePart YEAR date; fromDate (y sdiv 10 * 10) 1 1 }
      | CENTURY \<Rightarrow> do { y \<leftarrow> getDatePart YEAR date; fromDate (y sdiv 100 * 100) 1 1 }
      | MILLENNIUM \<Rightarrow> do { y \<leftarrow> getDatePart YEAR date; fromDate (y sdiv 1000 * 1000) 1 1 }
      | QUARTER \<Rightarrow> do { (year, month, day) \<leftarrow> convert date; fromDate year (1 + ((month - 1) sdiv 3) * 3) 1 }
      | _ \<Rightarrow> Some date)"

definition date_getEpochNanoSeconds :: "int \<Rightarrow> int option" where
  "date_getEpochNanoSeconds date = i64 (date * (MICROS_PER_DAY * NANOS_PER_MICRO))"

section \<open>Text\<close>

definition isSpace :: "char \<Rightarrow> bool" where
  "isSpace c = (c = CHR '' '' \<or> c = CHR 0x09 \<or> c = CHR 0x0A \<or> c = CHR 0x0B \<or> c = CHR 0x0C \<or> c = CHR 0x0D)"

definition CharacterIsDigit :: "char \<Rightarrow> bool" where
  "CharacterIsDigit c = ((48 :: int) \<le> of_char c \<and> of_char c \<le> (57 :: int))"

definition digit_value :: "char \<Rightarrow> int" where
  "digit_value c = of_char c - 48"

fun parseDoubleDigit :: "string \<Rightarrow> (int \<times> string) option" where
  "parseDoubleDigit [] = None"
| "parseDoubleDigit (c # cs) =
     (if CharacterIsDigit c then
        Some (case cs of
                c' # cs' \<Rightarrow> if CharacterIsDigit c' then (digit_value c' + digit_value c * 10, cs') else (digit_value c, cs)
              | [] \<Rightarrow> (digit_value c, []))
      else None)"

text \<open>The loop over the digits of the year, which stops on the digit that exceeds the largest year.\<close>

fun parse_year :: "int \<Rightarrow> string \<Rightarrow> int \<times> string" where
  "parse_year year [] = (year, [])"
| "parse_year year (c # cs) =
     (if CharacterIsDigit c then
        let year = digit_value c + year * 10 in if year > MAX_YEAR then (year, c # cs) else parse_year year cs
      else (year, c # cs))"

definition tryConvertDate :: "string \<Rightarrow> bool \<Rightarrow> (int \<times> string) option" where
  "tryConvertDate buf allowTrailing =
     do { let cs = dropWhile isSpace buf;
          ku_assert (cs \<noteq> []);
          ku_assert (CharacterIsDigit (hd cs));
          let (year, cs) = parse_year 0 cs;
          ku_assert (cs \<noteq> []);
          let sep = hd cs;
          ku_assert (sep = CHR '' '' \<or> sep = CHR ''-'' \<or> sep = CHR ''/'' \<or> sep = CHR 0x5C);
          (month, cs) \<leftarrow> parseDoubleDigit (tl cs);
          ku_assert (length cs > 1);
          ku_assert (hd cs = sep);
          (day, cs) \<leftarrow> parseDoubleDigit (tl cs);
          let cs = dropWhile isSpace cs;
          ku_assert (cs = [] \<or> allowTrailing);
          result \<leftarrow> fromDate year month day;
          Some (result, cs) }"

definition date_fromCString :: "string \<Rightarrow> int option" where
  "date_fromCString str = map_option fst (tryConvertDate str False)"

definition digits :: string where
  "digits = ''0001020304050607080910111213141516171819'' @ ''2021222324252627282930313233343536373839'' @
     ''4041424344454647484950515253545556575859'' @ ''6061626364656667686970717273747576777879'' @
     ''8081828384858687888990919293949596979899''"

text \<open>The digits are written backwards from the end of the buffer, \<open>ptr\<close> being what has been written.\<close>

function FormatUnsigned :: "nat \<Rightarrow> string \<Rightarrow> string" where
  "FormatUnsigned v ptr =
     (if v \<ge> 100 then FormatUnsigned (v div 100) (digits ! ((v mod 100) * 2) # digits ! ((v mod 100) * 2 + 1) # ptr)
      else if v < 10 then char_of (48 + v) # ptr
      else digits ! (v * 2) # digits ! (v * 2 + 1) # ptr)"
  by pat_completeness auto

termination
  by (relation "measure fst") auto

declare FormatUnsigned.simps [simp del]

definition BC_SUFFIX :: string where "BC_SUFFIX = '' (BC)''"

text \<open>The year as it is printed, the width of its field and whether it is before the first year.\<close>

definition DateToStringCast_Length :: "int \<Rightarrow> nat \<times> int \<times> nat \<times> bool" where
  "DateToStringCast_Length year =
     (let (bc_length, y, addBC) = (if year \<le> 0 then (length BC_SUFFIX, - year + 1, True) else (0, year, False));
          yearLength = 4 + of_bool (y \<ge> 10000) + of_bool (y \<ge> 100000) + of_bool (y \<ge> 1000000) + of_bool (y \<ge> 10000000)
      in (6 + bc_length + yearLength, y, yearLength, addBC))"

definition format_field :: "int \<Rightarrow> string" where
  "format_field v = CHR ''-'' # (if v < 10 then [CHR ''0'', char_of (48 + nat v)] else [digits ! (nat v * 2), digits ! (nat v * 2 + 1)])"

text \<open>Writing before the start of the buffer is None.\<close>

definition DateToStringCast_Format :: "int \<Rightarrow> int \<Rightarrow> int \<Rightarrow> nat \<Rightarrow> bool \<Rightarrow> string option" where
  "DateToStringCast_Format year month day yearLen addBC =
     do { let ds = FormatUnsigned (nat year) [];
          ku_assert (length ds \<le> yearLen);
          Some (replicate (yearLen - length ds) CHR ''0'' @ ds @ format_field month @ format_field day @
                (if addBC then BC_SUFFIX else [])) }"

definition date_toString :: "int \<Rightarrow> string option" where
  "date_toString date =
     do { (year, month, day) \<leftarrow> convert date;
          let (len, y, yearLength, addBC) = DateToStringCast_Length year;
          buffer \<leftarrow> DateToStringCast_Format y month day yearLength addBC;
          ku_assert (length buffer = len);
          Some buffer }"

section \<open>What the operations compute\<close>

lemma smod_pos: "0 \<le> (x :: int) \<Longrightarrow> 0 < k \<Longrightarrow> x smod k = x mod k"
  by (simp add: signed_modulo_int_def sgn_if)

lemma sdiv_pos: "0 \<le> (x :: int) \<Longrightarrow> 0 < k \<Longrightarrow> x sdiv k = x div k"
  by (auto simp: signed_divide_int_def sgn_if)

text \<open>The days of the week come in turn; 1970-01-01 was a Thursday.\<close>

lemma getDayName_ok:
  assumes "- 2147483644 \<le> n" "n \<le> 2147483644"
  shows "getDayName n = Some (dayNames ! nat ((n + 4) mod 7))"
proof (cases "n < 0")
  case True
  have "(7 - (3 - n) mod 7) mod 7 = (7 - (3 - n)) mod 7" by (rule mod_diff_right_eq)
  then have "(7 - (3 - n) mod 7) mod 7 = (n + 4) mod 7" by (simp add: add.commute)
  moreover have "0 \<le> 7 - (3 - n) mod 7" using pos_mod_bound[of 7 "3 - n"] by simp
  ultimately show ?thesis using True assms by (simp add: getDayName_def i32_def smod_pos)
next
  case False
  have "((n + 3) mod 7 + 1) mod 7 = (n + 4) mod 7" using mod_add_left_eq[of "n + 3" 7 1] by (simp add: add.commute)
  then show ?thesis using False assms by (simp add: getDayName_def i32_def smod_pos)
qed

text \<open>The last day of a month is a day of that month and the day after it is not.\<close>

lemma convert_range:
  assumes "convert n = Some t"
  shows "- 106751981 \<le> n" "n < 106752347"
proof -
  have "\<exists>t. convert n = Some t" using assms by blast
  then show "- 106751981 \<le> n" "n < 106752347" unfolding convert_defined year_limits by simp_all
qed

lemma getLastDay_ok:
  assumes "convert n = Some (y, m, d)" "y < MAX_YEAR \<or> m < 12"
  obtains l where "getLastDay n = Some l" "convert l = Some (y, m, days_tab (isLeapYear y) ! nat m)"
proof -
  let ?last = "days_tab (isLeapYear y) ! nat m"
  have v: "isValid y m d" using assms(1) by (simp add: convert_iff)
  then have m: "1 \<le> m" "m \<le> 12" "1 \<le> ?last" by (auto simp: isValid_iff)
  obtain y' m' d' where t: "next_day (y, m, ?last) = (y', m', d')" by (cases "next_day (y, m, ?last)")
  have nd: "(y', m', d') = (if m < 12 then (y, m + 1, 1) else (y + 1, 1, 1))"
    unfolding t[symmetric] by (simp add: next_day_def days_tab_calendar[OF m(1,2)])
  note nn = next_day_number[OF m order_refl t]
  have v': "isValid y' m' d'" using nn(2-5) nd v assms(2) by (auto simp: isValid_iff split: if_splits)
  have sm: "m sdiv 12 = (if m < 12 then 0 else 1)" "m smod 12 = (if m < 12 then m else 0)"
    using m by (auto simp: sdiv_pos smod_pos div_pos_pos_trivial mod_pos_pos_trivial)
  have f: "fromDate (y + m sdiv 12) (m smod 12 + 1) 1 = Some (day_number y' m' d')"
    using nd v' m(2) by (cases "m < 12") (auto simp: sm fromDate_eq)
  have last: "convert (day_number y m ?last) = Some (y, m, ?last)" using v m by (auto simp: convert_iff isValid_iff)
  have "i32 (day_number y' m' d' - 1) = Some (day_number y m ?last)"
    using nn(1) convert_range[OF last] by (simp add: i32_def)
  then have "getLastDay n = Some (day_number y m ?last)"
    using f assms(1) by (simp add: getLastDay_def date_sub_days_def)
  then show thesis using last that by blast
qed

text \<open>
  Adding months moves to the month that many months later, on the same day or on the last day of a
  month that is shorter.
\<close>

lemma month_carry:
  fixes y m q r :: int
  assumes "1 \<le> m" "m \<le> 12" "- 12 < r" "r < 12"
    and p: "(yy, mm) = (if m + r > 12 then (y + q + 1, m + r - 12) else if m + r \<le> 0 then (y + q - 1, m + r + 12) else (y + q, m + r))"
  shows "yy = (12 * y + m - 1 + (12 * q + r)) div 12" "mm = (12 * y + m - 1 + (12 * q + r)) mod 12 + 1"
proof -
  have e: "12 * y + m - 1 + (12 * q + r) = (mm - 1) + yy * 12" and b: "0 \<le> mm - 1" "mm - 1 < 12"
    using assms by (auto split: if_splits)
  show "yy = (12 * y + m - 1 + (12 * q + r)) div 12" "mm = (12 * y + m - 1 + (12 * q + r)) mod 12 + 1"
    unfolding e using b by (simp_all only: div_mult_self1 mod_mult_self1 div_pos_pos_trivial mod_pos_pos_trivial)
qed

lemma add_months_ok:
  assumes "convert n = Some (y, m, d)" "k \<noteq> 0" and t: "t = 12 * y + m - 1 + k"
  shows "date_add_interval n \<lparr>months = k, days = 0, micros = 0\<rparr> =
    fromDate (t div 12) (t mod 12 + 1) (min d (days_tab (isLeapYear (t div 12)) ! nat (t mod 12 + 1)))"
proof -
  have v: "1 \<le> m" "m \<le> 12" using assms(1) by (auto simp: convert_iff isValid_iff)
  let ?q = "k sdiv 12"
  let ?p = "if m + k smod 12 > 12 then (y + ?q + 1, m + k smod 12 - 12) else if m + k smod 12 \<le> 0 then (y + ?q - 1, m + k smod 12 + 12)
    else (y + ?q, m + k smod 12)"
  have e: "k - ?q * 12 = k smod 12" by (rule minus_sdiv) simp
  obtain yy mm where p: "(yy, mm) = ?p" by (cases ?p) auto
  have "12 * ?q + k smod 12 = k" using e by simp
  then have "yy = t div 12" "mm = t mod 12 + 1"
    using month_carry[OF v smod_bounds(1)[of 12 k] smod_bounds(2)[of 12 k] p] t by simp_all
  moreover have "date_add_interval n \<lparr>months = k, days = 0, micros = 0\<rparr> =
      do { maxDay \<leftarrow> monthDays yy mm; fromDate yy mm (if d > maxDay then maxDay else d) }"
    using assms(1,2) p by (auto simp: date_add_interval_def MONTHS_PER_YEAR_def e Let_def split: if_splits)
  moreover have "monthDays (t div 12) (t mod 12 + 1) = Some (days_tab (isLeapYear (t div 12)) ! nat (t mod 12 + 1))"
    by (simp add: monthDays_def ku_assert_def days_tab_def add_nonneg_pos)
  ultimately show ?thesis by (simp add: min_def)
qed

section \<open>Truncation\<close>

lemma year_part: "convert n = Some (y, m, d) \<Longrightarrow> getDatePart YEAR n = Some y"
  by (auto simp: getDatePart_def convert_def ku_assert_def Let_def split: Option.bind_splits prod.splits if_splits)

lemma sum_tab_mono: "i \<le> j \<Longrightarrow> j < 12 \<Longrightarrow> sum_tab leap ! i \<le> sum_tab leap ! j"
  using sorted_nth_mono[of "sum_tab leap" i j]
  by (cases leap) (simp_all add: sum_tab_def CUMULATIVE_LEAP_DAYS_def CUMULATIVE_DAYS_def)

lemma month_first_le:
  assumes "1 \<le> m'" "m' \<le> m" "m \<le> 12" "1 \<le> d"
  shows "day_number y m' 1 \<le> day_number y m d"
proof -
  define yo q where "yo = nat ((y - 1970) mod 400)" and "q = (y - 1970) div 400"
  have y: "y = 1970 + 400 * q + int yo" "yo < 400" by (simp_all add: yo_def q_def)
  have "nat (m' - 1) \<le> nat (m - 1)" "nat (m - 1) < 12" using assms by simp_all
  from sum_tab_mono[OF this, of "isLeapYear y"] assms(4) show ?thesis unfolding day_number_tab[OF y] by linarith
qed

lemma sdiv_mult_le: "0 \<le> (y :: int) \<Longrightarrow> 0 < k \<Longrightarrow> y sdiv k * k \<le> y \<and> 0 \<le> y sdiv k * k"
  by (simp add: sdiv_pos) (metis div_mult_mod_eq le_add_same_cancel1 pos_imp_zdiv_nonneg_iff pos_mod_sign mult_nonneg_nonneg less_imp_le)

text \<open>
  A truncated date is never after the date, for years, quarters, months and days, and for the longer
  parts when the year is not negative.
\<close>

lemma trunc_le:
  assumes c: "convert n = Some (y, m, d)" and t: "trunc p n = Some l"
    and p: "p \<in> {DECADE, CENTURY, MILLENNIUM} \<Longrightarrow> 0 \<le> y"
  shows "l \<le> n"
proof -
  have v: "1 \<le> m" "m \<le> 12" "1 \<le> d" "d \<le> days_tab (isLeapYear y) ! nat m" "day_number y m d = n" using c by (auto simp: convert_iff isValid_iff)
  have first: "l \<le> n" if "fromDate y' 1 1 = Some l" "y' \<le> y" for y'
    using that first_of_year_mono[OF that(2)] day_number_in_year(1)[OF v(1-4)] v(5) by (simp add: fromDate_eq split: if_splits)
  have mon: "l \<le> n" if "fromDate y m' 1 = Some l" "1 \<le> m'" "m' \<le> m" for m'
    using that month_first_le[OF that(2,3) v(2,3), of y] v(5) by (simp add: fromDate_eq split: if_splits)
  have q: "1 \<le> 1 + (m - 1) sdiv 3 * 3" "1 + (m - 1) sdiv 3 * 3 \<le> m" using sdiv_mult_le[of "m - 1" 3] v(1) by simp_all
  have pm: "getDatePart MONTH n = Some m" using c by (simp add: getDatePart_def)
  show ?thesis
    using t p sdiv_mult_le[of y] first[of y] first[of "y sdiv 10 * 10"] first[of "y sdiv 100 * 100"] first[of "y sdiv 1000 * 1000"]
      mon[of m] mon[OF _ q] v(1)
    by (cases p) (simp_all add: trunc_def year_part[OF c] pm c)
qed

lemma trunc_decade_after: "trunc DECADE (day_number (- 5) 6 15) = Some (day_number 0 1 1) \<and> day_number (- 5) 6 15 < day_number 0 1 1"
  by code_simp

section \<open>Round trip through text\<close>

definition dec_value :: "int \<Rightarrow> string \<Rightarrow> int" where
  "dec_value = foldl (\<lambda>a c. digit_value c + a * 10)"

lemma dec_value_simps [simp]: "dec_value a [] = a" "dec_value a (c # cs) = dec_value (digit_value c + a * 10) cs"
  "dec_value a (xs @ ys) = dec_value (dec_value a xs) ys"
  by (simp_all add: dec_value_def)

lemma digit_pairs: "list_all (\<lambda>v. CharacterIsDigit (digits ! (v * 2)) \<and> CharacterIsDigit (digits ! (v * 2 + 1)) \<and>
    digit_value (digits ! (v * 2)) = int (v div 10) \<and> digit_value (digits ! (v * 2 + 1)) = int (v mod 10)) [0..<100]"
  by code_simp

lemma digit_singles: "list_all (\<lambda>v. CharacterIsDigit (char_of (48 + v)) \<and> digit_value (char_of (48 + v)) = int v) [0..<10]"
  by code_simp

lemma digit_pair:
  assumes "v < 100"
  shows "CharacterIsDigit (digits ! (v * 2))" "CharacterIsDigit (digits ! (v * 2 + 1))" "digit_value (digits ! (v * 2)) = int (v div 10)"
    "digit_value (digits ! (v * 2 + 1)) = int (v mod 10)"
  using digit_pairs assms by (simp_all add: list_all_iff)

lemma digit_single:
  assumes "v < 10"
  shows "CharacterIsDigit (char_of (48 + v))" "digit_value (char_of (48 + v)) = int v"
  using digit_singles assms by (simp_all add: list_all_iff)

lemma pair_value: "int (v mod 10) + (int (v div 10) + a * 10) * 10 = int v + a * 100"
  by (simp add: algebra_simps zdiv_int zmod_int)

text \<open>The digits written are those of the number and no more than it needs.\<close>

lemma FormatUnsigned_ok:
  "\<exists>ds. FormatUnsigned v ptr = ds @ ptr \<and> list_all CharacterIsDigit ds \<and> ds \<noteq> [] \<and>
     dec_value 0 ds = int v \<and> (\<forall>k. v < 10 ^ k \<longrightarrow> 0 < k \<longrightarrow> length ds \<le> k)"
proof (induction v ptr rule: FormatUnsigned.induct)
  case (1 v ptr)
  let ?p = "[digits ! ((v mod 100) * 2), digits ! ((v mod 100) * 2 + 1)]"
  show ?case
  proof (cases "v \<ge> 100")
    case True
    from 1[OF True] obtain ds where ds: "FormatUnsigned (v div 100) (?p @ ptr) = ds @ ?p @ ptr" "list_all CharacterIsDigit ds" "ds \<noteq> []"
      "dec_value 0 ds = int (v div 100)" "\<And>k. v div 100 < 10 ^ k \<Longrightarrow> 0 < k \<Longrightarrow> length ds \<le> k" by auto
    have "dec_value 0 (ds @ ?p) = int v"
      using digit_pair[of "v mod 100"] ds(4) pair_value[of "v mod 100" "int (v div 100)"] by (simp add: zdiv_int zmod_int)
    moreover have "length (ds @ ?p) \<le> k" if "v < 10 ^ k" "0 < k" for k
    proof -
      have "2 < k"
      proof (rule ccontr)
        assume "\<not> 2 < k"
        then have "(10 :: nat) ^ k \<le> 10 ^ 2" by (intro power_increasing) simp_all
        with that True show False by simp
      qed
      then have j: "k = Suc (Suc (k - 2))" "0 < k - 2" by simp_all
      have "(10 :: nat) ^ k = 10 ^ (k - 2) * 100" by (subst j(1)) simp
      then have "v div 100 < 10 ^ (k - 2)" using that(1) by (simp add: div_less_iff_less_mult)
      from ds(5)[OF this j(2)] j show ?thesis by simp
    qed
    ultimately show ?thesis using ds digit_pair[of "v mod 100"] True
      by (subst FormatUnsigned.simps) (auto intro!: exI[of _ "ds @ ?p"])
  next
    case False
    show ?thesis
    proof (cases "v < 10")
      case True
      then show ?thesis using False digit_single[OF True]
        by (subst FormatUnsigned.simps) (auto intro!: exI[of _ "[char_of (48 + v)]"])
    next
      case small: False
      have "Suc (Suc 0) \<le> k" if "v < 10 ^ k" "0 < k" for k using that small by (cases "k = 1") auto
      then show ?thesis using False small digit_pair[of v] pair_value[of v 0]
        by (subst FormatUnsigned.simps) (auto intro!: exI[of _ "[digits ! (v * 2), digits ! (v * 2 + 1)]"])
    qed
  qed
qed

lemma dec_value_ge: "list_all CharacterIsDigit ds \<Longrightarrow> 0 \<le> a \<Longrightarrow> a \<le> dec_value a ds"
proof (induction ds arbitrary: a)
  case (Cons c ds)
  then have "0 \<le> digit_value c" by (simp add: CharacterIsDigit_def digit_value_def)
  with Cons.prems have "0 \<le> digit_value c + a * 10" "a \<le> digit_value c + a * 10" by simp_all
  with Cons.IH[of "digit_value c + a * 10"] Cons.prems show ?case by simp
qed simp

lemma parse_year_ok:
  assumes "list_all CharacterIsDigit ds" "0 \<le> y" "dec_value y ds \<le> MAX_YEAR" "cs \<noteq> []" "\<not> CharacterIsDigit (hd cs)"
  shows "parse_year y (ds @ cs) = (dec_value y ds, cs)"
  using assms
proof (induction ds arbitrary: y)
  case Nil
  then show ?case by (cases cs) simp_all
next
  case (Cons c ds)
  then have "0 \<le> digit_value c + y * 10" by (simp add: CharacterIsDigit_def digit_value_def)
  moreover from this have "digit_value c + y * 10 \<le> MAX_YEAR" using Cons.prems dec_value_ge[of ds "digit_value c + y * 10"] by simp
  ultimately show ?case using Cons by simp
qed

lemma zero_digit: "CharacterIsDigit CHR ''0''" "digit_value CHR ''0'' = 0"
  by code_simp+

lemma parse_field:
  assumes "0 \<le> v" "v < 100"
  shows "parseDoubleDigit (tl (format_field v) @ cs) = Some (v, cs)"
proof (cases "v < 10")
  case True
  then have "nat v < 10" using assms by simp
  from digit_single[OF this] zero_digit True assms show ?thesis by (simp add: format_field_def)
next
  case False
  have n: "nat v < 100" using assms by simp
  from digit_pair[OF n] pair_value[of "nat v" 0] False assms show ?thesis by (simp add: format_field_def)
qed

lemma digit_not_space: "CharacterIsDigit c \<Longrightarrow> \<not> isSpace c"
  by (auto simp: CharacterIsDigit_def isSpace_def)

lemma year_width:
  assumes "0 < y" "y \<le> MAX_YEAR" "DateToStringCast_Length y = (len, y', w, bc)"
  shows "y' = y" "\<not> bc" "len = 6 + w" "nat y < 10 ^ w" "0 < w"
proof -
  have w: "y' = y" "\<not> bc" "len = 6 + w" "w = 4 + of_bool (y \<ge> 10000) + of_bool (y \<ge> 100000) + of_bool (y \<ge> 1000000) + of_bool (y \<ge> 10000000)"
    using assms by (auto simp: DateToStringCast_Length_def Let_def)
  then show "y' = y" "\<not> bc" "len = 6 + w" "0 < w" by simp_all
  show "nat y < 10 ^ w" using assms(1,2) unfolding w(4) by (cases "y \<ge> 100000"; cases "y \<ge> 10000") (simp_all add: MAX_YEAR_def)
qed

lemma date_text_ok:
  assumes c: "convert n = Some (y, m, d)" and y: "0 < y"
  shows "\<exists>s. date_toString n = Some s \<and> date_fromCString s = Some n"
proof -
  have v: "isValid y m d" "day_number y m d = n" using c by (simp_all add: convert_iff)
  have b: "1 \<le> m" "m \<le> 12" "1 \<le> d" "d \<le> 31" "y \<le> MAX_YEAR"
    using v(1) days_tab_calendar[of m y] by (auto simp: isValid_iff split: if_splits)
  obtain len y' w bc where l: "DateToStringCast_Length y = (len, y', w, bc)" by (cases "DateToStringCast_Length y")
  note w = year_width[OF y b(5) l]
  obtain ds where ds: "FormatUnsigned (nat y) [] = ds" "list_all CharacterIsDigit ds" "dec_value 0 ds = y" "length ds \<le> w" "ds \<noteq> []"
    using FormatUnsigned_ok[of "nat y" "[]"] w(4,5) y by auto
  let ?ys = "replicate (w - length ds) CHR ''0'' @ ds"
  have ys: "list_all CharacterIsDigit ?ys" "length ?ys = w" using ds zero_digit by (auto simp: list_all_iff)
  have "dec_value 0 (replicate k CHR ''0'') = 0" for k by (induction k) (simp_all add: zero_digit)
  then have val: "dec_value 0 ?ys = y" using ds(3) by simp
  define fs where "fs = format_field m @ format_field d"
  have fs: "fs = CHR ''-'' # tl (format_field m) @ CHR ''-'' # tl (format_field d)" "length fs = 6"
    by (simp_all add: fs_def format_field_def)
  have str: "date_toString n = Some (?ys @ fs)"
    using c l w ds ys(2) fs(2) by (simp add: date_toString_def DateToStringCast_Format_def ku_assert_def fs_def)
  have dash: "\<not> CharacterIsDigit CHR ''-''" by code_simp
  have hd: "dropWhile isSpace (?ys @ fs) = ?ys @ fs" "?ys @ fs \<noteq> []" "CharacterIsDigit (hd (?ys @ fs))"
    using ys(1) ds(5) by (cases ?ys; simp add: digit_not_space)+
  have "parse_year 0 (?ys @ fs) = (y, fs)" using parse_year_ok[OF ys(1), of 0 fs] val b(5) dash fs(1) by simp
  moreover have "parseDoubleDigit (tl fs) = Some (m, CHR ''-'' # tl (format_field d))" using parse_field[of m] b fs(1) by simp
  moreover have "parseDoubleDigit (tl (format_field d)) = Some (d, [])" using parse_field[of d "[]"] b by simp
  moreover have "length (tl (format_field d)) = 2" by (simp add: format_field_def)
  ultimately have "tryConvertDate (?ys @ fs) False = Some (n, [])"
    using hd fs(1) v by (simp add: tryConvertDate_def ku_assert_def Let_def fromDate_eq)
  then show ?thesis using str by (simp add: date_fromCString_def)
qed

text \<open>
  C18: The three representations of a date agree. A day number converts to a year, a month and a day
  exactly when these build it again; a day number whose conversion succeeds and the next one convert to
  consecutive days of the Gregorian calendar; and the text of a date from the year 1 on is parsed as
  the same date.
\<close>

theorem date_round_trip:
  "(convert n = Some (y, m, d) \<longleftrightarrow> fromDate y m d = Some n) \<and>
   (convert n = Some (y, m, d) \<longrightarrow> convert (n + 1) \<in> {None, Some (next_day (y, m, d))}) \<and>
   (convert n = Some (y, m, d) \<longrightarrow> 0 < y \<longrightarrow> (\<exists>s. date_toString n = Some s \<and> date_fromCString s = Some n))"
  using convert_iff[of n y m d] fromDate_eq[of y m d] convert_next[of n y m d] date_text_ok[of n y m d]
  by (cases "convert (n + 1)") auto

theorem date_round_trip_witness:
  "convert 19782 = Some (2024, 2, 29) \<and> fromDate 2024 2 29 = Some 19782 \<and> convert 19783 \<in> {None, Some (2024, 3, 1)} \<and>
   date_toString 19782 = Some ''2024-02-29'' \<and> date_fromCString ''2024-02-29'' = Some 19782"
proof -
  have "convert 19782 = Some (2024, 2, 29)" "next_day (2024, 2, 29) = (2024, 3, 1)" "date_toString 19782 = Some ''2024-02-29''" by code_simp+
  with date_round_trip[of 19782 2024 2 29] show ?thesis by simp
qed

end
