(* ===== verification/TimestampTypes.thy ===== *)
theory TimestampTypes
  imports DateOps
begin

text \<open>
  Times of day (\<open>common/types/dtime_t.cpp\<close>) and timestamps (\<open>common/types/timestamp_t.cpp\<close>).

  A time is the number of microseconds since midnight and a timestamp the number of microseconds since
  1970-01-01 00:00. A buffer with a position is again the list of the characters that follow. A parser
  that returns false, an exception and a failed assertion are None. The C library's \<open>isspace\<close> and
  \<open>isdigit\<close> are those of the C locale.
\<close>

section \<open>Times of day\<close>

definition time_eq :: "int \<Rightarrow> int \<Rightarrow> bool" where "time_eq l r = (l = r)"

definition time_ne :: "int \<Rightarrow> int \<Rightarrow> bool" where "time_ne l r = (l \<noteq> r)"

definition time_le :: "int \<Rightarrow> int \<Rightarrow> bool" where "time_le l r = (l \<le> r)"

definition time_lt :: "int \<Rightarrow> int \<Rightarrow> bool" where "time_lt l r = (l < r)"

definition time_gt :: "int \<Rightarrow> int \<Rightarrow> bool" where "time_gt l r = (l > r)"

definition time_ge :: "int \<Rightarrow> int \<Rightarrow> bool" where "time_ge l r = (l \<ge> r)"

definition time_isValid :: "int \<Rightarrow> int \<Rightarrow> int \<Rightarrow> int \<Rightarrow> bool" where
  "time_isValid hour minute second microseconds =
     (if hour > 23 \<or> hour < 0 \<or> minute > 59 \<or> minute < 0 \<or> second > 59 \<or> second < 0 \<or>
         microseconds > 999999 \<or> microseconds < 0 then False else True)"

definition fromTimeInternal :: "int \<Rightarrow> int \<Rightarrow> int \<Rightarrow> int \<Rightarrow> int" where
  "fromTimeInternal hour minute second microseconds =
     (let result = hour;
          result = result * MINS_PER_HOUR + minute;
          result = result * SECS_PER_MINUTE + second
      in result * MICROS_PER_SEC + microseconds)"

definition fromTime :: "int \<Rightarrow> int \<Rightarrow> int \<Rightarrow> int \<Rightarrow> int option" where
  "fromTime hour minute second microseconds =
     (if \<not> time_isValid hour minute second microseconds then None
      else Some (fromTimeInternal hour minute second microseconds))"

definition time_convert :: "int \<Rightarrow> (int \<times> int \<times> int \<times> int) option" where
  "time_convert time =
     do { let hour = wrap32 (time sdiv MICROS_PER_HOUR);
          let time = time - hour * MICROS_PER_HOUR;
          let min = wrap32 (time sdiv MICROS_PER_MINUTE);
          let time = time - min * MICROS_PER_MINUTE;
          let sec = wrap32 (time sdiv MICROS_PER_SEC);
          let time = time - sec * MICROS_PER_SEC;
          let u = wrap32 time;
          ku_assert (time_isValid hour min sec u);
          Some (hour, min, sec, u) }"

text \<open>The hours, at most nine digits, and the digits after the point.\<close>

fun parse_hour :: "nat \<Rightarrow> int \<Rightarrow> string \<Rightarrow> (int \<times> string) option" where
  "parse_hour k hour [] = Some (hour, [])"
| "parse_hour k hour (c # cs) =
     (if CharacterIsDigit c then
        case k of 0 \<Rightarrow> None | Suc k' \<Rightarrow> parse_hour k' (hour * 10 + digit_value c) cs
      else Some (hour, c # cs))"

fun parse_micros :: "int \<Rightarrow> int \<Rightarrow> string \<Rightarrow> int \<times> string" where
  "parse_micros mul u [] = (u, [])"
| "parse_micros mul u (c # cs) =
     (if CharacterIsDigit c then parse_micros (mul sdiv 10) (if mul > 0 then u + digit_value c * mul else u) cs
      else (u, c # cs))"

definition tryConvertInternal :: "string \<Rightarrow> (int \<times> string) option" where
  "tryConvertInternal buf =
     do { let cs = dropWhile isSpace buf;
          ku_assert (cs \<noteq> []);
          ku_assert (CharacterIsDigit (hd cs));
          (hour, cs) \<leftarrow> parse_hour 9 0 cs;
          ku_assert (cs \<noteq> []);
          ku_assert (hd cs = CHR '':'');
          (min, cs) \<leftarrow> parseDoubleDigit (tl cs);
          ku_assert (\<not> (min < 0 \<or> min \<ge> 60));
          ku_assert (cs \<noteq> []);
          ku_assert (hd cs = CHR '':'');
          (sec, cs) \<leftarrow> parseDoubleDigit (tl cs);
          ku_assert (\<not> (sec < 0 \<or> sec \<ge> 60));
          let (u, cs) = (if cs \<noteq> [] \<and> hd cs = CHR ''.'' then parse_micros 100000 0 (tl cs) else (0, cs));
          Some (fromTimeInternal hour min sec u, cs) }"

definition tryConvertInterval :: "string \<Rightarrow> int option" where
  "tryConvertInterval buf =
     do { (result, cs) \<leftarrow> tryConvertInternal buf;
          ku_assert (dropWhile isSpace cs = []);
          Some result }"

definition tryConvertTime :: "string \<Rightarrow> (int \<times> string) option" where
  "tryConvertTime buf =
     do { (result, cs) \<leftarrow> tryConvertInternal buf;
          ku_assert (result < MICROS_PER_DAY);
          Some (result, cs) }"

definition time_fromCString :: "string \<Rightarrow> int option" where
  "time_fromCString buf = map_option fst (tryConvertTime buf)"

text \<open>The microseconds are written into six characters and the zeros at the end are counted.\<close>

definition FormatMicros :: "int \<Rightarrow> (string \<times> nat) option" where
  "FormatMicros microseconds =
     do { let ds = FormatUnsigned (nat microseconds) [];
          ku_assert (length ds \<le> 6);
          let micro_buffer = replicate (6 - length ds) CHR ''0'' @ ds;
          Some (micro_buffer, length (takeWhile (\<lambda>i. micro_buffer ! i = CHR ''0'') [5, 4, 3, 2, 1])) }"

definition FormatTwoDigits :: "int \<Rightarrow> string" where
  "FormatTwoDigits v = (if v < 10 then [CHR ''0'', char_of (48 + nat v)] else [digits ! (nat v * 2), digits ! (nat v * 2 + 1)])"

definition TimeToStringCast_Length :: "int \<Rightarrow> (nat \<times> string) option" where
  "TimeToStringCast_Length u =
     (if u = 0 then Some (8, [])
      else do { (micro_buffer, trailing_zeros) \<leftarrow> FormatMicros u; Some (15 - trailing_zeros, micro_buffer) })"

definition TimeToStringCast_Format :: "nat \<Rightarrow> int \<Rightarrow> int \<Rightarrow> int \<Rightarrow> string \<Rightarrow> string" where
  "TimeToStringCast_Format len hour minute sec micro_buffer =
     FormatTwoDigits hour @ CHR '':'' # FormatTwoDigits minute @ CHR '':'' # FormatTwoDigits sec @
     (if len > 8 then CHR ''.'' # take (len - 9) micro_buffer else [])"

definition time_toString :: "int \<Rightarrow> string option" where
  "time_toString time =
     do { (hour, min, sec, u) \<leftarrow> time_convert time;
          (len, micro_buffer) \<leftarrow> TimeToStringCast_Length u;
          let buffer = TimeToStringCast_Format len hour min sec micro_buffer;
          ku_assert (length buffer = len);
          Some buffer }"

section \<open>Timestamps\<close>

definition getDate :: "int \<Rightarrow> int" where
  "getDate timestamp = wrap32 ((timestamp + of_bool (timestamp < 0)) sdiv MICROS_PER_DAY - of_bool (timestamp < 0))"

definition getTime :: "int \<Rightarrow> int" where
  "getTime timestamp = timestamp - getDate timestamp * MICROS_PER_DAY"

definition timestamp_convert :: "int \<Rightarrow> int \<times> int" where
  "timestamp_convert timestamp = (getDate timestamp, getTime timestamp)"

definition fromDateTime :: "int \<Rightarrow> int \<Rightarrow> int option" where
  "fromDateTime date time =
     do { (year, month, day) \<leftarrow> convert date;
          (hour, minute, second, microsecond) \<leftarrow> time_convert time;
          v \<leftarrow> i64 (date * MICROS_PER_DAY);
          i64 (v + time) }"

definition ts_eq :: "int \<Rightarrow> int \<Rightarrow> bool" where "ts_eq l r = (l = r)"

definition ts_ne :: "int \<Rightarrow> int \<Rightarrow> bool" where "ts_ne l r = (l \<noteq> r)"

definition ts_le :: "int \<Rightarrow> int \<Rightarrow> bool" where "ts_le l r = (l \<le> r)"

definition ts_lt :: "int \<Rightarrow> int \<Rightarrow> bool" where "ts_lt l r = (l < r)"

definition ts_gt :: "int \<Rightarrow> int \<Rightarrow> bool" where "ts_gt l r = (l > r)"

definition ts_ge :: "int \<Rightarrow> int \<Rightarrow> bool" where "ts_ge l r = (l \<ge> r)"

text \<open>Comparisons of a date with a timestamp, and of a timestamp with a date.\<close>

definition date_eq_ts :: "int \<Rightarrow> int \<Rightarrow> bool option" where
  "date_eq_ts date rhs = do { v \<leftarrow> fromDateTime date 0; Some (v = rhs) }"

definition date_ne_ts :: "int \<Rightarrow> int \<Rightarrow> bool option" where
  "date_ne_ts date rhs = map_option Not (date_eq_ts date rhs)"

definition date_lt_ts :: "int \<Rightarrow> int \<Rightarrow> bool option" where
  "date_lt_ts date rhs = do { v \<leftarrow> fromDateTime date 0; Some (v < rhs) }"

definition date_le_ts :: "int \<Rightarrow> int \<Rightarrow> bool option" where
  "date_le_ts date rhs = do { lt \<leftarrow> date_lt_ts date rhs; if lt then Some True else date_eq_ts date rhs }"

definition date_gt_ts :: "int \<Rightarrow> int \<Rightarrow> bool option" where
  "date_gt_ts date rhs = map_option Not (date_le_ts date rhs)"

definition date_ge_ts :: "int \<Rightarrow> int \<Rightarrow> bool option" where
  "date_ge_ts date rhs = map_option Not (date_lt_ts date rhs)"

definition ts_eq_date :: "int \<Rightarrow> int \<Rightarrow> bool option" where "ts_eq_date l rhs = date_eq_ts rhs l"

definition ts_ne_date :: "int \<Rightarrow> int \<Rightarrow> bool option" where "ts_ne_date l rhs = map_option Not (date_eq_ts rhs l)"

definition ts_lt_date :: "int \<Rightarrow> int \<Rightarrow> bool option" where "ts_lt_date l rhs = date_gt_ts rhs l"

definition ts_le_date :: "int \<Rightarrow> int \<Rightarrow> bool option" where "ts_le_date l rhs = date_ge_ts rhs l"

definition ts_gt_date :: "int \<Rightarrow> int \<Rightarrow> bool option" where "ts_gt_date l rhs = date_lt_ts rhs l"

definition ts_ge_date :: "int \<Rightarrow> int \<Rightarrow> bool option" where "ts_ge_date l rhs = date_le_ts rhs l"

definition ts_add_interval :: "int \<Rightarrow> interval_t \<Rightarrow> int option" where
  "ts_add_interval timestamp interval =
     do { let (date, time) = timestamp_convert timestamp;
          date \<leftarrow> date_add_interval date interval;
          let diff = micros interval - micros interval sdiv MICROS_PER_DAY * MICROS_PER_DAY;
          let time = time + diff;
          (date, time) \<leftarrow>
            (if time \<ge> MICROS_PER_DAY then do { d \<leftarrow> i32 (date + 1); Some (d, time - MICROS_PER_DAY) }
             else if time < 0 then do { d \<leftarrow> i32 (date - 1); Some (d, time + MICROS_PER_DAY) }
             else Some (date, time));
          fromDateTime date time }"

definition ts_sub_interval :: "int \<Rightarrow> interval_t \<Rightarrow> int option" where
  "ts_sub_interval timestamp interval =
     do { m \<leftarrow> i32 (- months interval);
          d \<leftarrow> i32 (- days interval);
          u \<leftarrow> i64 (- micros interval);
          ts_add_interval timestamp \<lparr>months = m, days = d, micros = u\<rparr> }"

definition ts_sub :: "int \<Rightarrow> int \<Rightarrow> interval_t option" where
  "ts_sub l rhs =
     do { v \<leftarrow> i64 (l - rhs);
          diff \<leftarrow> i64 \<bar>v\<bar>;
          let d = wrap32 (diff div MICROS_PER_DAY);
          let u = diff mod MICROS_PER_DAY;
          Some (if l < rhs then \<lparr>months = 0, days = - d, micros = - u\<rparr> else \<lparr>months = 0, days = d, micros = u\<rparr>) }"

definition interval_add_ts :: "interval_t \<Rightarrow> int \<Rightarrow> int option" where "interval_add_ts interval rhs = ts_add_interval rhs interval"

definition interval_add_date :: "interval_t \<Rightarrow> int \<Rightarrow> int option" where "interval_add_date interval rhs = date_add_interval rhs interval"

section \<open>Timestamps and text\<close>

definition tryParseUTCOffset :: "string \<Rightarrow> (int \<times> int \<times> string) option" where
  "tryParseUTCOffset str =
     do { ku_assert (\<not> length str < 3);
          let sign_char = hd str;
          ku_assert (\<not> (sign_char \<noteq> CHR ''+'' \<and> sign_char \<noteq> CHR ''-''));
          ku_assert (CharacterIsDigit (str ! 1) \<and> CharacterIsDigit (str ! 2));
          let h = digit_value (str ! 1) * 10 + digit_value (str ! 2);
          let hour_offset = (if sign_char = CHR ''-'' then - h else h);
          let cs = drop 3 str;
          if cs = [] then Some (hour_offset, 0, cs)
          else do {
            let cs = (if hd cs = CHR '':'' then tl cs else cs);
            if length cs < 2 \<or> \<not> CharacterIsDigit (cs ! 0) \<or> \<not> CharacterIsDigit (cs ! 1) then Some (hour_offset, 0, cs)
            else do {
              let m = digit_value (cs ! 0) * 10 + digit_value (cs ! 1);
              Some (hour_offset, if sign_char = CHR ''-'' then - m else m, drop 2 cs) } } }"

definition tryConvertTimestamp :: "string \<Rightarrow> int option" where
  "tryConvertTimestamp str =
     do { (date, cs) \<leftarrow> tryConvertDate str True;
          if cs = [] then fromDateTime date 0
          else do {
            let cs = (if hd cs = CHR '' '' \<or> hd cs = CHR ''T'' then tl cs else cs);
            (time, cs) \<leftarrow> tryConvertTime cs;
            result \<leftarrow> fromDateTime date time;
            if cs = [] then Some result
            else do {
              let cs = (if hd cs = CHR ''Z'' then tl cs else cs);
              (result, cs) \<leftarrow>
                (case tryParseUTCOffset cs of
                   Some (hour_offset, minute_offset, cs) \<Rightarrow>
                     do { v \<leftarrow> i64 (result - (hour_offset * MICROS_PER_HOUR + minute_offset * MICROS_PER_MINUTE)); Some (v, cs) }
                 | None \<Rightarrow> Some (result, cs));
              ku_assert (dropWhile isSpace cs = []);
              Some result } } }"

definition timestamp_fromCString :: "string \<Rightarrow> int option" where
  "timestamp_fromCString str = tryConvertTimestamp str"

definition timestamp_toString :: "int \<Rightarrow> string option" where
  "timestamp_toString timestamp =
     do { let (date, time) = timestamp_convert timestamp;
          d \<leftarrow> date_toString date;
          t \<leftarrow> time_toString time;
          Some (d @ '' '' @ t) }"

section \<open>Epochs, parts and truncation\<close>

definition fromEpochMicroSeconds :: "int \<Rightarrow> int" where "fromEpochMicroSeconds u = u"

definition fromEpochMilliSeconds :: "int \<Rightarrow> int option" where
  "fromEpochMilliSeconds ms = do { u \<leftarrow> i64 (ms * MICROS_PER_MSEC); Some (fromEpochMicroSeconds u) }"

definition fromEpochSeconds :: "int \<Rightarrow> int option" where
  "fromEpochSeconds sec = do { u \<leftarrow> i64 (sec * MICROS_PER_SEC); Some (fromEpochMicroSeconds u) }"

definition fromEpochNanoSeconds :: "int \<Rightarrow> int" where
  "fromEpochNanoSeconds ns = fromEpochMicroSeconds (ns sdiv 1000)"

definition timestamp_microsecond :: "int \<Rightarrow> int" where
  "timestamp_microsecond timestamp = wrap32 (getTime timestamp smod MICROS_PER_MINUTE)"

definition getTimestampPart :: "DatePartSpecifier \<Rightarrow> int \<Rightarrow> int option" where
  "getTimestampPart specifier timestamp =
     (case specifier of
        MICROSECOND \<Rightarrow> Some (timestamp_microsecond timestamp)
      | MILLISECOND \<Rightarrow> Some (timestamp_microsecond timestamp sdiv MICROS_PER_MSEC)
      | SECOND \<Rightarrow> Some (timestamp_microsecond timestamp sdiv MICROS_PER_SEC)
      | MINUTE \<Rightarrow> Some ((getTime timestamp smod MICROS_PER_HOUR) sdiv MICROS_PER_MINUTE)
      | HOUR \<Rightarrow> Some (wrap32 (getTime timestamp sdiv MICROS_PER_HOUR))
      | _ \<Rightarrow> getDatePart specifier (getDate timestamp))"

definition timestamp_trunc :: "DatePartSpecifier \<Rightarrow> int \<Rightarrow> int option" where
  "timestamp_trunc specifier timestamp =
     do { let (date, time) = timestamp_convert timestamp;
          (hour, min, sec, u) \<leftarrow> time_convert time;
          case specifier of
            MICROSECOND \<Rightarrow> Some timestamp
          | MILLISECOND \<Rightarrow> do { t \<leftarrow> fromTime hour min sec (u - u smod MICROS_PER_MSEC); fromDateTime date t }
          | SECOND \<Rightarrow> do { t \<leftarrow> fromTime hour min sec 0; fromDateTime date t }
          | MINUTE \<Rightarrow> do { t \<leftarrow> fromTime hour min 0 0; fromDateTime date t }
          | HOUR \<Rightarrow> do { t \<leftarrow> fromTime hour 0 0 0; fromDateTime date t }
          | _ \<Rightarrow> do { d \<leftarrow> trunc specifier (getDate timestamp); fromDateTime d 0 } }"

definition ts_getEpochNanoSeconds :: "int \<Rightarrow> int option" where
  "ts_getEpochNanoSeconds timestamp = i64 (timestamp * NANOS_PER_MICRO)"

definition getEpochMilliSeconds :: "int \<Rightarrow> int" where
  "getEpochMilliSeconds timestamp = timestamp sdiv MICROS_PER_MSEC"

definition getEpochSeconds :: "int \<Rightarrow> int" where
  "getEpochSeconds timestamp = timestamp sdiv MICROS_PER_SEC"

section \<open>What the conversions compute\<close>

lemma micros_values:
  "MICROS_PER_DAY = 86400000000" "MICROS_PER_HOUR = 3600000000" "MICROS_PER_MINUTE = 60000000" "MICROS_PER_SEC = 1000000"
  by (simp_all add: interval_constants)

text \<open>A time of day and its fields determine one another.\<close>

lemma time_isValid_iff:
  "time_isValid h mi s u \<longleftrightarrow> 0 \<le> h \<and> h \<le> 23 \<and> 0 \<le> mi \<and> mi \<le> 59 \<and> 0 \<le> s \<and> s \<le> 59 \<and> 0 \<le> u \<and> u \<le> 999999"
  by (auto simp: time_isValid_def)

lemma time_fields:
  assumes "0 \<le> h" "h \<le> 23" "0 \<le> mi" "mi \<le> 59" "0 \<le> s" "s \<le> 59" "0 \<le> u" "u \<le> 999999"
  shows "time_convert (fromTimeInternal h mi s u) = Some (h, mi, s, u)"
proof -
  define t where "t = ((h * 60 + mi) * 60 + s) * 1000000 + u"
  have t: "fromTimeInternal h mi s u = t" by (simp add: t_def fromTimeInternal_def Let_def interval_constants)
  have a: "t sdiv 3600000000 = h" "(t - h * 3600000000) sdiv 60000000 = mi" "(t - h * 3600000000 - mi * 60000000) sdiv 1000000 = s"
    "t - h * 3600000000 - mi * 60000000 - s * 1000000 = u"
    using assms unfolding t_def by (simp_all add: sdiv_pos)
  show ?thesis using assms unfolding t time_convert_def micros_values
    by (simp add: a wrap32_id Let_def time_isValid_def ku_assert_def)
qed

lemma time_convert_ok:
  assumes "0 \<le> t" "t < MICROS_PER_DAY"
  obtains h mi s u where "time_convert t = Some (h, mi, s, u)" "fromTime h mi s u = Some t"
proof -
  define x where "x = t div 1000000"
  define y where "y = x div 60"
  have x: "0 \<le> x" "x < 86400" "t = x * 1000000 + t mod 1000000" using assms unfolding x_def micros_values by (simp_all add: div_mult_mod_eq) 
  have y: "0 \<le> y" "y < 1440" "x = y * 60 + x mod 60" using x(1,2) unfolding y_def by (simp_all add: div_mult_mod_eq)
  have b: "0 \<le> y div 60" "y div 60 \<le> 23" "0 \<le> y mod 60" "y mod 60 \<le> 59" "0 \<le> x mod 60" "x mod 60 \<le> 59" "0 \<le> t mod 1000000" "t mod 1000000 \<le> 999999"
    using y(1,2) by simp_all
  have "fromTimeInternal (y div 60) (y mod 60) (x mod 60) (t mod 1000000) = (y * 60 + x mod 60) * 1000000 + t mod 1000000"
    by (simp only: fromTimeInternal_def Let_def interval_constants div_mult_mod_eq)
  also have "\<dots> = t" using x(3) y(3) by simp
  finally have e: "fromTimeInternal (y div 60) (y mod 60) (x mod 60) (t mod 1000000) = t" .
  have "time_isValid (y div 60) (y mod 60) (x mod 60) (t mod 1000000)" unfolding time_isValid_iff using b by blast
  then have "fromTime (y div 60) (y mod 60) (x mod 60) (t mod 1000000) = Some t" by (simp only: fromTime_def e not_True_eq_False if_False)
  with time_fields[OF b] show thesis unfolding e by (rule that)
qed

lemma time_round_trip: "time_convert t = Some (h, mi, s, u) \<and> 0 \<le> t \<and> t < MICROS_PER_DAY \<longleftrightarrow> fromTime h mi s u = Some t"
proof
  assume a: "time_convert t = Some (h, mi, s, u) \<and> 0 \<le> t \<and> t < MICROS_PER_DAY"
  then obtain h' mi' s' u' where "time_convert t = Some (h', mi', s', u')" "fromTime h' mi' s' u' = Some t" using time_convert_ok by blast
  with a show "fromTime h mi s u = Some t" by simp
next
  assume a: "fromTime h mi s u = Some t"
  then have b: "0 \<le> h" "h \<le> 23" "0 \<le> mi" "mi \<le> 59" "0 \<le> s" "s \<le> 59" "0 \<le> u" "u \<le> 999999" "fromTimeInternal h mi s u = t"
    by (auto simp: fromTime_def time_isValid_def split: if_splits)
  then have "t = ((h * 60 + mi) * 60 + s) * 1000000 + u" by (simp add: fromTimeInternal_def Let_def interval_constants)
  with b time_fields[OF b(1-8)] show "time_convert t = Some (h, mi, s, u) \<and> 0 \<le> t \<and> t < MICROS_PER_DAY" by (simp add: micros_values)
qed

text \<open>The date of a timestamp is the quotient rounded down, before the epoch as well.\<close>

lemma getDate_eq:
  assumes "i64 v = Some v"
  shows "getDate v = v div MICROS_PER_DAY"
proof -
  have b: "- 9223372036854775808 \<le> v" "v \<le> 9223372036854775807" using assms by (simp_all add: i64_def split: if_splits)
  have q: "(v + of_bool (v < 0)) sdiv MICROS_PER_DAY - of_bool (v < 0) = v div MICROS_PER_DAY"
  proof (cases "v < 0")
    case True
    have "v = v div MICROS_PER_DAY * MICROS_PER_DAY + v mod MICROS_PER_DAY" by simp
    then have "- v - 1 = (MICROS_PER_DAY - 1 - v mod MICROS_PER_DAY) + (- (v div MICROS_PER_DAY) - 1) * MICROS_PER_DAY"
      by (simp add: algebra_simps)
    then have "(- v - 1) div MICROS_PER_DAY = - (v div MICROS_PER_DAY) - 1"
      by (simp add: div_mult_self1 micros_values div_pos_pos_trivial)
    moreover have "(v + 1) sdiv MICROS_PER_DAY = - ((- v - 1) div MICROS_PER_DAY)"
      using True unfolding micros_values by (cases "v = - 1") (simp_all add: signed_divide_int_def sgn_if)
    ultimately show ?thesis using True by simp
  qed (simp add: sdiv_pos micros_values)
  have "- 106751992 \<le> v div 86400000000" "v div 86400000000 \<le> 106751991" using b by linarith+
  then show ?thesis unfolding getDate_def q by (simp add: wrap32_id micros_values)
qed

lemma getTime_eq: "i64 v = Some v \<Longrightarrow> getTime v = v mod MICROS_PER_DAY"
  by (simp add: getTime_def getDate_eq minus_div_mult_eq_mod)

lemma getTime_range: "i64 v = Some v \<Longrightarrow> 0 \<le> getTime v" "i64 v = Some v \<Longrightarrow> getTime v < MICROS_PER_DAY"
  by (simp_all add: getTime_eq micros_values)

text \<open>
  A timestamp splits into a date and a time that build it again, except for the timestamps of the
  eleven earliest days, whose year is before the smallest one.
\<close>

lemma fromDateTime_eq:
  assumes "0 \<le> t" "t < MICROS_PER_DAY"
  shows "fromDateTime date t =
    (if convert date = None then None else do { v \<leftarrow> i64 (date * MICROS_PER_DAY); i64 (v + t) })"
proof -
  obtain h mi s u where "time_convert t = Some (h, mi, s, u)" "fromTime h mi s u = Some t" by (rule time_convert_ok[OF assms])
  then show ?thesis by (cases "convert date") (auto simp: fromDateTime_def)
qed

lemma convert_None_iff: "convert n = None \<longleftrightarrow> n < - 106751981 \<or> 106752347 \<le> n"
proof -
  have "convert n \<noteq> None \<longleftrightarrow> - 106751981 \<le> n \<and> n < 106752347"
    unfolding year_limits[symmetric] convert_defined[symmetric] by (rule not_None_eq)
  then show ?thesis by linarith
qed

lemma i64_iff: "i64 v = Some w \<longleftrightarrow> w = v \<and> - 9223372036854775808 \<le> v \<and> v \<le> 9223372036854775807"
  by (auto simp: i64_def)

lemma fromDateTime_value:
  assumes v: "i64 v = Some v" and t: "0 \<le> t" "t < MICROS_PER_DAY" "v = date * MICROS_PER_DAY + t" and c: "- 106751981 \<le> date"
  shows "fromDateTime date t = Some v"
proof -
  have b: "date \<le> 106751991" using v t by (simp add: i64_iff micros_values)
  then have "convert date \<noteq> None" using c unfolding convert_None_iff by simp
  moreover have "i64 (date * MICROS_PER_DAY) = Some (date * MICROS_PER_DAY)" using b c by (simp add: i64_iff micros_values)
  ultimately show ?thesis using v t by (simp add: fromDateTime_eq)
qed

lemma timestamp_round_trip_ok:
  assumes "i64 v = Some v"
  shows "fromDateTime (getDate v) (getTime v) = (if v < - 106751981 * MICROS_PER_DAY then None else Some v)"
proof (cases "v < - 106751981 * MICROS_PER_DAY")
  case True
  then have "v div MICROS_PER_DAY < - 106751981" unfolding micros_values by simp
  then show ?thesis using True assms getTime_range[OF assms] by (simp add: fromDateTime_eq getDate_eq convert_None_iff)
next
  case False
  then have "- 106751981 \<le> v div MICROS_PER_DAY" unfolding micros_values by simp
  moreover have "v = getDate v * MICROS_PER_DAY + getTime v" by (simp add: getTime_def)
  ultimately show ?thesis using False fromDateTime_value[OF assms getTime_range[OF assms]] getDate_eq[OF assms] by simp
qed

text \<open>Adding the difference of two timestamps to the second gives the first.\<close>

lemma ts_sub_fields:
  assumes "i64 (l - r) = Some (l - r)" "i64 \<bar>l - r\<bar> = Some \<bar>l - r\<bar>"
  obtains d u where "ts_sub l r = Some \<lparr>months = 0, days = d, micros = u\<rparr>" "l - r = d * MICROS_PER_DAY + u" "\<bar>u\<bar> < MICROS_PER_DAY"
proof -
  define q where "q = \<bar>l - r\<bar> div MICROS_PER_DAY"
  define k where "k = \<bar>l - r\<bar> mod MICROS_PER_DAY"
  have e: "\<bar>l - r\<bar> = q * MICROS_PER_DAY + k" by (simp add: q_def k_def)
  have k: "0 \<le> k" "k < MICROS_PER_DAY" by (simp_all add: k_def micros_values)
  have "q * MICROS_PER_DAY + k \<le> 9223372036854775807" using assms(2) unfolding i64_iff e by simp
  then have "q \<le> 106751991" using k(1) unfolding micros_values by linarith
  moreover have "0 \<le> q" unfolding q_def micros_values by simp
  ultimately have w: "wrap32 q = q" by (simp add: wrap32_id)
  show thesis
  proof (cases "l < r")
    case True
    then have "ts_sub l r = Some \<lparr>months = 0, days = - q, micros = - k\<rparr>"
      unfolding ts_sub_def assms bind.bind_lunit Let_def q_def[symmetric] k_def[symmetric] w by simp
    then show thesis using True e k by (intro that[of "- q" "- k"]) simp_all
  next
    case False
    then have "ts_sub l r = Some \<lparr>months = 0, days = q, micros = k\<rparr>"
      unfolding ts_sub_def assms bind.bind_lunit Let_def q_def[symmetric] k_def[symmetric] w by simp
    then show thesis using False e k by (intro that[of q k]) simp_all
  qed
qed

lemma sdiv_small: "\<bar>u\<bar> < (k :: int) \<Longrightarrow> u sdiv k = 0"
proof -
  assume a: "\<bar>u\<bar> < k"
  then have "0 < k" "- (1 * k) < u" "u < 1 * k" by simp_all
  from sdiv_bound[OF this] show ?thesis by linarith
qed

lemma date_add_days_only:
  assumes "\<bar>u\<bar> < MICROS_PER_DAY" "\<bar>date\<bar> \<le> 106751992" "\<bar>d\<bar> \<le> 106751992"
  shows "date_add_interval date \<lparr>months = 0, days = d, micros = u\<rparr> = Some (date + d)"
proof -
  have z: "u sdiv MICROS_PER_DAY = 0" using assms(1) by (rule sdiv_small)
  have "i32 (date + d) = Some (date + d)" "wrap32 0 = 0" using assms(2,3) by (auto simp: i32_def wrap32_def abs_le_iff)
  then show ?thesis by (cases "d = 0") (simp_all add: date_add_interval_def z)
qed

lemma getDate_bound: "i64 v = Some v \<Longrightarrow> \<bar>getDate v\<bar> \<le> 106751992"
proof -
  assume a: "i64 v = Some v"
  have "v = getDate v * MICROS_PER_DAY + getTime v" by (simp add: getTime_def)
  with a getTime_range[OF a] show ?thesis unfolding i64_iff micros_values by linarith
qed

lemma add_time_diff:
  assumes l: "i64 l = Some l" "- 106751981 * MICROS_PER_DAY \<le> l" and r: "i64 r = Some r"
    and d: "l - r = d * MICROS_PER_DAY + u" "\<bar>u\<bar> < MICROS_PER_DAY" "\<bar>d\<bar> \<le> 106751992"
  shows "ts_add_interval r \<lparr>months = 0, days = d, micros = u\<rparr> = Some l"
proof -
  have z: "u sdiv MICROS_PER_DAY = 0" using d(2) by (rule sdiv_small)
  have re: "r = getDate r * MICROS_PER_DAY + getTime r" by (simp add: getTime_def)
  note t = getTime_range[OF r] and b = getDate_bound[OF r]
  have i: "i32 (getDate r + d + 1) = Some (getDate r + d + 1)" "i32 (getDate r + d - 1) = Some (getDate r + d - 1)"
    using b d(3) by (auto simp: i32_def abs_le_iff)
  have fin: "fromDateTime date' time' = Some l"
    if "0 \<le> time'" "time' < MICROS_PER_DAY" "date' * MICROS_PER_DAY + time' = l" for date' time'
  proof -
    have "- 106751981 \<le> date'" using that l(2) unfolding micros_values by linarith
    with that l(1) show ?thesis by (intro fromDateTime_value) simp_all
  qed
  consider "getTime r + u \<ge> MICROS_PER_DAY" | "getTime r + u < 0" | "0 \<le> getTime r + u" "getTime r + u < MICROS_PER_DAY" by linarith
  then have "do { (date, time) \<leftarrow>
        (if getTime r + u \<ge> MICROS_PER_DAY then do { d \<leftarrow> i32 (getDate r + d + 1); Some (d, getTime r + u - MICROS_PER_DAY) }
         else if getTime r + u < 0 then do { d \<leftarrow> i32 (getDate r + d - 1); Some (d, getTime r + u + MICROS_PER_DAY) }
         else Some (getDate r + d, getTime r + u));
      fromDateTime date time } = Some l"
  proof cases
    case 1
    then show ?thesis using i fin[of "getTime r + u - MICROS_PER_DAY" "getDate r + d + 1"] t d re by (simp add: algebra_simps)
  next
    case 2
    then show ?thesis using i fin[of "getTime r + u + MICROS_PER_DAY" "getDate r + d - 1"] t d re by (simp add: algebra_simps micros_values)
  next
    case 3
    then show ?thesis using fin[of "getTime r + u" "getDate r + d"] d re by (simp add: algebra_simps)
  qed
  then show ?thesis
    by (simp add: ts_add_interval_def timestamp_convert_def date_add_days_only[OF d(2) b d(3)] z Let_def)
qed

lemma ts_sub_add:
  assumes "i64 l = Some l" "- 106751981 * MICROS_PER_DAY \<le> l" "i64 r = Some r" "i64 (l - r) = Some (l - r)" "i64 \<bar>l - r\<bar> = Some \<bar>l - r\<bar>"
  obtains iv where "ts_sub l r = Some iv" "ts_add_interval r iv = Some l"
proof -
  obtain d u where f: "ts_sub l r = Some \<lparr>months = 0, days = d, micros = u\<rparr>" "l - r = d * MICROS_PER_DAY + u" "\<bar>u\<bar> < MICROS_PER_DAY"
    by (rule ts_sub_fields[OF assms(4,5)])
  have "\<bar>d\<bar> \<le> 106751992" using assms(4) f(2,3) unfolding i64_iff micros_values by linarith
  from that[OF f(1) add_time_diff[OF assms(1-3) f(2,3) this]] show thesis .
qed

text \<open>
  C19: Every 64-bit timestamp splits into the date and the time of day that build it again, except the
  timestamps of the eleven days before the smallest year, for which building trips the assertion of the
  date conversion. Where the difference of two timestamps is representable, adding it to the second
  gives the first.
\<close>

theorem timestamp_round_trip:
  "i64 v = Some v \<Longrightarrow>
   fromDateTime (getDate v) (getTime v) = (if v < - 106751981 * MICROS_PER_DAY then None else Some v) \<and>
   (- 106751981 * MICROS_PER_DAY \<le> v \<longrightarrow> i64 r = Some r \<longrightarrow> i64 \<bar>v - r\<bar> = Some \<bar>v - r\<bar> \<longrightarrow>
    (\<exists>iv. ts_sub v r = Some iv \<and> ts_add_interval r iv = Some v))"
proof -
  assume v: "i64 v = Some v"
  have "\<exists>iv. ts_sub v r = Some iv \<and> ts_add_interval r iv = Some v"
    if a: "- 106751981 * MICROS_PER_DAY \<le> v" "i64 r = Some r" "i64 \<bar>v - r\<bar> = Some \<bar>v - r\<bar>"
  proof -
    have "i64 (v - r) = Some (v - r)" using a(3) by (auto simp: i64_iff)
    from ts_sub_add[OF v a(1,2) this a(3)] show ?thesis by metis
  qed
  with timestamp_round_trip_ok[OF v] show ?thesis by blast
qed

theorem timestamp_round_trip_witness:
  "i64 (- 1) = Some (- 1) \<and> getDate (- 1) = - 1 \<and> getTime (- 1) = 86399999999 \<and> fromDateTime (- 1) 86399999999 = Some (- 1) \<and>
   ts_sub (- 1) 86400000000 = Some \<lparr>months = 0, days = - 1, micros = - 1\<rparr> \<and>
   ts_add_interval 86400000000 \<lparr>months = 0, days = - 1, micros = - 1\<rparr> = Some (- 1)"
proof -
  have "i64 (- 1) = Some (- 1)" "getDate (- 1) = - 1" "getTime (- 1) = 86399999999" "- 106751981 * MICROS_PER_DAY \<le> - 1"
    "i64 86400000000 = Some 86400000000" "i64 \<bar>- 1 - 86400000000\<bar> = Some \<bar>- 1 - 86400000000\<bar>"
    "ts_sub (- 1) 86400000000 = Some \<lparr>months = 0, days = - 1, micros = - 1\<rparr>"
    by code_simp+
  with timestamp_round_trip[of "- 1" 86400000000] show ?thesis by simp
qed

end
