(* ===== verification/NullMask.thy ===== *)
theory NullMask
  imports Prelude "HOL-Library.Word"
begin

text \<open>
  Null masks (\<open>common/null_mask.cpp\<close>, \<open>include/common/null_mask.h\<close>): one bit per value in entries of
  64 bits, with routines that set and copy ranges of bits entry by entry.

  A buffer of entries is a list of words; an access outside it is None. Offsets and counts are natural
  numbers; where the code passes a 64-bit offset on as a 32-bit position it is converted to a 32-bit
  word. The source and the destination of a copy are different buffers. \<open>memcpy\<close> on the bytes of the
  entries is written for a little-endian machine.
\<close>

unbundle bit_operations_syntax

section \<open>Masks\<close>

definition NULL_BITMASKS_WITH_SINGLE_ONE :: "64 word list" where
  "NULL_BITMASKS_WITH_SINGLE_ONE = [
     0x1, 0x2, 0x4, 0x8, 0x10, 0x20, 0x40, 0x80, 0x100, 0x200, 0x400, 0x800, 0x1000, 0x2000, 0x4000, 0x8000, 0x10000,
     0x20000, 0x40000, 0x80000, 0x100000, 0x200000, 0x400000, 0x800000, 0x1000000, 0x2000000, 0x4000000, 0x8000000,
     0x10000000, 0x20000000, 0x40000000, 0x80000000, 0x100000000, 0x200000000, 0x400000000, 0x800000000,
     0x1000000000, 0x2000000000, 0x4000000000, 0x8000000000, 0x10000000000, 0x20000000000, 0x40000000000,
     0x80000000000, 0x100000000000, 0x200000000000, 0x400000000000, 0x800000000000, 0x1000000000000, 0x2000000000000,
     0x4000000000000, 0x8000000000000, 0x10000000000000, 0x20000000000000, 0x40000000000000, 0x80000000000000,
     0x100000000000000, 0x200000000000000, 0x400000000000000, 0x800000000000000, 0x1000000000000000,
     0x2000000000000000, 0x4000000000000000, 0x8000000000000000]"

definition NULL_BITMASKS_WITH_SINGLE_ZERO :: "64 word list" where
  "NULL_BITMASKS_WITH_SINGLE_ZERO = [
     0xfffffffffffffffe, 0xfffffffffffffffd, 0xfffffffffffffffb, 0xfffffffffffffff7, 0xffffffffffffffef,
     0xffffffffffffffdf, 0xffffffffffffffbf, 0xffffffffffffff7f, 0xfffffffffffffeff, 0xfffffffffffffdff,
     0xfffffffffffffbff, 0xfffffffffffff7ff, 0xffffffffffffefff, 0xffffffffffffdfff, 0xffffffffffffbfff,
     0xffffffffffff7fff, 0xfffffffffffeffff, 0xfffffffffffdffff, 0xfffffffffffbffff, 0xfffffffffff7ffff,
     0xffffffffffefffff, 0xffffffffffdfffff, 0xffffffffffbfffff, 0xffffffffff7fffff, 0xfffffffffeffffff,
     0xfffffffffdffffff, 0xfffffffffbffffff, 0xfffffffff7ffffff, 0xffffffffefffffff, 0xffffffffdfffffff,
     0xffffffffbfffffff, 0xffffffff7fffffff, 0xfffffffeffffffff, 0xfffffffdffffffff, 0xfffffffbffffffff,
     0xfffffff7ffffffff, 0xffffffefffffffff, 0xffffffdfffffffff, 0xffffffbfffffffff, 0xffffff7fffffffff,
     0xfffffeffffffffff, 0xfffffdffffffffff, 0xfffffbffffffffff, 0xfffff7ffffffffff, 0xffffefffffffffff,
     0xffffdfffffffffff, 0xffffbfffffffffff, 0xffff7fffffffffff, 0xfffeffffffffffff, 0xfffdffffffffffff,
     0xfffbffffffffffff, 0xfff7ffffffffffff, 0xffefffffffffffff, 0xffdfffffffffffff, 0xffbfffffffffffff,
     0xff7fffffffffffff, 0xfeffffffffffffff, 0xfdffffffffffffff, 0xfbffffffffffffff, 0xf7ffffffffffffff,
     0xefffffffffffffff, 0xdfffffffffffffff, 0xbfffffffffffffff, 0x7fffffffffffffff]"

definition NULL_LOWER_MASKS :: "64 word list" where
  "NULL_LOWER_MASKS = [
     0x0, 0x1, 0x3, 0x7, 0xf, 0x1f, 0x3f, 0x7f, 0xff, 0x1ff, 0x3ff, 0x7ff, 0xfff, 0x1fff, 0x3fff, 0x7fff, 0xffff,
     0x1ffff, 0x3ffff, 0x7ffff, 0xfffff, 0x1fffff, 0x3fffff, 0x7fffff, 0xffffff, 0x1ffffff, 0x3ffffff, 0x7ffffff,
     0xfffffff, 0x1fffffff, 0x3fffffff, 0x7fffffff, 0xffffffff, 0x1ffffffff, 0x3ffffffff, 0x7ffffffff, 0xfffffffff,
     0x1fffffffff, 0x3fffffffff, 0x7fffffffff, 0xffffffffff, 0x1ffffffffff, 0x3ffffffffff, 0x7ffffffffff,
     0xfffffffffff, 0x1fffffffffff, 0x3fffffffffff, 0x7fffffffffff, 0xffffffffffff, 0x1ffffffffffff, 0x3ffffffffffff,
     0x7ffffffffffff, 0xfffffffffffff, 0x1fffffffffffff, 0x3fffffffffffff, 0x7fffffffffffff, 0xffffffffffffff,
     0x1ffffffffffffff, 0x3ffffffffffffff, 0x7ffffffffffffff, 0xfffffffffffffff, 0x1fffffffffffffff,
     0x3fffffffffffffff, 0x7fffffffffffffff, 0xffffffffffffffff]"

definition NULL_HIGH_MASKS :: "64 word list" where
  "NULL_HIGH_MASKS = [
     0x0, 0x8000000000000000, 0xc000000000000000, 0xe000000000000000, 0xf000000000000000, 0xf800000000000000,
     0xfc00000000000000, 0xfe00000000000000, 0xff00000000000000, 0xff80000000000000, 0xffc0000000000000,
     0xffe0000000000000, 0xfff0000000000000, 0xfff8000000000000, 0xfffc000000000000, 0xfffe000000000000,
     0xffff000000000000, 0xffff800000000000, 0xffffc00000000000, 0xffffe00000000000, 0xfffff00000000000,
     0xfffff80000000000, 0xfffffc0000000000, 0xfffffe0000000000, 0xffffff0000000000, 0xffffff8000000000,
     0xffffffc000000000, 0xffffffe000000000, 0xfffffff000000000, 0xfffffff800000000, 0xfffffffc00000000,
     0xfffffffe00000000, 0xffffffff00000000, 0xffffffff80000000, 0xffffffffc0000000, 0xffffffffe0000000,
     0xfffffffff0000000, 0xfffffffff8000000, 0xfffffffffc000000, 0xfffffffffe000000, 0xffffffffff000000,
     0xffffffffff800000, 0xffffffffffc00000, 0xffffffffffe00000, 0xfffffffffff00000, 0xfffffffffff80000,
     0xfffffffffffc0000, 0xfffffffffffe0000, 0xffffffffffff0000, 0xffffffffffff8000, 0xffffffffffffc000,
     0xffffffffffffe000, 0xfffffffffffff000, 0xfffffffffffff800, 0xfffffffffffffc00, 0xfffffffffffffe00,
     0xffffffffffffff00, 0xffffffffffffff80, 0xffffffffffffffc0, 0xffffffffffffffe0, 0xfffffffffffffff0,
     0xfffffffffffffff8, 0xfffffffffffffffc, 0xfffffffffffffffe, 0xffffffffffffffff]"

definition NO_NULL_ENTRY :: "64 word" where "NO_NULL_ENTRY = 0"

definition ALL_NULL_ENTRY :: "64 word" where "ALL_NULL_ENTRY = NOT NO_NULL_ENTRY"

section \<open>Operations on entries\<close>

definition getNullEntryAndBitPos :: "nat \<Rightarrow> nat \<times> nat" where
  "getNullEntryAndBitPos pos = (let nullEntryPos = pos div 64 in (nullEntryPos, pos - nullEntryPos * 64))"

definition setNull_entries :: "64 word list \<Rightarrow> 32 word \<Rightarrow> bool \<Rightarrow> 64 word list option" where
  "setNull_entries nullEntries pos isNull =
     (let entryPos = unat pos div 64; bitPosInEntry = unat pos - entryPos * 64 in
      do { ku_assert (entryPos < length nullEntries);
           Some (nullEntries[entryPos :=
             (if isNull then nullEntries ! entryPos OR NULL_BITMASKS_WITH_SINGLE_ONE ! bitPosInEntry
              else nullEntries ! entryPos AND NULL_BITMASKS_WITH_SINGLE_ZERO ! bitPosInEntry)]) })"

definition isNull_entries :: "64 word list \<Rightarrow> 32 word \<Rightarrow> bool option" where
  "isNull_entries nullEntries pos =
     (let (entryPos, bitPosInEntry) = getNullEntryAndBitPos (unat pos) in
      do { ku_assert (entryPos < length nullEntries);
           Some (nullEntries ! entryPos AND NULL_BITMASKS_WITH_SINGLE_ONE ! bitPosInEntry \<noteq> 0) })"

definition setNullRange :: "64 word list \<Rightarrow> nat \<Rightarrow> nat \<Rightarrow> bool \<Rightarrow> 64 word list option" where
  "setNullRange nullEntries offset numBitsToSet isNull =
     (if numBitsToSet = 0 then Some nullEntries
      else let (firstEntryPos, firstBitPos) = getNullEntryAndBitPos offset;
               (lastEntryPos, lastBitPos) = getNullEntryAndBitPos (offset + numBitsToSet);
               filled = (if lastEntryPos > firstEntryPos + 1
                         then foldl (\<lambda>es i. es[i := (if isNull then ALL_NULL_ENTRY else NO_NULL_ENTRY)]) nullEntries
                                [firstEntryPos + 1..<lastEntryPos]
                         else nullEntries) in
        do { ku_assert (lastEntryPos > firstEntryPos + 1 \<longrightarrow> lastEntryPos \<le> length nullEntries);
             ku_assert (firstEntryPos < length nullEntries);
             if firstEntryPos = lastEntryPos then
               Some (filled[firstEntryPos :=
                 (if isNull
                  then filled ! firstEntryPos OR (NOT (NULL_LOWER_MASKS ! firstBitPos) AND NOT (NULL_HIGH_MASKS ! (64 - lastBitPos)))
                  else filled ! firstEntryPos AND (NULL_LOWER_MASKS ! firstBitPos OR NULL_HIGH_MASKS ! (64 - lastBitPos)))])
             else do {
               let es = filled[firstEntryPos :=
                 (if isNull then filled ! firstEntryPos OR NOT (NULL_LOWER_MASKS ! firstBitPos)
                  else filled ! firstEntryPos AND NULL_LOWER_MASKS ! firstBitPos)];
               if lastBitPos > 0 then do {
                 ku_assert (lastEntryPos < length nullEntries);
                 Some (es[lastEntryPos :=
                   (if isNull then es ! lastEntryPos OR NULL_LOWER_MASKS ! lastBitPos
                    else es ! lastEntryPos AND NOT (NULL_LOWER_MASKS ! lastBitPos))]) }
               else Some es } })"

text \<open>
  The state of the loop that copies bits at arbitrary offsets: the bits copied, the positions in the
  source and in the destination, the destination, and whether a null has been copied.
\<close>

record copy_state =
  bitPos :: nat
  srcEntry :: nat
  srcBit :: nat
  dstEntry :: nat
  dstBit :: nat
  dstEntries :: "64 word list"
  hasNull :: bool

definition copy_step :: "64 word list \<Rightarrow> nat \<Rightarrow> bool \<Rightarrow> copy_state \<Rightarrow> copy_state option" where
  "copy_step src numBitsToCopy invert st =
     do { ku_assert (srcEntry st < length src);
          let entry = (if invert then NOT (src ! srcEntry st) else src ! srcEntry st);
          let left = numBitsToCopy - bitPos st;
          let (n, entry', se, sb, de, db) =
            (if dstBit st < srcBit st then
               let n = min (64 - srcBit st) left in
               (n, drop_bit (srcBit st - dstBit st) (entry AND NOT (NULL_HIGH_MASKS ! (64 - (srcBit st + n)))) AND
                   NOT (NULL_LOWER_MASKS ! dstBit st),
                srcEntry st + 1, 0, dstEntry st, dstBit st + n)
             else if dstBit st > srcBit st then
               let n = min (64 - dstBit st) left in
               (n, push_bit (dstBit st - srcBit st) (entry AND NOT (NULL_LOWER_MASKS ! srcBit st)) AND
                   NOT (NULL_HIGH_MASKS ! (64 - (dstBit st + n))),
                srcEntry st, srcBit st + n, dstEntry st + 1, 0)
             else
               let n = min (64 - dstBit st) left in
               (n, entry AND NOT (NULL_LOWER_MASKS ! srcBit st) AND NOT (NULL_HIGH_MASKS ! (64 - (dstBit st + n))),
                srcEntry st + 1, 0, dstEntry st + 1, 0));
          ku_assert (dstEntry st < length (dstEntries st));
          let cleared = dstEntries st ! dstEntry st AND NOT (push_bit (dstBit st) (NULL_LOWER_MASKS ! n));
          Some \<lparr>bitPos = bitPos st + n, srcEntry = se, srcBit = sb, dstEntry = de, dstBit = db,
                dstEntries = (dstEntries st)[dstEntry st := (if entry' \<noteq> 0 then cleared OR entry' else cleared)],
                hasNull = (hasNull st \<or> entry' \<noteq> 0)\<rparr> }"

partial_function (option) copy_loop :: "64 word list \<Rightarrow> nat \<Rightarrow> bool \<Rightarrow> copy_state \<Rightarrow> copy_state option" where
  "copy_loop src numBitsToCopy invert st =
     (if bitPos st < numBitsToCopy
      then Option.bind (copy_step src numBitsToCopy invert st) (copy_loop src numBitsToCopy invert)
      else Some st)"

declare copy_loop.simps [code]

definition copyUnaligned :: "64 word list \<Rightarrow> nat \<Rightarrow> 64 word list \<Rightarrow> nat \<Rightarrow> nat \<Rightarrow> bool \<Rightarrow> (64 word list \<times> bool) option" where
  "copyUnaligned src srcOffset dst dstOffset numBitsToCopy invert =
     (let (se, sb) = getNullEntryAndBitPos srcOffset; (de, db) = getNullEntryAndBitPos dstOffset in
      do { st \<leftarrow> copy_loop src numBitsToCopy invert
             \<lparr>bitPos = 0, srcEntry = se, srcBit = sb, dstEntry = de, dstBit = db, dstEntries = dst, hasNull = False\<rparr>;
           Some (dstEntries st, hasNull st) })"

text \<open>The bytes of the entries.\<close>

definition get_byte :: "64 word list \<Rightarrow> nat \<Rightarrow> 64 word" where
  "get_byte es i = take_bit 8 (drop_bit (8 * (i mod 8)) (es ! (i div 8)))"

definition set_byte :: "64 word list \<Rightarrow> nat \<Rightarrow> 64 word \<Rightarrow> 64 word list" where
  "set_byte es i v = es[i div 8 := (es ! (i div 8) AND NOT (push_bit (8 * (i mod 8)) (mask 8))) OR push_bit (8 * (i mod 8)) v]"

definition copy_small :: "64 word list \<Rightarrow> nat \<Rightarrow> 64 word list \<Rightarrow> nat \<Rightarrow> nat \<Rightarrow> bool \<Rightarrow> (64 word list \<times> bool) option" where
  "copy_small src srcOffset dst dstOffset numBitsToCopy invert =
     foldM (\<lambda>(dst, anyNull) i.
         do { isNull \<leftarrow> isNull_entries src (of_nat (srcOffset + i));
              dst \<leftarrow> setNull_entries dst (of_nat (dstOffset + i)) (isNull \<noteq> invert);
              Some (dst, anyNull \<or> isNull) })
       (dst, False) [0..<numBitsToCopy]"

definition copy_aligned :: "64 word list \<Rightarrow> nat \<Rightarrow> 64 word list \<Rightarrow> nat \<Rightarrow> nat \<Rightarrow> (64 word list \<times> bool) option" where
  "copy_aligned src srcOffset dst dstOffset numBitsToCopy =
     do { (dst, first, hasNullInSrc) \<leftarrow>
            (if srcOffset \<noteq> 0 then
               do { let n = 8 - srcOffset mod 8;
                    (dst, r) \<leftarrow> copyUnaligned src srcOffset dst dstOffset n False;
                    Some (dst, n, r) }
             else Some (dst, 0, False));
          let srcByte = (srcOffset + first) div 8;
          let dstByte = (dstOffset + first) div 8;
          let numBytes = (numBitsToCopy - first) div 8;
          ku_assert (srcByte + numBytes \<le> 8 * length src \<and> dstByte + numBytes \<le> 8 * length dst);
          let dst = foldl (\<lambda>es i. set_byte es (dstByte + i) (get_byte src (srcByte + i))) dst [0..<numBytes];
          let hasNullInSrc = (hasNullInSrc \<or> list_ex (\<lambda>i. get_byte src (srcByte + i) \<noteq> 0) [0..<numBytes]);
          let lastByteStart = first + numBytes * 8;
          let numBitsInLastByte = numBitsToCopy - first - numBytes * 8;
          if numBitsInLastByte > 0 then
            do { (dst, r) \<leftarrow> copyUnaligned src (srcOffset + lastByteStart) dst (dstOffset + lastByteStart) numBitsInLastByte False;
                 Some (dst, r \<or> hasNullInSrc) }
          else Some (dst, hasNullInSrc) }"

definition copyNullMask :: "64 word list \<Rightarrow> nat \<Rightarrow> 64 word list \<Rightarrow> nat \<Rightarrow> nat \<Rightarrow> bool \<Rightarrow> (64 word list \<times> bool) option" where
  "copyNullMask src srcOffset dst dstOffset numBitsToCopy invert =
     (if numBitsToCopy \<le> 3 then copy_small src srcOffset dst dstOffset numBitsToCopy invert
      else if \<not> invert \<and> srcOffset mod 8 = dstOffset mod 8 \<and> numBitsToCopy \<ge> 8 \<and> numBitsToCopy - srcOffset mod 8 \<ge> 8
      then copy_aligned src srcOffset dst dstOffset numBitsToCopy
      else copyUnaligned src srcOffset dst dstOffset numBitsToCopy invert)"

text \<open>Whether all and whether some values of a range are null.\<close>

definition masked_min_max :: "64 word \<Rightarrow> 64 word \<Rightarrow> bool \<times> bool" where
  "masked_min_max entry m =
     (let masked = entry AND m in
      if masked = 0 then (False, False) else if masked = m then (True, True) else (False, True))"

definition getMinMax_tail :: "64 word list \<Rightarrow> nat \<Rightarrow> nat \<Rightarrow> bool \<Rightarrow> bool \<Rightarrow> (bool \<times> bool) option" where
  "getMinMax_tail es e numValues mn mx =
     (let baseline = (if mn then NOT 0 else 0) in
      do { ku_assert (e + numValues div 64 \<le> length es);
           if list_ex (\<lambda>i. es ! (e + i) \<noteq> baseline) [0..<numValues div 64] then Some (False, True)
           else let e = e + numValues div 64; numValues = numValues mod 64 in
             if numValues > 0 then
               do { ku_assert (e < length es);
                    let m = NULL_LOWER_MASKS ! numValues;
                    let masked = es ! e AND m;
                    Some (if masked = 0 then (False, mx) else if masked = m then (mn, True) else (False, True)) }
             else Some (mn, mx) })"

definition getMinMax :: "64 word list \<Rightarrow> nat \<Rightarrow> nat \<Rightarrow> (bool \<times> bool) option" where
  "getMinMax nullEntries offset numValues =
     (let e = offset div 64; offset = offset mod 64 in
      do { ku_assert (e < length nullEntries);
           if offset + numValues \<le> 64 then
             Some (masked_min_max (nullEntries ! e) (NULL_HIGH_MASKS ! (64 - offset) AND NULL_LOWER_MASKS ! (offset + numValues)))
           else if offset > 0 then
             (let (mn, mx) = masked_min_max (nullEntries ! e) (NULL_HIGH_MASKS ! (64 - offset)) in
              if mn \<noteq> mx then Some (False, True)
              else getMinMax_tail nullEntries (e + 1) (numValues - (64 - offset)) mn mx)
           else do {
             b \<leftarrow> isNull_entries (drop e nullEntries) 0;
             getMinMax_tail nullEntries e numValues b b } })"

definition popcount :: "64 word \<Rightarrow> nat" where
  "popcount w = length (filter (bit w) [0..<64])"

section \<open>The mask\<close>

record NullMask_t =
  nm_data :: "64 word list"
  mayContainNulls :: bool

definition new_NullMask :: "nat \<Rightarrow> NullMask_t" where
  "new_NullMask capacity = \<lparr>nm_data = replicate ((capacity + 64 - 1) div 64) NO_NULL_ENTRY, mayContainNulls = False\<rparr>"

definition setAllNonNull :: "NullMask_t \<Rightarrow> NullMask_t" where
  "setAllNonNull m =
     (if \<not> mayContainNulls m then m else \<lparr>nm_data = map (\<lambda>_. NO_NULL_ENTRY) (nm_data m), mayContainNulls = False\<rparr>)"

definition setAllNull :: "NullMask_t \<Rightarrow> NullMask_t" where
  "setAllNull m = \<lparr>nm_data = map (\<lambda>_. ALL_NULL_ENTRY) (nm_data m), mayContainNulls = True\<rparr>"

definition hasNoNullsGuarantee :: "NullMask_t \<Rightarrow> bool" where
  "hasNoNullsGuarantee m = (\<not> mayContainNulls m)"

definition getNumNullBits :: "64 word list \<Rightarrow> nat" where
  "getNumNullBits es = length es * 64"

definition setNull :: "32 word \<Rightarrow> bool \<Rightarrow> NullMask_t \<Rightarrow> NullMask_t option" where
  "setNull pos isNull m =
     do { ku_assert (unat pos < getNumNullBits (nm_data m));
          es \<leftarrow> setNull_entries (nm_data m) pos isNull;
          Some \<lparr>nm_data = es, mayContainNulls = (isNull \<or> mayContainNulls m)\<rparr> }"

definition isNull_at :: "32 word \<Rightarrow> NullMask_t \<Rightarrow> bool option" where
  "isNull_at pos m =
     do { ku_assert (unat pos < getNumNullBits (nm_data m)); isNull_entries (nm_data m) pos }"

definition getNumNullEntries :: "64 word \<Rightarrow> 64 word" where
  "getNumNullEntries numNullBits =
     drop_bit 6 numNullBits + (if numNullBits - push_bit 6 numNullBits = 0 then 0 else 1)"

definition setNullFromRange :: "nat \<Rightarrow> nat \<Rightarrow> bool \<Rightarrow> NullMask_t \<Rightarrow> NullMask_t option" where
  "setNullFromRange offset numBitsToSet isNull m =
     do { ku_assert (offset + numBitsToSet \<le> getNumNullBits (nm_data m));
          es \<leftarrow> setNullRange (nm_data m) offset numBitsToSet isNull;
          Some \<lparr>nm_data = es, mayContainNulls = (isNull \<or> mayContainNulls m)\<rparr> }"

definition copyFromNullBits :: "64 word list \<Rightarrow> nat \<Rightarrow> nat \<Rightarrow> nat \<Rightarrow> bool \<Rightarrow> NullMask_t \<Rightarrow> (NullMask_t \<times> bool) option" where
  "copyFromNullBits src srcOffset dstOffset numBitsToCopy invert m =
     do { ku_assert (dstOffset + numBitsToCopy \<le> getNumNullBits (nm_data m));
          (es, r) \<leftarrow> copyNullMask src srcOffset (nm_data m) dstOffset numBitsToCopy invert;
          Some (\<lparr>nm_data = es, mayContainNulls = (r \<or> mayContainNulls m)\<rparr>, r) }"

definition copyFrom :: "NullMask_t \<Rightarrow> nat \<Rightarrow> nat \<Rightarrow> nat \<Rightarrow> bool \<Rightarrow> NullMask_t \<Rightarrow> (NullMask_t \<times> bool) option" where
  "copyFrom other srcOffset dstOffset numBitsToCopy invert m =
     (if hasNoNullsGuarantee other
      then do { m' \<leftarrow> setNullFromRange dstOffset numBitsToCopy invert m; Some (m', invert) }
      else copyFromNullBits (nm_data other) srcOffset dstOffset numBitsToCopy invert m)"

text \<open>Shrinking copies more bytes than the new buffer has.\<close>

definition resize_mask :: "nat \<Rightarrow> NullMask_t \<Rightarrow> NullMask_t option" where
  "resize_mask capacity m =
     (let numNullEntries = (capacity + 64 - 1) div 64 in
      do { ku_assert (length (nm_data m) \<le> numNullEntries);
           Some (m\<lparr>nm_data := nm_data m @ replicate (numNullEntries - length (nm_data m)) 0\<rparr>) })"

definition or_mask :: "NullMask_t \<Rightarrow> NullMask_t \<Rightarrow> NullMask_t option" where
  "or_mask m other =
     do { ku_assert (length (nm_data other) = length (nm_data m));
          Some (m\<lparr>nm_data := map2 (OR) (nm_data m) (nm_data other)\<rparr>) }"

definition countNulls :: "NullMask_t \<Rightarrow> nat" where
  "countNulls m = foldl (\<lambda>sum entry. sum + popcount entry) 0 (nm_data m)"

section \<open>Bits\<close>

text \<open>The tables.\<close>

lemma mask_tables:
  "NULL_BITMASKS_WITH_SINGLE_ONE = map (\<lambda>i. push_bit i 1) [0..<64]"
  "NULL_BITMASKS_WITH_SINGLE_ZERO = map (\<lambda>i. NOT (push_bit i 1)) [0..<64]"
  "NULL_LOWER_MASKS = map mask [0..<65]"
  "NULL_HIGH_MASKS = map (\<lambda>i. NOT (mask (64 - i))) [0..<65]"
  by code_simp+

lemma bit_single_one: "n < 64 \<Longrightarrow> bit (NULL_BITMASKS_WITH_SINGLE_ONE ! n) j \<longleftrightarrow> j = n"
  by (auto simp: mask_tables(1) bit_simps)

lemma bit_single_zero: "n < 64 \<Longrightarrow> bit (NULL_BITMASKS_WITH_SINGLE_ZERO ! n) j \<longleftrightarrow> j < 64 \<and> j \<noteq> n"
  by (auto simp: mask_tables(2) bit_simps)

lemma bit_lower: "n \<le> 64 \<Longrightarrow> bit (NULL_LOWER_MASKS ! n) j \<longleftrightarrow> j < n"
  by (auto simp: mask_tables(3) bit_simps simp del: upt.simps)

lemma bit_high: "n \<le> 64 \<Longrightarrow> bit (NULL_HIGH_MASKS ! n) j \<longleftrightarrow> 64 - n \<le> j \<and> j < 64"
  by (auto simp: mask_tables(4) bit_simps simp del: upt.simps)

lemmas bit_masks = bit_single_one bit_single_zero bit_lower bit_high

text \<open>The bit of a value, and the buffers that agree with a function on their bits.\<close>

definition nbit :: "64 word list \<Rightarrow> nat \<Rightarrow> bool" where
  "nbit es p = bit (es ! (p div 64)) (p mod 64)"

lemma entry_lt: "p < 64 * length es \<longleftrightarrow> p div 64 < length (es :: 64 word list)"
  by (simp add: div_less_iff_less_mult mult.commute)

lemma nbit_at: "x < 64 \<Longrightarrow> nbit es (64 * e + x) = bit (es ! e) x"
  by (simp add: nbit_def)

lemma nbit_update:
  assumes "e < length es" "p < 64 * length es"
  shows "nbit (es[e := w]) p = (if p div 64 = e then bit w (p mod 64) else nbit es p)"
  using assms by (auto simp: nbit_def nth_list_update)

lemma bitpos: "getNullEntryAndBitPos p = (p div 64, p mod 64)"
  by (simp add: getNullEntryAndBitPos_def minus_div_mult_eq_mod)

lemma nonzero_bit: "(w :: 64 word) \<noteq> 0 \<longleftrightarrow> (\<exists>j. bit w j)"
  using bit_eq_iff[of w 0] bit_imp_le_length[of w] by auto

lemma and_single: "n < 64 \<Longrightarrow> (w AND NULL_BITMASKS_WITH_SINGLE_ONE ! n \<noteq> 0) = bit (w :: 64 word) n"
proof -
  assume "n < 64"
  then have "bit (w AND NULL_BITMASKS_WITH_SINGLE_ONE ! n) j \<longleftrightarrow> bit w j \<and> j = n" for j by (simp add: bit_simps bit_single_one)
  then show ?thesis unfolding nonzero_bit by auto
qed

lemma isNull_entries_ok: "unat pos < 64 * length es \<Longrightarrow> isNull_entries es pos = Some (nbit es (unat pos))"
  by (simp add: isNull_entries_def bitpos entry_lt nbit_def and_single)

lemma setNull_entries_ok:
  assumes "unat pos < 64 * length es"
  shows "\<exists>es'. setNull_entries es pos b = Some es' \<and> length es' = length es \<and>
    (\<forall>p < 64 * length es. nbit es' p = (if p = unat pos then b else nbit es p))"
proof -
  have e: "unat pos div 64 < length es" using assms by (simp add: entry_lt)
  have m: "unat pos - unat pos div 64 * 64 = unat pos mod 64" by (simp add: minus_div_mult_eq_mod)
  have eq: "p = unat pos \<longleftrightarrow> p div 64 = unat pos div 64 \<and> p mod 64 = unat pos mod 64" for p by (metis div_mult_mod_eq)
  show ?thesis using e unfolding setNull_entries_def Let_def m
    by (simp add: nbit_update) (auto simp: eq bit_simps bit_masks nbit_def)
qed

text \<open>Setting a range of bits.\<close>

lemma fill_entries:
  "k \<le> length es \<Longrightarrow> i \<le> k \<Longrightarrow> length (foldl (\<lambda>es i. es[i := w]) es [i..<k]) = length es \<and>
    (\<forall>e < length es. foldl (\<lambda>es i. es[i := w]) es [i..<k] ! e = (if i \<le> e \<and> e < k then w else es ! e))"
proof (induction k)
  case (Suc k)
  show ?case
  proof (cases "i = Suc k")
    case False
    then have "i \<le> k" using Suc.prems by simp
    with Suc show ?thesis by (auto simp: nth_list_update less_Suc_eq)
  qed auto
qed simp

lemma pos_lt: "p < 64 * e + b \<longleftrightarrow> p div 64 < e \<or> (p div 64 = e \<and> p mod 64 < b)" if "b \<le> 64" for p e b :: nat
proof -
  define q r where "q = p div 64" and "r = p mod 64"
  have "p = 64 * q + r" "r < 64" by (simp_all add: q_def r_def)
  then have "p < 64 * e + b \<longleftrightarrow> q < e \<or> (q = e \<and> r < b)" using that by (cases q e rule: linorder_cases) auto
  then show ?thesis by (simp only: q_def r_def)
qed

lemma setNullRange_ok:
  assumes "offset + n \<le> 64 * length es"
  shows "\<exists>es'. setNullRange es offset n b = Some es' \<and> length es' = length es \<and>
    (\<forall>p < 64 * length es. nbit es' p = (if offset \<le> p \<and> p < offset + n then b else nbit es p))"
proof (cases "n = 0")
  case True
  then show ?thesis by (auto simp: setNullRange_def)
next
  case False
  define fe fb le lb where "fe = offset div 64" and "fb = offset mod 64" and "le = (offset + n) div 64" and "lb = (offset + n) mod 64"
  have o: "offset = 64 * fe + fb" "offset + n = 64 * le + lb" "fb < 64" "lb < 64" by (simp_all add: fe_def fb_def le_def lb_def)
  have lt: "fe < length es" "le \<le> length es" "lb > 0 \<Longrightarrow> le < length es" "fe \<le> le" using assms False o by linarith+
  have range: "offset \<le> p \<longleftrightarrow> \<not> (p div 64 < fe \<or> (p div 64 = fe \<and> p mod 64 < fb))"
    "p < offset + n \<longleftrightarrow> p div 64 < le \<or> (p div 64 = le \<and> p mod 64 < lb)" for p
    using pos_lt[of fb p fe] pos_lt[of lb p le] o by (simp_all only: not_less [symmetric])
  define w where "w = (if b then ALL_NULL_ENTRY else NO_NULL_ENTRY)"
  define fl where "fl = (if le > fe + 1 then foldl (\<lambda>es i. es[i := w]) es [fe + 1..<le] else es)"
  have w: "bit w j \<longleftrightarrow> b" if "j < 64" for j using that by (simp add: w_def ALL_NULL_ENTRY_def NO_NULL_ENTRY_def bit_simps)
  have fl: "length fl = length es" "\<forall>e < length es. fl ! e = (if fe < e \<and> e < le then w else es ! e)"
    using fill_entries[OF lt(2), of "fe + 1" w] by (auto simp: fl_def)
  show ?thesis
  proof (cases "fe = le")
    case True
    define v where "v = (if b then fl ! fe OR (NOT (NULL_LOWER_MASKS ! fb) AND NOT (NULL_HIGH_MASKS ! (64 - lb)))
      else fl ! fe AND (NULL_LOWER_MASKS ! fb OR NULL_HIGH_MASKS ! (64 - lb)))"
    have "fl = es" using True by (simp add: fl_def)
    then have "setNullRange es offset n b = Some (fl[fe := v])"
      using False lt True unfolding setNullRange_def bitpos Let_def case_prod_conv fe_def[symmetric] fb_def[symmetric] le_def[symmetric] lb_def[symmetric]
        w_def[symmetric] fl_def[symmetric] by (simp add: v_def)
    moreover have "bit v j = (if fb \<le> j \<and> j < lb then b else bit (es ! fe) j)" if "j < 64" for j
      using that o fl(2) lt(1) by (auto simp: v_def bit_simps bit_masks)
    ultimately show ?thesis using fl lt True range
      by (intro exI[of _ "fl[fe := v]"]) (auto simp: nbit_def nth_list_update entry_lt)
  next
    case ne: False
    define v where "v = (if b then fl ! fe OR NOT (NULL_LOWER_MASKS ! fb) else fl ! fe AND NULL_LOWER_MASKS ! fb)"
    define u where "u = (if b then fl ! le OR NULL_LOWER_MASKS ! lb else fl ! le AND NOT (NULL_LOWER_MASKS ! lb))"
    define es' where "es' = (if lb > 0 then (fl[fe := v])[le := u] else fl[fe := v])"
    have "setNullRange es offset n b = Some es'"
      using False lt ne unfolding setNullRange_def bitpos Let_def case_prod_conv fe_def[symmetric] fb_def[symmetric] le_def[symmetric] lb_def[symmetric]
        w_def[symmetric] fl_def[symmetric]
      by (simp add: v_def es'_def u_def)
    moreover have "bit v j = (if fb \<le> j then b else bit (es ! fe) j)" if "j < 64" for j
      using that o fl(2) lt(1) by (auto simp: v_def bit_simps bit_masks)
    moreover have "bit u j = (if j < lb then b else bit (es ! le) j)" if "j < 64" "lb > 0" for j
      using that o fl(2) lt by (auto simp: u_def bit_simps bit_masks)
    ultimately show ?thesis using fl lt ne range w
      by (intro exI[of _ es']) (auto simp: es'_def nbit_def nth_list_update entry_lt)
  qed
qed

text \<open>One round of the copying loop moves as many bits as both entries allow.\<close>

lemma copy_step_ok:
  assumes se: "srcEntry st < length src" and de: "dstEntry st < length (dstEntries st)"
    and sb: "srcBit st < 64" "dstBit st < 64" and left: "bitPos st < n"
    and k: "k = min (64 - max (srcBit st) (dstBit st)) (n - bitPos st)"
  shows "\<exists>st'. copy_step src n invert st = Some st' \<and> bitPos st' = bitPos st + k \<and>
    (\<exists>v. dstEntries st' = (dstEntries st)[dstEntry st := v] \<and>
       (\<forall>j < 64. bit v j = (if dstBit st \<le> j \<and> j < dstBit st + k then bit (src ! srcEntry st) (srcBit st + (j - dstBit st)) \<noteq> invert
                          else bit (dstEntries st ! dstEntry st) j))) \<and>
    (hasNull st' \<longleftrightarrow> hasNull st \<or> (\<exists>i < k. bit (src ! srcEntry st) (srcBit st + i) \<noteq> invert)) \<and>
    (bitPos st + k < n \<longrightarrow> srcBit st' < 64 \<and> dstBit st' < 64 \<and>
       64 * srcEntry st' + srcBit st' = 64 * srcEntry st + srcBit st + k \<and> 64 * dstEntry st' + dstBit st' = 64 * dstEntry st + dstBit st + k)"
proof -
  let ?s = "srcBit st" and ?d = "dstBit st"
  define entry where "entry = (if invert then NOT (src ! srcEntry st) else src ! srcEntry st)"
  have en: "bit entry j \<longleftrightarrow> bit (src ! srcEntry st) j \<noteq> invert" if "j < 64" for j using that by (simp add: entry_def bit_simps)
  have kb: "?s + k \<le> 64" "?d + k \<le> 64" using k sb by auto
  define entry' where "entry' =
    (if ?d < ?s then drop_bit (?s - ?d) (entry AND NOT (NULL_HIGH_MASKS ! (64 - (?s + k)))) AND NOT (NULL_LOWER_MASKS ! ?d)
     else if ?d > ?s then push_bit (?d - ?s) (entry AND NOT (NULL_LOWER_MASKS ! ?s)) AND NOT (NULL_HIGH_MASKS ! (64 - (?d + k)))
     else entry AND NOT (NULL_LOWER_MASKS ! ?s) AND NOT (NULL_HIGH_MASKS ! (64 - (?d + k))))"
  define cleared where "cleared = dstEntries st ! dstEntry st AND NOT (push_bit ?d (NULL_LOWER_MASKS ! k))"
  define v where "v = (if entry' \<noteq> 0 then cleared OR entry' else cleared)"
  define st' where "st' = \<lparr>bitPos = bitPos st + k,
     srcEntry = (if ?d > ?s then srcEntry st else srcEntry st + 1), srcBit = (if ?d > ?s then ?s + k else 0),
     dstEntry = (if ?d < ?s then dstEntry st else dstEntry st + 1), dstBit = (if ?d < ?s then ?d + k else 0),
     dstEntries = (dstEntries st)[dstEntry st := v], hasNull = (hasNull st \<or> entry' \<noteq> 0)\<rparr>"
  have step: "copy_step src n invert st = Some st'"
  proof -
    consider "?d < ?s" "k = min (64 - ?s) (n - bitPos st)" | "?d > ?s" "k = min (64 - ?d) (n - bitPos st)" | "?d = ?s" "k = min (64 - ?d) (n - bitPos st)"
      using k by (cases ?d ?s rule: linorder_cases) (auto simp: max_def)
    then show ?thesis using se de
      by cases (simp_all add: copy_step_def Let_def entry_def[symmetric] st'_def v_def cleared_def entry'_def)
  qed
  have bits: "bit entry' j \<longleftrightarrow> ?d \<le> j \<and> j < ?d + k \<and> (bit (src ! srcEntry st) (?s + (j - ?d)) \<noteq> invert)" if "j < 64" for j
  proof (cases "?d < ?s")
    case True
    have a: "?s - ?d + j = ?s + (j - ?d)" if "?d \<le> j" using that True by simp
    have "bit entry' j \<longleftrightarrow> bit entry (?s - ?d + j) \<and> \<not> (?s + k \<le> ?s - ?d + j \<and> ?s - ?d + j < 64) \<and> \<not> j < ?d"
      using that True kb sb by (auto simp: entry'_def bit_simps bit_masks dest: bit_imp_le_length)
    moreover have "bit entry (?s - ?d + j) \<longleftrightarrow> bit (src ! srcEntry st) (?s + (j - ?d)) \<noteq> invert" if "?d \<le> j" "j < ?d + k"
      using en[of "?s + (j - ?d)"] a[OF that(1)] that kb by simp
    moreover have "?s - ?d + j < 64" if "bit entry (?s - ?d + j)" using bit_imp_le_length[OF that] by simp
    ultimately show ?thesis using True kb by (cases "?d \<le> j"; cases "j < ?d + k") auto
  next
    case False
    show ?thesis
    proof (cases "?d = ?s")
      case True
      then show ?thesis using that kb sb en[of j] by (auto simp: entry'_def bit_simps bit_masks)
    next
      case ne: False
      with False have lt: "?s < ?d" by simp
      have a: "j - (?d - ?s) = ?s + (j - ?d)" if "?d \<le> j" using that lt by simp
      have "bit entry' j \<longleftrightarrow> ?d - ?s \<le> j \<and> bit entry (j - (?d - ?s)) \<and> \<not> j - (?d - ?s) < ?s \<and> \<not> (?d + k \<le> j \<and> j < 64)"
        using that lt kb sb by (auto simp: entry'_def bit_simps bit_masks)
      then show ?thesis using en[of "?s + (j - ?d)"] kb lt a that by (cases "?d \<le> j") auto
    qed
  qed
  have nz: "entry' \<noteq> 0 \<longleftrightarrow> (\<exists>i < k. bit (src ! srcEntry st) (?s + i) \<noteq> invert)"
  proof
    assume "entry' \<noteq> 0"
    then obtain j where "bit entry' j" "j < 64" using nonzero_bit bit_imp_le_length[of entry'] by auto
    with bits[of j] show "\<exists>i < k. bit (src ! srcEntry st) (?s + i) \<noteq> invert" by (intro exI[of _ "j - ?d"]) auto
  next
    assume "\<exists>i < k. bit (src ! srcEntry st) (?s + i) \<noteq> invert"
    then obtain i where "i < k" "bit (src ! srcEntry st) (?s + i) \<noteq> invert" by blast
    with bits[of "?d + i"] kb show "entry' \<noteq> 0" by auto
  qed
  have "bit cleared j \<longleftrightarrow> bit (dstEntries st ! dstEntry st) j \<and> \<not> (?d \<le> j \<and> j < ?d + k)" if "j < 64" for j
    using that kb by (auto simp: cleared_def bit_simps bit_masks)
  then have vb: "bit v j = (if ?d \<le> j \<and> j < ?d + k then bit (src ! srcEntry st) (?s + (j - ?d)) \<noteq> invert
      else bit (dstEntries st ! dstEntry st) j)" if "j < 64" for j
    using that bits[of j] by (auto simp: v_def bit_simps)
  have "bitPos st + k < n \<Longrightarrow> k = 64 - max ?s ?d" using k by auto
  then show ?thesis using step vb nz kb sb by (intro exI[of _ st']) (auto simp: st'_def max_def)
qed

text \<open>The loop copies all bits and returns, and tells whether it copied a null.\<close>

definition copy_inv :: "64 word list \<Rightarrow> nat \<Rightarrow> 64 word list \<Rightarrow> nat \<Rightarrow> nat \<Rightarrow> bool \<Rightarrow> copy_state \<Rightarrow> bool" where
  "copy_inv src so dst doff n invert st \<longleftrightarrow> bitPos st \<le> n \<and> length (dstEntries st) = length dst \<and>
     (bitPos st < n \<longrightarrow> srcBit st < 64 \<and> dstBit st < 64 \<and> 64 * srcEntry st + srcBit st = so + bitPos st \<and>
        64 * dstEntry st + dstBit st = doff + bitPos st) \<and>
     (\<forall>p < 64 * length dst. nbit (dstEntries st) p =
        (if doff \<le> p \<and> p < doff + bitPos st then nbit src (so + (p - doff)) \<noteq> invert else nbit dst p)) \<and>
     (hasNull st \<longleftrightarrow> (\<exists>q < bitPos st. nbit src (so + q) \<noteq> invert))"

lemma ex_less_add: "(\<exists>q < b + k. P q) \<longleftrightarrow> (\<exists>q < b. P q) \<or> (\<exists>x < k. P (b + x))" for b k :: nat
proof
  assume "\<exists>q < b + k. P q"
  then obtain q where q: "q < b + k" "P q" by blast
  show "(\<exists>q < b. P q) \<or> (\<exists>x < k. P (b + x))"
  proof (cases "q < b")
    case False
    with q have "q - b < k" "P (b + (q - b))" by simp_all
    then show ?thesis by blast
  qed (use q in blast)
next
  assume "(\<exists>q < b. P q) \<or> (\<exists>x < k. P (b + x))"
  then show "\<exists>q < b + k. P q" by (meson add_less_cancel_left trans_less_add1)
qed

lemma copy_inv_step:
  assumes inv: "copy_inv src so dst doff n invert st" and lt: "bitPos st < n"
    and src: "so + n \<le> 64 * length src" and dst: "doff + n \<le> 64 * length dst"
  shows "\<exists>st'. copy_step src n invert st = Some st' \<and> copy_inv src so dst doff n invert st' \<and> bitPos st < bitPos st'"
proof -
  let ?b = "bitPos st" and ?s = "srcBit st" and ?d = "dstBit st" and ?se = "srcEntry st" and ?de = "dstEntry st"
  have i: "?s < 64" "?d < 64" "64 * ?se + ?s = so + ?b" "64 * ?de + ?d = doff + ?b" "length (dstEntries st) = length dst"
    using inv lt by (auto simp: copy_inv_def)
  define k where "k = min (64 - max ?s ?d) (n - ?b)"
  have kp: "0 < k" "?s + k \<le> 64" "?d + k \<le> 64" "?b + k \<le> n" using i lt by (auto simp: k_def)
  have se: "?se < length src" "?de < length (dstEntries st)" using i src dst lt by linarith+
  from copy_step_ok[OF se i(1,2) lt k_def, of invert] obtain st' v where c: "copy_step src n invert st = Some st'" "bitPos st' = ?b + k"
    "dstEntries st' = (dstEntries st)[?de := v]"
    "\<forall>j < 64. bit v j = (if ?d \<le> j \<and> j < ?d + k then bit (src ! ?se) (?s + (j - ?d)) \<noteq> invert else bit (dstEntries st ! ?de) j)"
    "hasNull st' \<longleftrightarrow> hasNull st \<or> (\<exists>i < k. bit (src ! ?se) (?s + i) \<noteq> invert)"
    "?b + k < n \<longrightarrow> srcBit st' < 64 \<and> dstBit st' < 64 \<and> 64 * srcEntry st' + srcBit st' = 64 * ?se + ?s + k \<and>
       64 * dstEntry st' + dstBit st' = 64 * ?de + ?d + k" by blast
  have sbit: "bit (src ! ?se) (?s + x) = nbit src (so + ?b + x)" if "x < k" for x
  proof -
    have "so + ?b + x = 64 * ?se + (?s + x)" "?s + x < 64" using i(3) that kp by simp_all
    then show ?thesis by (simp only: nbit_at)
  qed
  have new: "nbit (dstEntries st') p = (if doff \<le> p \<and> p < doff + (?b + k) then nbit src (so + (p - doff)) \<noteq> invert else nbit dst p)"
    if p: "p < 64 * length dst" for p
  proof -
    have old: "nbit (dstEntries st) p = (if doff \<le> p \<and> p < doff + ?b then nbit src (so + (p - doff)) \<noteq> invert else nbit dst p)"
      using inv p by (auto simp: copy_inv_def)
    show ?thesis
    proof (cases "doff + ?b \<le> p \<and> p < doff + ?b + k")
      case True
      then have "64 * ?de + ?d \<le> p" "p < 64 * ?de + (?d + k)" using i(4) by simp_all
      then have e: "p div 64 = ?de" using kp(3) by (auto intro: div_nat_eqI)
      then have m: "p mod 64 = p - 64 * ?de" by (metis minus_mult_div_eq_mod)
      have j: "?d \<le> p mod 64" "p mod 64 < ?d + k" using True i(4) m by linarith+
      have "p mod 64 - ?d = p - (doff + ?b)" using m i(4) True by simp
      then have "nbit (dstEntries st') p = (nbit src (so + ?b + (p - (doff + ?b))) \<noteq> invert)"
        using c(3,4) e j sbit[of "p mod 64 - ?d"] se(2) by (simp add: nbit_def)
      moreover have "so + ?b + (p - (doff + ?b)) = so + (p - doff)" using True by simp
      ultimately show ?thesis using True by simp
    next
      case False
      have "nbit (dstEntries st') p = nbit (dstEntries st) p"
      proof (cases "p div 64 = ?de")
        case True
        then have "\<not> (?d \<le> p mod 64 \<and> p mod 64 < ?d + k)" using False i(4) div_mult_mod_eq[of p 64] by auto
        then show ?thesis using c(3,4) True se(2) by (auto simp: nbit_def)
      qed (simp add: c(3) nbit_def)
      with old False show ?thesis by auto
    qed
  qed
  have "hasNull st' \<longleftrightarrow> (\<exists>q < ?b + k. nbit src (so + q) \<noteq> invert)"
  proof -
    have "(\<exists>q < ?b + k. nbit src (so + q) \<noteq> invert) \<longleftrightarrow>
        (\<exists>q < ?b. nbit src (so + q) \<noteq> invert) \<or> (\<exists>x < k. nbit src (so + ?b + x) \<noteq> invert)"
      using ex_less_add[of ?b k "\<lambda>q. nbit src (so + q) \<noteq> invert"] by (simp only: add.assoc)
    then show ?thesis using c(5) inv sbit by (auto simp: copy_inv_def)
  qed
  with new c i kp show ?thesis by (intro exI[of _ st']) (auto simp: copy_inv_def)
qed

text \<open>A copy: the bits of a range come from the source, the others stay.\<close>

definition copied :: "64 word list \<Rightarrow> nat \<Rightarrow> 64 word list \<Rightarrow> nat \<Rightarrow> nat \<Rightarrow> bool \<Rightarrow> 64 word list \<Rightarrow> bool" where
  "copied src so dst doff n invert dst' \<longleftrightarrow> length dst' = length dst \<and>
     (\<forall>p < 64 * length dst. nbit dst' p =
        (if doff \<le> p \<and> p < doff + n then nbit src (so + (p - doff)) \<noteq> invert else nbit dst p))"

lemma copied_empty: "copied src so dst doff 0 invert dst"
  by (auto simp: copied_def)

lemma copied_trans:
  assumes "copied src so dst doff n invert dst'" "copied src (so + n) dst' (doff + n) k invert dst''"
  shows "copied src so dst doff (n + k) invert dst''"
  using assms unfolding copied_def by auto

lemma copy_loop_ok:
  assumes "so + n \<le> 64 * length src" "doff + n \<le> 64 * length dst"
  shows "copy_inv src so dst doff n invert st \<Longrightarrow>
    \<exists>st'. copy_loop src n invert st = Some st' \<and> copy_inv src so dst doff n invert st' \<and> bitPos st' = n"
proof (induction "n - bitPos st" arbitrary: st rule: less_induct)
  case less
  show ?case
  proof (cases "bitPos st < n")
    case True
    from copy_inv_step[OF less.prems True assms] obtain st' where
      st': "copy_step src n invert st = Some st'" "copy_inv src so dst doff n invert st'" "bitPos st < bitPos st'" by blast
    have "n - bitPos st' < n - bitPos st" using st'(3) True by simp
    from less.hyps[OF this st'(2)] obtain st'' where
      "copy_loop src n invert st' = Some st''" "copy_inv src so dst doff n invert st''" "bitPos st'' = n" by blast
    with st'(1) True show ?thesis by (subst copy_loop.simps) simp
  next
    case False
    with less.prems show ?thesis by (subst copy_loop.simps) (auto simp: copy_inv_def)
  qed
qed

lemma copyUnaligned_ok:
  assumes "so + n \<le> 64 * length src" "doff + n \<le> 64 * length dst"
  shows "\<exists>dst'. copyUnaligned src so dst doff n invert = Some (dst', \<exists>i < n. nbit src (so + i) \<noteq> invert) \<and>
    copied src so dst doff n invert dst'"
proof -
  let ?st = "\<lparr>bitPos = 0, srcEntry = so div 64, srcBit = so mod 64, dstEntry = doff div 64, dstBit = doff mod 64,
    dstEntries = dst, hasNull = False\<rparr>"
  have "copy_inv src so dst doff n invert ?st" by (auto simp: copy_inv_def)
  from copy_loop_ok[OF assms this] obtain st' where
    "copy_loop src n invert ?st = Some st'" "copy_inv src so dst doff n invert st'" "bitPos st' = n" by blast
  then show ?thesis by (simp add: copyUnaligned_def bitpos copy_inv_def copied_def)
qed

text \<open>The copy bit by bit.\<close>

lemma copied_one:
  assumes "unat (of_nat (so + n) :: 32 word) = so + n" "unat (of_nat (doff + n) :: 32 word) = doff + n"
    and "so + n < 64 * length src" "doff + n < 64 * length dst" and "length dst' = length dst"
  shows "isNull_entries src (of_nat (so + n)) = Some (nbit src (so + n))"
    and "\<exists>dst''. setNull_entries dst' (of_nat (doff + n)) (nbit src (so + n) \<noteq> invert) = Some dst'' \<and>
      copied src (so + n) dst' (doff + n) 1 invert dst''"
proof -
  show "isNull_entries src (of_nat (so + n)) = Some (nbit src (so + n))"
    using isNull_entries_ok[of "of_nat (so + n)" src] assms by (simp del: of_nat_add)
  from setNull_entries_ok[of "of_nat (doff + n)" dst' "nbit src (so + n) \<noteq> invert"] assms obtain d where
    "setNull_entries dst' (of_nat (doff + n)) (nbit src (so + n) \<noteq> invert) = Some d" "length d = length dst'"
    "\<forall>p < 64 * length dst'. nbit d p = (if p = doff + n then nbit src (so + n) \<noteq> invert else nbit dst' p)"
    by (auto simp del: of_nat_add)
  then show "\<exists>dst''. setNull_entries dst' (of_nat (doff + n)) (nbit src (so + n) \<noteq> invert) = Some dst'' \<and>
      copied src (so + n) dst' (doff + n) 1 invert dst''"
    by (intro exI[of _ d]) (auto simp: copied_def simp del: of_nat_add)
qed

lemma copy_small_ok:
  assumes "so + n \<le> 64 * length src" "doff + n \<le> 64 * length dst" "so + n \<le> 2 ^ 32" "doff + n \<le> 2 ^ 32"
  shows "\<exists>dst'. copy_small src so dst doff n invert = Some (dst', \<exists>i < n. nbit src (so + i)) \<and>
    copied src so dst doff n invert dst'"
  using assms
proof (induction n)
  case 0
  then show ?case by (simp add: copy_small_def copied_empty)
next
  case (Suc n)
  then obtain d where d: "copy_small src so dst doff n invert = Some (d, \<exists>i < n. nbit src (so + i))"
    "copied src so dst doff n invert d" by auto
  have u: "unat (of_nat (so + n) :: 32 word) = so + n" "unat (of_nat (doff + n) :: 32 word) = doff + n"
    using Suc.prems by (simp_all add: unat_of_nat take_bit_nat_eq_self_iff del: of_nat_add)
  have l: "length d = length dst" using d(2) by (simp add: copied_def)
  have b: "so + n < 64 * length src" "doff + n < 64 * length dst" using Suc.prems by simp_all
  from copied_one(2)[OF u b l] obtain d' where d': "setNull_entries d (of_nat (doff + n)) (nbit src (so + n) \<noteq> invert) = Some d'"
    "copied src (so + n) d (doff + n) 1 invert d'" by blast
  have "copy_small src so dst doff (Suc n) invert = Some (d', (\<exists>i < n. nbit src (so + i)) \<or> nbit src (so + n))"
    using d(1) d'(1) copied_one(1)[OF u b l] unfolding copy_small_def by (simp add: foldM_append del: of_nat_add)
  moreover have "(\<exists>i < Suc n. nbit src (so + i)) \<longleftrightarrow> (\<exists>i < n. nbit src (so + i)) \<or> nbit src (so + n)" by (auto simp: less_Suc_eq)
  ultimately show ?case using copied_trans[OF d(2) d'(2)] by simp
qed

text \<open>The copy of whole bytes.\<close>

lemma in_byte: "r div 8 = a \<longleftrightarrow> 8 * a \<le> r \<and> r < 8 * a + 8" "r div 8 = a \<Longrightarrow> r mod 8 = r - 8 * a" for r a :: nat
proof -
  have "r = 8 * (r div 8) + r mod 8" "r mod 8 < 8" by simp_all
  then show "r div 8 = a \<longleftrightarrow> 8 * a \<le> r \<and> r < 8 * a + 8" "r div 8 = a \<Longrightarrow> r mod 8 = r - 8 * a" by linarith+
qed

lemma byte_pos: "p div 8 = i \<longleftrightarrow> p div 64 = i div 8 \<and> p mod 64 div 8 = i mod 8" "p mod 64 mod 8 = p mod 8" for p i :: nat
proof -
  have "p div 64 = p div 8 div 8" by (simp flip: div_mult2_eq)
  moreover have "p mod 64 div 8 = p div 8 mod 8" using mod_mult2_eq[of p 8 8] by simp
  ultimately show "p div 8 = i \<longleftrightarrow> p div 64 = i div 8 \<and> p mod 64 div 8 = i mod 8" by (metis div_mult_mod_eq)
  show "p mod 64 mod 8 = p mod 8" by (simp add: mod_mod_cancel)
qed

lemma bit_get_byte: "bit (get_byte es i) j \<longleftrightarrow> j < 8 \<and> nbit es (8 * i + j)"
proof (cases "j < 8")
  case True
  then have "(8 * i + j) div 8 = i" "(8 * i + j) mod 8 = j" by simp_all
  with byte_pos(1)[of "8 * i + j" i] byte_pos(2)[of "8 * i + j"] have "(8 * i + j) div 64 = i div 8" "(8 * i + j) mod 64 = 8 * (i mod 8) + j"
    using div_mult_mod_eq[of "(8 * i + j) mod 64" 8] by simp_all
  with True show ?thesis by (simp add: get_byte_def nbit_def bit_simps)
qed (simp add: get_byte_def bit_simps)

lemma set_byte_ok:
  assumes "i < 8 * length es" "p < 64 * length es" "\<And>j. bit v j \<Longrightarrow> j < 8"
  shows "nbit (set_byte es i v) p = (if p div 8 = i then bit v (p mod 8) else nbit es p)"
proof -
  let ?r = "p mod 64" and ?k = "8 * (i mod 8)"
  have i: "i div 8 < length es" using assms(1) by auto
  have k: "?k \<le> ?r \<and> ?r < ?k + 8 \<longleftrightarrow> ?r div 8 = i mod 8" "?r div 8 = i mod 8 \<Longrightarrow> ?r - ?k = p mod 8"
    using in_byte[of ?r "i mod 8"] byte_pos(2)[of p] by auto
  have "bit ((w AND NOT (push_bit ?k (mask 8))) OR push_bit ?k v) ?r =
      (if ?k \<le> ?r \<and> ?r < ?k + 8 then bit v (?r - ?k) else bit w ?r)" for w :: "64 word"
    using assms(3) by (auto simp: bit_simps) force
  then show ?thesis using i k by (auto simp: set_byte_def nth_list_update byte_pos(1)[of p i] nbit_def)
qed

lemma copied_byte:
  assumes "i < 8 * length dst" "j < 8 * length src"
  shows "copied src (8 * j) dst (8 * i) 8 False (set_byte dst i (get_byte src j))"
proof -
  have "nbit (set_byte dst i (get_byte src j)) p =
      (if 8 * i \<le> p \<and> p < 8 * i + 8 then nbit src (8 * j + (p - 8 * i)) else nbit dst p)" if "p < 64 * length dst" for p
  proof -
    have "p div 8 = i \<longleftrightarrow> 8 * i \<le> p \<and> p < 8 * i + 8" "p div 8 = i \<Longrightarrow> p mod 8 = p - 8 * i"
      using in_byte[of p i] by auto
    with set_byte_ok[OF assms(1) that, of "get_byte src j"] show ?thesis by (auto simp: bit_get_byte)
  qed
  then show ?thesis by (auto simp: copied_def set_byte_def)
qed

lemma copied_bytes:
  assumes "j + n \<le> 8 * length src" "i + n \<le> 8 * length dst"
  shows "copied src (8 * j) dst (8 * i) (8 * n) False
    (foldl (\<lambda>es x. set_byte es (i + x) (get_byte src (j + x))) dst [0..<n])"
  using assms
proof (induction n)
  case (Suc n)
  let ?d = "foldl (\<lambda>es x. set_byte es (i + x) (get_byte src (j + x))) dst [0..<n]"
  have d: "copied src (8 * j) dst (8 * i) (8 * n) False ?d" using Suc by simp
  then have "i + n < 8 * length ?d" using Suc.prems by (simp add: copied_def)
  from copied_byte[OF this, of "j + n" src] Suc.prems
  have "copied src (8 * j + 8 * n) ?d (8 * i + 8 * n) 8 False (set_byte ?d (i + n) (get_byte src (j + n)))"
    by (simp add: algebra_simps)
  from copied_trans[OF d this] show ?case by (simp add: algebra_simps)
qed (simp add: copied_empty)

lemma any_byte: "list_ex (\<lambda>i. get_byte src (j + i) \<noteq> 0) [0..<n] \<longleftrightarrow> (\<exists>x < 8 * n. nbit src (8 * j + x))"
proof
  assume "list_ex (\<lambda>i. get_byte src (j + i) \<noteq> 0) [0..<n]"
  then obtain i b where "i < n" "bit (get_byte src (j + i)) b" by (auto simp: list_ex_iff nonzero_bit)
  then have "b < 8" "nbit src (8 * j + (8 * i + b))" by (simp_all add: bit_get_byte algebra_simps)
  moreover have "8 * i + b < 8 * n" using \<open>i < n\<close> \<open>b < 8\<close> by simp
  ultimately show "\<exists>x < 8 * n. nbit src (8 * j + x)" by blast
next
  assume "\<exists>x < 8 * n. nbit src (8 * j + x)"
  then obtain x where x: "x < 8 * n" "nbit src (8 * j + x)" by blast
  have "8 * (j + x div 8) + x mod 8 = 8 * j + x" by (simp add: algebra_simps)
  with x(2) have "bit (get_byte src (j + x div 8)) (x mod 8)" by (simp only: bit_get_byte mod_less_divisor zero_less_numeral simp_thms)
  moreover have "x div 8 < n" using x(1) by auto
  ultimately show "list_ex (\<lambda>i. get_byte src (j + i) \<noteq> 0) [0..<n]" by (auto simp: list_ex_iff nonzero_bit)
qed

lemma copy_aligned_ok:
  assumes so: "so + n \<le> 64 * length src" and dst: "doff + n \<le> 64 * length dst" and al: "so mod 8 = doff mod 8" and n: "8 \<le> n"
  shows "\<exists>dst'. copy_aligned src so dst doff n = Some (dst', \<exists>i < n. nbit src (so + i)) \<and> copied src so dst doff n False dst'"
proof -
  define f where "f = (if so \<noteq> 0 then 8 - so mod 8 else 0)"
  have f: "f \<le> 8" by (simp add: f_def)
  have fm: "(so + f) mod 8 = 0"
  proof (cases "so = 0")
    case False
    then have "f = 8 - so mod 8" "so mod 8 < 8" by (simp_all add: f_def)
    then show ?thesis by presburger
  qed (simp add: f_def)
  have dm: "(doff + f) mod 8 = 0" using fm al by (metis mod_add_cong)
  obtain d0 where d0: "(if so \<noteq> 0 then do { let n = 8 - so mod 8; (dst, r) \<leftarrow> copyUnaligned src so dst doff n False; Some (dst, n, r) }
      else Some (dst, 0, False)) = Some (d0, f, \<exists>i < f. nbit src (so + i))" "copied src so dst doff f False d0"
  proof (cases "so = 0")
    case True
    then show ?thesis using that[of dst] by (simp add: f_def copied_empty)
  next
    case False
    obtain d where "copyUnaligned src so dst doff f False = Some (d, \<exists>i < f. nbit src (so + i) \<noteq> False)" "copied src so dst doff f False d"
      using copyUnaligned_ok[of so f src doff dst False] so dst n f by auto
    with False show ?thesis using that[of d] by (simp add: f_def Let_def)
  qed
  define sb db m where "sb = (so + f) div 8" and "db = (doff + f) div 8" and "m = (n - f) div 8"
  have b: "so + f = 8 * sb" "doff + f = 8 * db" using fm dm by (simp_all add: sb_def db_def mult.commute dvd_eq_mod_eq_0)
  have m: "f + 8 * m \<le> n" using n f div_times_less_eq_dividend[of "n - f" 8] by (simp add: m_def)
  define d1 where "d1 = foldl (\<lambda>es i. set_byte es (db + i) (get_byte src (sb + i))) d0 [0..<m]"
  have len: "length d0 = length dst" using d0(2) by (simp add: copied_def)
  have bounds: "sb + m \<le> 8 * length src" "db + m \<le> 8 * length d0" using b m so dst len by linarith+
  have "copied src (so + f) d0 (doff + f) (8 * m) False d1"
    using copied_bytes[OF bounds] by (simp only: b d1_def)
  from copied_trans[OF d0(2) this] have d1: "copied src so dst doff (f + 8 * m) False d1" .
  have l1: "length d1 = length dst" using d1 by (simp add: copied_def)
  define k where "k = n - f - m * 8"
  have kn: "n = (f + 8 * m) + k" using m by (simp add: k_def)
  obtain d2 where d2: "copyUnaligned src (so + (f + m * 8)) d1 (doff + (f + m * 8)) k False =
      Some (d2, \<exists>i < k. nbit src (so + (f + m * 8) + i) \<noteq> False)" "copied src (so + (f + m * 8)) d1 (doff + (f + m * 8)) k False d2"
    using copyUnaligned_ok[of "so + (f + m * 8)" k src "doff + (f + m * 8)" d1 False] so dst l1 kn by (auto simp: mult.commute)
  have c2: "copied src so dst doff n False d2"
    using copied_trans[OF d1, of k d2] d2(2) kn by (simp add: mult.commute add.assoc)
  have any: "(\<exists>i < n. nbit src (so + i)) \<longleftrightarrow> (\<exists>i < f. nbit src (so + i)) \<or> (\<exists>x < 8 * m. nbit src (8 * sb + x)) \<or>
      (\<exists>i < k. nbit src (so + (f + m * 8) + i))"
    unfolding kn ex_less_add b(1)[symmetric] by (auto simp: add.assoc mult.commute)
  have run: "copy_aligned src so dst doff n =
      (if k > 0 then do { (d, r) \<leftarrow> copyUnaligned src (so + (f + m * 8)) d1 (doff + (f + m * 8)) k False;
         Some (d, r \<or> (\<exists>i < f. nbit src (so + i)) \<or> (\<exists>x < 8 * m. nbit src (8 * sb + x))) }
       else Some (d1, (\<exists>i < f. nbit src (so + i)) \<or> (\<exists>x < 8 * m. nbit src (8 * sb + x))))"
    using bounds len unfolding copy_aligned_def d0(1) any_byte[symmetric] k_def d1_def m_def sb_def db_def by (simp add: Let_def)
  show ?thesis
  proof (cases "k > 0")
    case True
    then show ?thesis using run d2(1) c2 any by (intro exI[of _ d2]) auto
  next
    case False
    then show ?thesis using run any d1 kn by (intro exI[of _ d1]) auto
  qed
qed

text \<open>The routine as a whole; with three bits or less it reports nulls of the source, whatever it stores.\<close>

lemma copyNullMask_ok:
  assumes "so + n \<le> 64 * length src" "doff + n \<le> 64 * length dst" "n \<le> 3 \<Longrightarrow> so + n \<le> 2 ^ 32 \<and> doff + n \<le> 2 ^ 32"
  shows "\<exists>dst'. copyNullMask src so dst doff n invert = Some (dst', \<exists>i < n. nbit src (so + i) \<noteq> (invert \<and> n > 3)) \<and>
    copied src so dst doff n invert dst'"
proof -
  consider "n \<le> 3" | "n > 3" "\<not> invert \<and> so mod 8 = doff mod 8 \<and> n \<ge> 8 \<and> n - so mod 8 \<ge> 8"
    | "n > 3" "\<not> (\<not> invert \<and> so mod 8 = doff mod 8 \<and> n \<ge> 8 \<and> n - so mod 8 \<ge> 8)" by linarith
  then show ?thesis
  proof cases
    case 1
    then show ?thesis using copy_small_ok[of so n src doff dst invert] assms by (simp add: copyNullMask_def)
  next
    case 2
    then have "\<not> invert" "so mod 8 = doff mod 8" "8 \<le> n" "8 \<le> n - so mod 8" by blast+
    then show ?thesis using copy_aligned_ok[OF assms(1,2)] 2(1) by (simp add: copyNullMask_def)
  next
    case 3
    then have "copyNullMask src so dst doff n invert = copyUnaligned src so dst doff n invert"
      unfolding copyNullMask_def by (metis not_le)
    then show ?thesis using copyUnaligned_ok[OF assms(1,2), of invert] 3(1) by simp
  qed
qed

text \<open>Whether all and whether some bits of a range are set.\<close>

lemma all_less_add: "(\<forall>q < b + k. P q) \<longleftrightarrow> (\<forall>q < b. P q) \<and> (\<forall>x < k. P (b + x))" for b k :: nat
  using ex_less_add[of b k "\<lambda>q. \<not> P q"] by blast

lemma masked_range:
  assumes "\<And>j. bit (m :: 64 word) j \<longleftrightarrow> lo \<le> j \<and> j < lo + n" "lo + n \<le> 64"
  shows "w AND m = 0 \<longleftrightarrow> (\<forall>i < n. \<not> bit w (lo + i))" "w AND m = m \<longleftrightarrow> (\<forall>i < n. bit w (lo + i))"
proof -
  have "(\<forall>j. lo \<le> j \<and> j < lo + n \<longrightarrow> P j) \<longleftrightarrow> (\<forall>i < n. P (lo + i))" for P
    by (metis add_less_cancel_left le_add1 le_iff_add)
  moreover have "w AND m = 0 \<longleftrightarrow> (\<forall>j. lo \<le> j \<and> j < lo + n \<longrightarrow> \<not> bit w j)"
    using nonzero_bit[of "w AND m"] assms(1) by (auto simp: bit_simps)
  moreover have "w AND m = m \<longleftrightarrow> (\<forall>j. lo \<le> j \<and> j < lo + n \<longrightarrow> bit w j)"
    unfolding bit_eq_iff using assms by (auto simp: bit_simps) (meson order.strict_trans2)
  ultimately show "w AND m = 0 \<longleftrightarrow> (\<forall>i < n. \<not> bit w (lo + i))" "w AND m = m \<longleftrightarrow> (\<forall>i < n. bit w (lo + i))" by simp_all
qed

lemma masked_min_max_ok:
  assumes "\<And>j. bit (m :: 64 word) j \<longleftrightarrow> lo \<le> j \<and> j < lo + n" "lo + n \<le> 64" "0 < n"
  shows "masked_min_max (es ! e) m = (\<forall>i < n. nbit es (64 * e + lo + i), \<exists>i < n. nbit es (64 * e + lo + i))"
proof -
  have "nbit es (64 * e + lo + i) = bit (es ! e) (lo + i)" if "i < n" for i
    using nbit_at[of "lo + i" es e] that assms(2) by (simp add: add.assoc)
  then show ?thesis using masked_range[OF assms(1,2), of "es ! e"] assms(3) by (auto simp: masked_min_max_def Let_def)
qed

lemma full_entries:
  assumes "e + k \<le> length es"
  shows "list_ex (\<lambda>i. es ! (e + i) \<noteq> (if b then NOT 0 else 0)) [0..<k] \<longleftrightarrow> (\<exists>i < 64 * k. nbit es (64 * e + i) \<noteq> b)"
proof -
  have w: "(w :: 64 word) \<noteq> (if b then NOT 0 else 0) \<longleftrightarrow> (\<exists>j < 64. bit w j \<noteq> b)" for w
    by (auto simp: bit_eq_iff bit_simps dest: bit_imp_le_length)
  have pos: "nbit es (64 * e + (64 * i + j)) = bit (es ! (e + i)) j" if "j < 64" for i j
    using nbit_at[OF that, of es "e + i"] by (simp add: algebra_simps)
  have "(\<exists>i < k. \<exists>j < 64. Q (64 * i + j)) \<longleftrightarrow> (\<exists>x < 64 * k. Q x)" for Q
  proof
    assume "\<exists>i < k. \<exists>j < 64. Q (64 * i + j)"
    then obtain i j where "i < k" "j < 64" "Q (64 * i + j)" by blast
    moreover from this have "64 * i + j < 64 * k" by simp
    ultimately show "\<exists>x < 64 * k. Q x" by blast
  next
    assume "\<exists>x < 64 * k. Q x"
    then obtain x where "x < 64 * k" "Q (64 * (x div 64) + x mod 64)" by auto
    moreover from this have "x div 64 < k" by auto
    ultimately show "\<exists>i < k. \<exists>j < 64. Q (64 * i + j)" by (meson mod_less_divisor zero_less_numeral)
  qed
  from this[of "\<lambda>x. nbit es (64 * e + x) \<noteq> b"] have
    "(\<exists>i < k. \<exists>j < 64. bit (es ! (e + i)) j \<noteq> b) \<longleftrightarrow> (\<exists>x < 64 * k. nbit es (64 * e + x) \<noteq> b)" using pos by (metis (no_types))
  then show ?thesis unfolding list_ex_iff w by auto
qed

lemma getMinMax_tail_ok:
  assumes "64 * e + n \<le> 64 * length es"
  shows "getMinMax_tail es e n b b = Some (b \<and> (\<forall>i < n. nbit es (64 * e + i)), b \<or> (\<exists>i < n. nbit es (64 * e + i)))"
proof -
  define k l where "k = n div 64" and "l = n mod 64"
  have n: "n = 64 * k + l" "l < 64" by (simp_all add: k_def l_def)
  have k: "e + k \<le> length es" "0 < l \<Longrightarrow> e + k < length es" using assms n by linarith+
  have split: "(\<forall>i < n. nbit es (64 * e + i)) \<longleftrightarrow> (\<forall>i < 64 * k. nbit es (64 * e + i)) \<and> (\<forall>i < l. bit (es ! (e + k)) i)"
    "(\<exists>i < n. nbit es (64 * e + i)) \<longleftrightarrow> (\<exists>i < 64 * k. nbit es (64 * e + i)) \<or> (\<exists>i < l. bit (es ! (e + k)) i)"
    using nbit_at[of _ es "e + k"] n(2) unfolding n(1) all_less_add ex_less_add by (auto simp: algebra_simps)
  have m: "bit (NULL_LOWER_MASKS ! l) j \<longleftrightarrow> 0 \<le> j \<and> j < 0 + l" for j using n(2) by (simp add: bit_masks)
  note full = full_entries[OF k(1), of b] and last = masked_range[OF m, of "es ! (e + k)"]
  show ?thesis
  proof (cases "\<exists>i < 64 * k. nbit es (64 * e + i) \<noteq> b")
    case True
    with full k(1) show ?thesis unfolding split getMinMax_tail_def k_def[symmetric] Let_def by (cases b) auto
  next
    case False
    with full k last n(2) show ?thesis unfolding split getMinMax_tail_def k_def[symmetric] l_def[symmetric] Let_def
      by (cases b; cases "l = 0") auto
  qed
qed

lemma getMinMax_ok:
  assumes "offset + n \<le> 64 * length es" "0 < n"
  shows "getMinMax es offset n = Some (\<forall>i < n. nbit es (offset + i), \<exists>i < n. nbit es (offset + i))"
proof -
  define e x where "e = offset div 64" and "x = offset mod 64"
  have o: "offset = 64 * e + x" "x < 64" by (simp_all add: e_def x_def)
  have e: "e < length es" using assms o by linarith
  consider "x + n \<le> 64" | "x + n > 64" "x > 0" | "x = 0" "n > 64" using o(2) by linarith
  then show ?thesis
  proof cases
    case 1
    have "bit (NULL_HIGH_MASKS ! (64 - x) AND NULL_LOWER_MASKS ! (x + n)) j \<longleftrightarrow> x \<le> j \<and> j < x + n" for j
      using o(2) 1 by (auto simp: bit_simps bit_masks)
    note m = masked_min_max_ok[OF this 1 assms(2), of es e]
    have "getMinMax es offset n = Some (masked_min_max (es ! e) (NULL_HIGH_MASKS ! (64 - x) AND NULL_LOWER_MASKS ! (x + n)))"
      using e 1 unfolding getMinMax_def e_def[symmetric] x_def[symmetric] Let_def by simp
    then show ?thesis unfolding m o(1) .
  next
    case 2
    define k where "k = n - (64 - x)"
    have n: "n = (64 - x) + k" "64 * (e + 1) + k \<le> 64 * length es" using 2 o assms(1) by (simp_all add: k_def)
    have p: "64 * e + x + ((64 - x) + i) = 64 * (e + 1) + i" for i using o(2) by simp
    have "bit (NULL_HIGH_MASKS ! (64 - x)) j \<longleftrightarrow> x \<le> j \<and> j < x + (64 - x)" for j using o(2) by (auto simp: bit_masks)
    from masked_min_max_ok[OF this, of es e] o(2)
    have first: "masked_min_max (es ! e) (NULL_HIGH_MASKS ! (64 - x)) =
        (\<forall>i < 64 - x. nbit es (64 * e + x + i), \<exists>i < 64 - x. nbit es (64 * e + x + i))" by simp
    have run: "getMinMax es offset n = (if fst (masked_min_max (es ! e) (NULL_HIGH_MASKS ! (64 - x))) \<noteq> snd (masked_min_max (es ! e) (NULL_HIGH_MASKS ! (64 - x)))
        then Some (False, True)
        else getMinMax_tail es (e + 1) k (fst (masked_min_max (es ! e) (NULL_HIGH_MASKS ! (64 - x)))) (snd (masked_min_max (es ! e) (NULL_HIGH_MASKS ! (64 - x)))))"
      using e 2 unfolding getMinMax_def e_def[symmetric] x_def[symmetric] Let_def k_def by (simp add: case_prod_beta)
    have ne: "0 < 64 - x" using o(2) by simp
    have split: "(\<forall>i < n. nbit es (offset + i)) \<longleftrightarrow> (\<forall>i < 64 - x. nbit es (64 * e + x + i)) \<and> (\<forall>i < k. nbit es (64 * (e + 1) + i))"
      "(\<exists>i < n. nbit es (offset + i)) \<longleftrightarrow> (\<exists>i < 64 - x. nbit es (64 * e + x + i)) \<or> (\<exists>i < k. nbit es (64 * (e + 1) + i))"
      unfolding n(1) all_less_add ex_less_add o(1) p by simp_all
    show ?thesis
    proof (cases "(\<forall>i < 64 - x. nbit es (64 * e + x + i)) = (\<exists>i < 64 - x. nbit es (64 * e + x + i))")
      case True
      then show ?thesis unfolding run first split fst_conv snd_conv using getMinMax_tail_ok[OF n(2)] by simp
    next
      case False
      then have "\<not> (\<forall>i < 64 - x. nbit es (64 * e + x + i))" "\<exists>i < 64 - x. nbit es (64 * e + x + i)" using ne by blast+
      then show ?thesis unfolding run first split fst_conv snd_conv by simp
    qed
  next
    case 3
    have "isNull_entries (drop e es) 0 = Some (nbit (drop e es) 0)" using isNull_entries_ok[of 0 "drop e es"] e by simp
    moreover have "nbit (drop e es) 0 = nbit es (64 * e)" using e by (simp add: nbit_def)
    moreover have "64 * e + n \<le> 64 * length es" using assms o 3 by simp
    moreover have "getMinMax es offset n = Option.bind (isNull_entries (drop e es) 0) (\<lambda>b. getMinMax_tail es e n b b)"
      using e 3 unfolding getMinMax_def e_def[symmetric] x_def[symmetric] Let_def by simp
    moreover have "(\<forall>i < n. nbit es (64 * e + i)) \<Longrightarrow> nbit es (64 * e)" "nbit es (64 * e) \<Longrightarrow> \<exists>i < n. nbit es (64 * e + i)"
      using assms(2) by (metis add.right_neutral)+
    ultimately show ?thesis using 3 o(1) getMinMax_tail_ok[of e n es] by auto
  qed
qed

text \<open>The number of nulls.\<close>

lemma nbit_append: "p < 64 * length es \<Longrightarrow> nbit (es @ fs) p = nbit es p"
  by (simp add: nbit_def nth_append entry_lt)

lemma popcount_card: "popcount w = card {j. j < 64 \<and> bit w j}"
  unfolding popcount_def by (subst distinct_card[symmetric]) (auto intro: arg_cong[of _ _ card])

lemma countNulls_card: "countNulls m = card {p. p < 64 * length (nm_data m) \<and> nbit (nm_data m) p}"
proof -
  have "foldl (\<lambda>sum entry. sum + popcount entry) 0 es = card {p. p < 64 * length es \<and> nbit es p}" for es
  proof (induction es rule: rev_induct)
    case (snoc w es)
    have last: "nbit (es @ [w]) (64 * length es + j) = bit w j" if "j < 64" for j
      using nbit_at[OF that, of "es @ [w]" "length es"] by simp
    have "{p. p < 64 * length (es @ [w]) \<and> nbit (es @ [w]) p} =
        {p. p < 64 * length es \<and> nbit es p} \<union> (\<lambda>j. 64 * length es + j) ` {j. j < 64 \<and> bit w j}" (is "?A = ?B \<union> ?C")
    proof (intro set_eqI iffI)
      fix p assume p: "p \<in> ?A"
      show "p \<in> ?B \<union> ?C"
      proof (cases "p < 64 * length es")
        case False
        with p have "p - 64 * length es < 64" "p = 64 * length es + (p - 64 * length es)" by auto
        with p last[of "p - 64 * length es"] show ?thesis by (metis (mono_tags, lifting) UnI2 imageI mem_Collect_eq)
      qed (use p in \<open>simp add: nbit_append\<close>)
    qed (auto simp: nbit_append last)
    moreover have "card (?B \<union> ?C) = card ?B + card ?C" by (intro card_Un_disjoint) auto
    moreover have "card ?C = popcount w" by (simp add: popcount_card card_image)
    ultimately show ?case using snoc by simp
  qed simp
  then show ?thesis by (simp add: countNulls_def)
qed

text \<open>The number of entries is rounded up also when the bits fill their entries.\<close>

lemma getNumNullEntries_ok: "getNumNullEntries n = (if n = 0 then 0 else drop_bit 6 n + 1)"
proof -
  have "n = 0" if "n - push_bit 6 n = 0"
  proof -
    have "n * 63 = push_bit 6 n - n" by (simp add: push_bit_eq_mult algebra_simps)
    with that have "n * 63 = 0" by simp
    then have "n * (63 * 17275522227759738815) = 0" by (metis mult.assoc mult_zero_left)
    moreover have "(63 * 17275522227759738815 :: 64 word) = 1" by code_simp
    ultimately show ?thesis by (simp only: mult_1_right)
  qed
  then show ?thesis by (auto simp: getNumNullEntries_def)
qed

section \<open>The guarantee\<close>

text \<open>
  A mask without \<open>mayContainNulls\<close> has no null. The masks that the operations build keep this, as long as
  no inverted copy has three bits or less and no disjunction adds nulls to a mask that flags none.
\<close>

definition guarantee :: "NullMask_t \<Rightarrow> bool" where
  "guarantee m \<longleftrightarrow> (hasNoNullsGuarantee m \<longrightarrow> countNulls m = 0)"

lemma guarantee_iff: "guarantee m \<longleftrightarrow> (mayContainNulls m \<or> (\<forall>p < 64 * length (nm_data m). \<not> nbit (nm_data m) p))"
  by (auto simp: guarantee_def hasNoNullsGuarantee_def countNulls_card)

lemma guarantee_new: "guarantee (new_NullMask capacity)"
  by (auto simp: guarantee_iff new_NullMask_def nbit_def entry_lt NO_NULL_ENTRY_def)

lemma guarantee_setAll: "guarantee m \<Longrightarrow> guarantee (setAllNonNull m)" "guarantee (setAllNull m)"
  by (auto simp: guarantee_iff setAllNonNull_def setAllNull_def nbit_def entry_lt NO_NULL_ENTRY_def)

lemma guarantee_setNull:
  assumes "guarantee m" "setNull pos b m = Some m'"
  shows "guarantee m'"
proof -
  from assms(2) obtain es where es: "unat pos < 64 * length (nm_data m)" "setNull_entries (nm_data m) pos b = Some es"
    "m' = \<lparr>nm_data = es, mayContainNulls = (b \<or> mayContainNulls m)\<rparr>"
    by (auto simp: setNull_def getNumNullBits_def mult.commute split: bind_splits)
  with setNull_entries_ok[OF es(1), of b] assms(1) show ?thesis by (auto simp: guarantee_iff)
qed

lemma guarantee_setNullFromRange:
  assumes "guarantee m" "setNullFromRange offset n b m = Some m'"
  shows "guarantee m'"
proof -
  from assms(2) obtain es where es: "offset + n \<le> 64 * length (nm_data m)" "setNullRange (nm_data m) offset n b = Some es"
    "m' = \<lparr>nm_data = es, mayContainNulls = (b \<or> mayContainNulls m)\<rparr>"
    by (auto simp: setNullFromRange_def getNumNullBits_def mult.commute split: bind_splits)
  with setNullRange_ok[OF es(1), of b] assms(1) show ?thesis by (auto simp: guarantee_iff)
qed

text \<open>The range a copy reads and writes; the copy bit by bit takes 32-bit positions.\<close>

definition copy_range :: "64 word list \<Rightarrow> nat \<Rightarrow> 64 word list \<Rightarrow> nat \<Rightarrow> nat \<Rightarrow> bool" where
  "copy_range src so dst doff n \<longleftrightarrow> so + n \<le> 64 * length src \<and> doff + n \<le> 64 * length dst \<and>
     (n \<le> 3 \<longrightarrow> so + n \<le> 2 ^ 32 \<and> doff + n \<le> 2 ^ 32)"

lemma copyFromNullBits_ok:
  assumes "copy_range src so (nm_data m) doff n"
  shows "\<exists>m'. copyFromNullBits src so doff n invert m = Some (m', \<exists>i < n. nbit src (so + i) \<noteq> (invert \<and> n > 3)) \<and>
    copied src so (nm_data m) doff n invert (nm_data m') \<and>
    mayContainNulls m' = (mayContainNulls m \<or> (\<exists>i < n. nbit src (so + i) \<noteq> (invert \<and> n > 3)))"
proof -
  from copyNullMask_ok[of so n src doff "nm_data m" invert] assms obtain d where
    "copyNullMask src so (nm_data m) doff n invert = Some (d, \<exists>i < n. nbit src (so + i) \<noteq> (invert \<and> n > 3))"
    "copied src so (nm_data m) doff n invert d" by (auto simp: copy_range_def)
  with assms show ?thesis by (auto simp: copyFromNullBits_def copy_range_def getNumNullBits_def mult.commute)
qed

lemma copyFrom_ok:
  assumes "copy_range (nm_data other) so (nm_data m) doff n" "guarantee other"
  shows "\<exists>m' r. copyFrom other so doff n invert m = Some (m', r) \<and> copied (nm_data other) so (nm_data m) doff n invert (nm_data m')"
proof (cases "hasNoNullsGuarantee other")
  case True
  with assms(2) have none: "\<not> nbit (nm_data other) p" if "p < 64 * length (nm_data other)" for p
    using that by (auto simp: guarantee_iff hasNoNullsGuarantee_def)
  from setNullRange_ok[of doff n "nm_data m" invert] assms(1) obtain es where es: "setNullRange (nm_data m) doff n invert = Some es"
    "length es = length (nm_data m)"
    "\<forall>p < 64 * length (nm_data m). nbit es p = (if doff \<le> p \<and> p < doff + n then invert else nbit (nm_data m) p)"
    by (auto simp: copy_range_def)
  have "nbit (nm_data other) (so + (p - doff)) \<noteq> invert \<longleftrightarrow> invert" if "doff \<le> p" "p < doff + n" for p
  proof -
    have "so + (p - doff) < 64 * length (nm_data other)" using that assms(1) unfolding copy_range_def by linarith
    from none[OF this] show ?thesis by simp
  qed
  with es True assms(1) show ?thesis
    by (auto simp: copyFrom_def setNullFromRange_def copy_range_def copied_def getNumNullBits_def mult.commute)
next
  case False
  with copyFromNullBits_ok[OF assms(1), of invert] show ?thesis by (auto simp: copyFrom_def)
qed

lemma guarantee_copyFromNullBits:
  assumes "guarantee m" "copyFromNullBits src so doff n invert m = Some (m', r)" "copy_range src so (nm_data m) doff n" "invert \<Longrightarrow> 3 < n"
  shows "guarantee m'"
proof (cases "mayContainNulls m'")
  case False
  with copyFromNullBits_ok[OF assms(3), of invert] assms have c: "copied src so (nm_data m) doff n invert (nm_data m')"
    "\<not> mayContainNulls m" "\<And>i. i < n \<Longrightarrow> nbit src (so + i) = invert" by auto
  have "\<not> nbit (nm_data m') p" if p: "p < 64 * length (nm_data m')" for p
    using c(1,2) c(3)[of "p - doff"] p assms(1) by (auto simp: copied_def guarantee_iff)
  then show ?thesis by (simp add: guarantee_iff)
qed (simp add: guarantee_iff)

lemma guarantee_copyFrom:
  assumes "guarantee m" "copyFrom other so doff n invert m = Some (m', r)" "copy_range (nm_data other) so (nm_data m) doff n" "invert \<Longrightarrow> 3 < n"
  shows "guarantee m'"
  using assms guarantee_setNullFromRange[OF assms(1)] guarantee_copyFromNullBits[OF assms(1)]
  by (auto simp: copyFrom_def split: if_splits bind_splits)

lemma guarantee_resize: "guarantee m \<Longrightarrow> resize_mask capacity m = Some m' \<Longrightarrow> guarantee m'"
  by (auto simp: resize_mask_def guarantee_iff nbit_def nth_append entry_lt Let_def split: bind_splits if_splits)

lemma countNulls_zero: "countNulls m = 0 \<longleftrightarrow> (\<forall>p < 64 * length (nm_data m). \<not> nbit (nm_data m) p)"
  by (auto simp: countNulls_card)

text \<open>The disjunction never sets the flag: it keeps the guarantee exactly when the mask flags nulls or the other has none.\<close>

lemma or_mask_iff:
  assumes "or_mask m other = Some m'"
  shows "mayContainNulls m' = mayContainNulls m" "countNulls m' = 0 \<longleftrightarrow> countNulls m = 0 \<and> countNulls other = 0"
proof -
  have "length (nm_data m') = length (nm_data m)" "length (nm_data other) = length (nm_data m)"
    "\<And>p. p < 64 * length (nm_data m) \<Longrightarrow> nbit (nm_data m') p \<longleftrightarrow> nbit (nm_data m) p \<or> nbit (nm_data other) p"
    and flag: "mayContainNulls m' = mayContainNulls m"
    using assms by (auto simp: or_mask_def nbit_def entry_lt bit_simps split: bind_splits)
  then show "mayContainNulls m' = mayContainNulls m" "countNulls m' = 0 \<longleftrightarrow> countNulls m = 0 \<and> countNulls other = 0"
    by (auto simp: countNulls_zero)
qed

lemma guarantee_or:
  assumes "guarantee m" "or_mask m other = Some m'" "mayContainNulls m \<or> countNulls other = 0"
  shows "guarantee m'"
  using assms or_mask_iff[OF assms(2)] by (auto simp: guarantee_def hasNoNullsGuarantee_def)

text \<open>
  The masks that the operations build, without the two steps that break the guarantee: a disjunction of a
  mask that flags no nulls with one that has some, and an inverted copy of three bits or less.
\<close>

inductive built_mask :: "NullMask_t \<Rightarrow> bool" where
  new: "built_mask (new_NullMask capacity)"
| all_non_null: "built_mask m \<Longrightarrow> built_mask (setAllNonNull m)"
| all_null: "built_mask m \<Longrightarrow> built_mask (setAllNull m)"
| set_null: "built_mask m \<Longrightarrow> setNull pos b m = Some m' \<Longrightarrow> built_mask m'"
| set_range: "built_mask m \<Longrightarrow> setNullFromRange offset n b m = Some m' \<Longrightarrow> built_mask m'"
| copy_bits: "built_mask m \<Longrightarrow> copyFromNullBits src so doff n invert m = Some (m', r) \<Longrightarrow>
    copy_range src so (nm_data m) doff n \<Longrightarrow> (invert \<longrightarrow> 3 < n) \<Longrightarrow> built_mask m'"
| copy_mask: "built_mask m \<Longrightarrow> built_mask other \<Longrightarrow> copyFrom other so doff n invert m = Some (m', r) \<Longrightarrow>
    copy_range (nm_data other) so (nm_data m) doff n \<Longrightarrow> (invert \<longrightarrow> 3 < n) \<Longrightarrow> built_mask m'"
| resize: "built_mask m \<Longrightarrow> resize_mask capacity m = Some m' \<Longrightarrow> built_mask m'"
| disjunction: "built_mask m \<Longrightarrow> built_mask other \<Longrightarrow> or_mask m other = Some m' \<Longrightarrow>
    (mayContainNulls m \<or> countNulls other = 0) \<Longrightarrow> built_mask m'"

lemma built_guarantee: "built_mask m \<Longrightarrow> guarantee m"
proof (induction rule: built_mask.induct)
  case (copy_bits m src so doff n invert m' r)
  then show ?case by (blast intro: guarantee_copyFromNullBits)
next
  case (copy_mask m other so doff n invert m' r)
  then show ?case by (blast intro: guarantee_copyFrom)
next
  case (disjunction m other m')
  then show ?case by (blast intro: guarantee_or)
qed (blast intro: guarantee_new guarantee_setAll guarantee_setNull guarantee_setNullFromRange guarantee_resize)+

section \<open>Properties\<close>

text \<open>
  C20: Copying null bits between two buffers at any offsets inside them (below two to the power of 32 for
  copies of three bits or less, whose positions are 32-bit numbers) returns, whether it goes bit by bit, in
  whole bytes or in shifted entries: the bits of the range come from the source, inverted if asked for, the other
  bits stay, and except for an inverted copy of three bits or less the result tells whether a null was
  written.
\<close>

theorem copy_null_mask_correct:
  assumes "copy_range src so dst doff n"
  shows "\<exists>dst' r. copyNullMask src so dst doff n invert = Some (dst', r) \<and> copied src so dst doff n invert dst' \<and>
    ((invert \<longrightarrow> 3 < n) \<longrightarrow> (r \<longleftrightarrow> (\<exists>p. doff \<le> p \<and> p < doff + n \<and> nbit dst' p)))"
proof -
  from copyNullMask_ok[of so n src doff dst invert] assms obtain d where
    d: "copyNullMask src so dst doff n invert = Some (d, \<exists>i < n. nbit src (so + i) \<noteq> (invert \<and> n > 3))"
    "copied src so dst doff n invert d" by (auto simp: copy_range_def)
  have bits: "nbit d (doff + i) \<longleftrightarrow> nbit src (so + i) \<noteq> invert" if "i < n" for i
    using d(2) that assms by (simp add: copied_def copy_range_def)
  have "(\<exists>p. doff \<le> p \<and> p < doff + n \<and> nbit d p) \<longleftrightarrow> (\<exists>i < n. nbit src (so + i) \<noteq> invert)"
    using bits by (metis add_less_cancel_left le_add1 le_iff_add)
  with d show ?thesis by auto
qed

theorem copy_null_mask_correct_witness:
  "copy_range [5, 0, 9] 3 [0, 7, 0] 60 100 \<and>
   (\<exists>dst' r. copyNullMask [5, 0, 9] 3 [0, 7, 0] 60 100 True = Some (dst', r) \<and> copied [5, 0, 9] 3 [0, 7, 0] 60 100 True dst' \<and>
      (r \<longleftrightarrow> (\<exists>p. 60 \<le> p \<and> p < 60 + 100 \<and> nbit dst' p)))"
proof -
  have "copy_range [5, 0, 9] 3 [0, 7, 0] 60 100" by (simp add: copy_range_def)
  with copy_null_mask_correct[OF this, of True] show ?thesis by simp
qed

text \<open>
  C21: A mask that does not flag nulls has none, for every mask built by the operations except through two
  steps (copies stay inside their buffers): an inverted copy of three bits or less, and a disjunction with a mask that has nulls while the mask
  itself flags none. The count is then zero, every position reads as not null, and no range has a null.
  The second exception is exact: the disjunction does not set the flag, and its result has nulls exactly
  when the other mask has.
\<close>

theorem null_mask_guarantee:
  assumes "built_mask m" "hasNoNullsGuarantee m"
  shows "countNulls m = 0 \<and>
    (\<forall>pos. unat pos < getNumNullBits (nm_data m) \<longrightarrow> isNull_at pos m = Some False) \<and>
    (\<forall>offset n. 0 < n \<longrightarrow> offset + n \<le> getNumNullBits (nm_data m) \<longrightarrow> getMinMax (nm_data m) offset n = Some (False, False)) \<and>
    (\<forall>other m'. or_mask m other = Some m' \<longrightarrow> hasNoNullsGuarantee m' \<and> (countNulls m' = 0 \<longleftrightarrow> countNulls other = 0))"
proof (intro conjI allI impI)
  have none: "\<not> nbit (nm_data m) p" if "p < 64 * length (nm_data m)" for p
    using built_guarantee[OF assms(1)] assms(2) that by (auto simp: guarantee_iff hasNoNullsGuarantee_def)
  show zero: "countNulls m = 0" using built_guarantee[OF assms(1)] assms(2) by (simp add: guarantee_def)
  show "isNull_at pos m = Some False" if "unat pos < getNumNullBits (nm_data m)" for pos
    using that none isNull_entries_ok[of pos "nm_data m"] by (simp add: isNull_at_def getNumNullBits_def mult.commute)
  show "getMinMax (nm_data m) offset n = Some (False, False)" if "0 < n" "offset + n \<le> getNumNullBits (nm_data m)" for offset n
    using that none getMinMax_ok[of offset n "nm_data m"] by (auto simp: getNumNullBits_def mult.commute)
  show "hasNoNullsGuarantee m'" "countNulls m' = 0 \<longleftrightarrow> countNulls other = 0" if "or_mask m other = Some m'" for other m'
    using or_mask_iff[OF that] zero assms(2) by (simp_all add: hasNoNullsGuarantee_def)
qed

theorem null_mask_guarantee_witness:
  "\<exists>m. setNull 5 True (new_NullMask 100) = Some m \<and> countNulls m = 1 \<and>
     countNulls (setAllNonNull m) = 0 \<and> isNull_at 5 (setAllNonNull m) = Some False \<and>
     getMinMax (nm_data (setAllNonNull m)) 3 90 = Some (False, False)"
proof -
  have s: "setNull 5 True (new_NullMask 100) = Some \<lparr>nm_data = [32, 0], mayContainNulls = True\<rparr>" (is "_ = Some ?m") by code_simp
  have c: "countNulls ?m = 1" by code_simp
  have b: "built_mask (setAllNonNull ?m)" by (intro built_mask.all_non_null built_mask.set_null[OF built_mask.new s])
  have h: "hasNoNullsGuarantee (setAllNonNull ?m)" by code_simp
  have l: "getNumNullBits (nm_data (setAllNonNull ?m)) = 128" by (simp add: setAllNonNull_def getNumNullBits_def)
  have "isNull_at 5 (setAllNonNull ?m) = Some False" "getMinMax (nm_data (setAllNonNull ?m)) 3 90 = Some (False, False)"
    "countNulls (setAllNonNull ?m) = 0"
    using null_mask_guarantee[OF b h] l by auto
  then show ?thesis using s c by simp
qed

text \<open>
  C34: An inverted copy of at most three zero bits writes nulls and reports none: the mask goes on
  guaranteeing that it has no nulls although every position of the range is null.
\<close>

theorem inverted_copy_hides_nulls:
  assumes "copy_range src so (nm_data m) doff n" "0 < n" "n \<le> 3" "\<forall>i < n. \<not> nbit src (so + i)" "hasNoNullsGuarantee m"
  shows "\<exists>m'. copyFromNullBits src so doff n True m = Some (m', False) \<and> hasNoNullsGuarantee m' \<and>
    (\<forall>i < n. nbit (nm_data m') (doff + i)) \<and> 0 < countNulls m'"
proof -
  from copyFromNullBits_ok[OF assms(1), of True] assms(3-5) obtain m' where
    m': "copyFromNullBits src so doff n True m = Some (m', False)" "copied src so (nm_data m) doff n True (nm_data m')"
    "hasNoNullsGuarantee m'" by (auto simp: hasNoNullsGuarantee_def)
  have bits: "doff + i < 64 * length (nm_data m') \<and> nbit (nm_data m') (doff + i)" if "i < n" for i
    using m'(2) that assms(1,4) by (simp add: copied_def copy_range_def)
  from bits[OF assms(2)] have "countNulls m' \<noteq> 0" by (auto simp: countNulls_card)
  with m' bits show ?thesis by auto
qed

theorem inverted_copy_hides_nulls_witness:
  "\<exists>m'. copyFromNullBits [0] 0 0 2 True (new_NullMask 64) = Some (m', False) \<and> hasNoNullsGuarantee m' \<and> 0 < countNulls m'"
  using inverted_copy_hides_nulls[of "[0]" 0 "new_NullMask 64" 0 2]
  by (auto simp: copy_range_def new_NullMask_def hasNoNullsGuarantee_def nbit_def)

end
