(* ===== verification/Spec2Isabelle.thy ===== *)
theory Spec2Isabelle
  imports CycleJoinGraph MultiwayIntersect FactorizedOps SelVector IntersectMultiwayLoop BuildProbe SubqueryGraphs IntersectOp TimestampTypes NullMask
begin

text \<open>
  \<^bold>\<open>Verification of the cycle-join extension of the graph database\<close>

  \<^bold>\<open>The program.\<close> The repository is an embedded graph database with an extension that evaluates cyclic
  patterns. The planner turns the pattern of a query into a simple graph and searches it for a \<^emph>\<open>cycle
  join\<close>: a probe subgraph and, for its nodes, paths that meet in common intersection nodes. The
  executor builds one join hash table per probe node that maps a node to the lists of its neighbours,
  probes the tables with the nodes of a probe tuple, and intersects the neighbour lists of every
  intersection node. The tables store their rows in a factorized table, where a column of a row is a
  value or a list of values in an overflow block. The scalar types of the engine include dates, times,
  timestamps and intervals. Paths below are relative to src/src.

  \<^bold>\<open>Conventions.\<close> A \<open>std::set\<close> is an ascending list and a \<open>std::map\<close> an association list with ascending
  keys (\<open>oset\<close>, \<open>omap\<close> of \<open>Prelude\<close>). An assertion that fails, an exception, a read out of range and
  signed overflow are \<open>None\<close>: the model is that of a build with run-time checks. A release build compiles
  \<open>KU_ASSERT\<close> away (include/common/assert.h); it behaves the same wherever a theorem shows that
  the result is not \<open>None\<close>. Loops over containers are folds (\<open>foldl\<close>, \<open>foldM\<close>), with invariant rules in
  \<open>Prelude\<close>. Loops whose end is not obvious are \<open>function\<close>s with a termination proof or
  \<open>partial_function (option)\<close>s with a lemma that they return; there is no fuel anywhere. Constants chosen
  at build time (the vector capacity, the block size) are parameters. Unsigned numbers that wrap are
  words; 32-bit and 64-bit signed fields are integers with the range checked (\<open>i32\<close>, \<open>i64\<close>) or wrapped
  (\<open>wrap32\<close>, \<open>wrap64\<close>) as the code converts them. Memory that several rows share, the overflow blocks, is
  an explicit heap. \<open>std::shuffle\<close>, the hash of a bitset, the variables of an expression and the lowering
  of a string are arguments.

  \<^bold>\<open>Planner.\<close>
  \<^item> \<open>SimpleGraph\<close>: \<open>struct Graph\<close> of include/binder/query/query_graph_simple.hpp. The invariant \<open>wf_graph\<close>
    is kept by every operation; merging is union and removing edges is difference. The edge counter of
    the code does not count edges.
  \<^item> \<open>BasicPaths\<close>: \<open>extendPath\<close> and \<open>findBasicCycleIntersection\<close>. The pruning loop returns the 2-core;
    extending a path returns and follows its chain; the paths found are the maximal degree-two paths
    between different branching nodes, each once. The locale \<open>adjacency\<close> states what the walk needs of a
    graph and is interpreted on \<open>struct Graph\<close>.
  \<^item> \<open>CycleJoinGraph\<close>: \<open>findCycleJoin\<close>, \<open>compareCycleJoin\<close>, \<open>findBestCycleJoin\<close>. The removal loop computes
    the greatest stable part; the result is a cycle join; the search returns for every loop-free graph
    and every shuffle. The comparison is not an order.
  \<^item> \<open>QueryGraph\<close>, \<open>SubqueryGraphs\<close>: binder/query/query_graph.cpp and the merging of patterns in
    binder/bind/bind_graph_pattern.cpp. The graphs kept are the connected components, and the neighbour
    enumeration is complete against its specification by adjacency.

  \<^bold>\<open>Vectors and tables.\<close>
  \<^item> \<open>SelVector\<close>: common/data_chunk/sel_vector.h and \<open>ValueVector::discardNull\<close>. After every
    sequence of operations, in which increments leave room, walking through a slice visits what the
    indexed reads give; discarding nulls is right on unfiltered selections and keeps a wrong prefix on
    filtered ones.
  \<^item> \<open>NullMask\<close>: common/null_mask.cpp and include/common/null_mask.h. Copies at any offsets, in entries,
    bytes or single bits, equal the copy bit by bit, ranges are set exactly, minimum, maximum and count
    agree with the bits, and a mask that flags no nulls has none, unless a short inverted copy or
    a disjunction hid them; small copies need positions below two to the power of 32.
  \<^item> \<open>FactorizedTable\<close>, \<open>FactorizedAppend\<close>, \<open>FactorizedOps\<close>: processor/result/factorized_table.cpp and
    factorized_table_schema.cpp. Blocks, allocation, appending, merging, reading back and resizing; the
    invariant \<open>table_ok\<close>, the weaker \<open>merged_ok\<close> after merging, append and scan as a round trip
    through any destination selection, overflow regions that are disjoint except where a 32-bit block size
    wraps around, and a state after \<open>resize\<close> in which rows are addressed wrongly.
  \<^item> \<open>NodeID\<close>, \<open>HashFunctions\<close>: internal identifiers as a linear order, the hashes of
    include/function/hash/hash_functions.h (injective on 64-bit words) and the next power of two.

  \<^bold>\<open>Executor.\<close>
  \<^item> \<open>JoinHashTable\<close>, \<open>JoinChains\<close>: processor/operator/hash_join/join_hash_table.cpp. After finalizing,
    the chain of a hash holds the rows with that hash, and matching delivers exactly the rows with the
    key, in batches. The locale \<open>chained_table\<close> is the interface of a probe (first tuple, previous tuple);
    its interpretation on the table gives the walks of both operators.
  \<^item> \<open>TupleCursor\<close>, \<open>MultiwayIntersect\<close>: the cursor and the intersection of sorted lists of
    processor/operator/intersect/intersect_multiway.cpp. The intersection terminates and yields each
    identifier with the product of its multiplicities; the locale \<open>id_cursor\<close> states what it needs of a
    cursor. Sorting the lists of a node one by one, as the operator does, is not enough.
  \<^item> \<open>IntersectMultiwayOp\<close>, \<open>IntersectMultiwayLoop\<close>: the operator around it: connection tables, probing,
    order, caches and the loop over result chunks, which emits everything when at most one node has
    several chunks and truncates a chunk otherwise.
  \<^item> \<open>IntersectMultiwayBuild\<close>, \<open>BuildProbe\<close>: include/processor/operator/intersect/intersect_multiway_build.h.
    The build keeps every neighbour of a complete run of chunks, one in which no payload column is
    empty, and drops incomplete runs; build, merge, finalize and probe compose: a probe finds what the
    complete runs of all threads held. Threads merge under a lock and are a sequence of merges here.
  \<^item> \<open>IntersectOp\<close>: processor/operator/intersect/intersect.cpp. Intersection by pairs with selections into
    every list, the enumeration of tuple combinations, which starts unless their number wraps
    around to zero in 32 bits, and a reader that leaves its list.

  \<^bold>\<open>Scalar types.\<close>
  \<^item> \<open>DateTypes\<close>, \<open>DateOps\<close>: common/types/date_t.cpp. The tables agree with the Gregorian calendar; day
    numbers, calendar dates and text convert to one another; months are added, dates truncated and
    named as expected.
  \<^item> \<open>IntervalTypes\<close>: common/types/interval_t.cpp. The operators in terms of the lengths of
    intervals below a day of microseconds, when two intervals are each less than the other, and the uncarried
    days beyond a day of microseconds.
  \<^item> \<open>TimestampTypes\<close>: common/types/dtime_t.cpp and timestamp_t.cpp. Splitting and building timestamps,
    and differences, are inverse, outside the eleven days before the smallest year.

  \<^bold>\<open>Not modelled.\<close> Parsing and binding of queries, the construction of logical and physical plans, join
  order enumeration and optimizer rewrites, storage, transactions, catalog, the function library, the
  APIs, the shell and the extensions: they are I/O, object construction over shared pointers, generated
  code, or depend on such parts. Within the parts above: metrics and printing functions, the conversion
  of query graphs to join hints, key types of the join table other than internal identifiers, the flat
  tuple iterator of the factorized table, parsing and printing of intervals, and the headers of
  timestamps. Byte layouts inside a cell are abstracted to typed cells.
\<close>

end
